(* ===== verification/Fwd_Wrr.thy ===== *)
theory Fwd_Wrr
  imports Prelude
begin

text \<open>The smooth weighted round robin of the plain \<open>forward\<close> command
(\<open>cmds/forward.rs\<close>: \<open>weighted_round_robin\<close>, \<open>gcd_u32\<close>). The current weights are \<open>isize\<close> in the
code and \<open>int\<close> here; \<open>wrr_invariant\<close> keeps every one of them above \<open>- total\<close> with sum zero.\<close>

section \<open>Definitions\<close>

record UpstreamNode =
  node_url :: string
  node_weight :: u32

function gcd_u32 :: "u32 \<Rightarrow> u32 \<Rightarrow> u32" where
  "gcd_u32 a b = (if b \<noteq> 0 then gcd_u32 b (a mod b) else a)"
  by pat_completeness auto
termination
  by (relation "measure (\<lambda>(a, b). unat b)") (auto simp: unat_mod unat_gt_0)

declare gcd_u32.simps [simp del]

datatype wrr_error = WeightSumOverflow | WeightSumZero | SelectFailed

fun checked_sum :: "nat \<Rightarrow> nat list \<Rightarrow> (wrr_error, nat) result" where
  "checked_sum acc [] = Inr acc"
| "checked_sum acc (w # ws) =
     (if acc + w < 2 ^ 64 then checked_sum (acc + w) ws else Inl WeightSumOverflow)"

function first_max :: "int list \<Rightarrow> nat \<Rightarrow> nat \<Rightarrow> nat" where
  "first_max cur selected i =
     (if i < length cur
      then first_max cur (if cur ! i > cur ! selected then i else selected) (Suc i)
      else selected)"
  by pat_completeness auto
termination
  by (relation "measure (\<lambda>(cur, _, i). length cur - i)") auto

declare first_max.simps [simp del]

definition wrr_step :: "nat list \<Rightarrow> nat \<Rightarrow> int list \<Rightarrow> nat \<times> int list" where
  "wrr_step ws tw cur =
     (let cur = map2 (\<lambda>c w. c + int w) cur ws;
          selected = first_max cur 0 1
      in (selected, cur[selected := cur ! selected - int tw]))"

fun wrr_loop :: "nat list \<Rightarrow> nat \<Rightarrow> nat \<Rightarrow> int list \<Rightarrow> nat" where
  "wrr_loop ws tw 0 cur = fst (wrr_step ws tw cur)"
| "wrr_loop ws tw (Suc remaining) cur = wrr_loop ws tw remaining (snd (wrr_step ws tw cur))"

definition weights_gcd :: "UpstreamNode list \<Rightarrow> u32" where
  "weights_gcd ups =
     fold (\<lambda>node acc. if acc = 0 then node_weight node else gcd_u32 acc (node_weight node)) ups 0"

definition normalized_weights :: "UpstreamNode list \<Rightarrow> nat list" where
  "normalized_weights ups =
     (let gcd = weights_gcd ups; divisor = (if gcd = 0 then 1 else gcd)
      in map (\<lambda>node. unat (node_weight node div divisor)) ups)"

definition weighted_round_robin :: "UpstreamNode list \<Rightarrow> u64 \<Rightarrow> (wrr_error, string) result \<times> u64" where
  "weighted_round_robin ups ctr =
     (let ws = normalized_weights ups in
      case checked_sum 0 ws of
        Inl e \<Rightarrow> (Inl e, ctr)
      | Inr total_weight \<Rightarrow>
          if total_weight = 0 then (Inl WeightSumZero, ctr)
          else let target_step = unat ctr mod total_weight;
                   selected = wrr_loop ws total_weight target_step (replicate (length ups) 0)
               in (Inr (node_url (ups ! selected)), ctr + 1))"

section \<open>Greatest common divisor\<close>

lemma unat_gcd_u32: "unat (gcd_u32 a b) = gcd (unat a) (unat b)"
proof (induction a b rule: gcd_u32.induct)
  case (1 a b)
  then show ?case
    by (subst gcd_u32.simps) (simp add: unat_mod gcd_red_nat [of "unat a"])
qed

lemma fold_gcd:
  "unat (fold (\<lambda>node acc. if acc = 0 then node_weight node else gcd_u32 acc (node_weight node)) ups acc)
   = Gcd (insert (unat acc) ((\<lambda>node. unat (node_weight node)) ` set ups))"
  by (induction ups arbitrary: acc) (auto simp: unat_gcd_u32 gcd.assoc)

lemma weights_gcd_Gcd: "unat (weights_gcd ups) = Gcd ((\<lambda>node. unat (node_weight node)) ` set ups)"
  by (simp add: weights_gcd_def fold_gcd)

lemma normalized_weights_nth:
  assumes "i < length ups" "node_weight (ups ! i) \<noteq> 0"
  shows "normalized_weights ups ! i
       = unat (node_weight (ups ! i)) div Gcd ((\<lambda>node. unat (node_weight node)) ` set ups)"
proof -
  have "weights_gcd ups \<noteq> 0"
  proof
    assume "weights_gcd ups = 0"
    then have "Gcd ((\<lambda>node. unat (node_weight node)) ` set ups) = 0"
      using weights_gcd_Gcd [of ups] by simp
    then have "unat (node_weight (ups ! i)) = 0"
      using nth_mem [OF assms(1)] by (auto simp: Gcd_0_iff)
    then show False using assms(2) by (simp add: unat_0_iff)
  qed
  then show ?thesis
    using assms(1) by (simp add: normalized_weights_def Let_def unat_div weights_gcd_Gcd)
qed

lemma length_normalized_weights [simp]: "length (normalized_weights ups) = length ups"
  by (simp add: normalized_weights_def Let_def)

lemma checked_sum_ok: "acc + sum_list ws < 2 ^ 64 \<Longrightarrow> checked_sum acc ws = Inr (acc + sum_list ws)"
  by (induction ws arbitrary: acc) (auto simp: add.assoc)

section \<open>The smooth selection\<close>

lemma first_max_max:
  assumes "s < length cur" "\<forall>j < i. cur ! j \<le> cur ! s" "i \<le> length cur"
  shows "first_max cur s i < length cur \<and> (\<forall>j < length cur. cur ! j \<le> cur ! first_max cur s i)"
  using assms
proof (induction cur s i rule: first_max.induct)
  case (1 cur s i)
  show ?case
  proof (cases "i < length cur")
    case True
    let ?s = "if cur ! i > cur ! s then i else s"
    have "\<forall>j < Suc i. cur ! j \<le> cur ! ?s"
      using 1(3) by (auto simp: less_Suc_eq)
    then have "first_max cur ?s (Suc i) < length cur \<and>
        (\<forall>j < length cur. cur ! j \<le> cur ! first_max cur ?s (Suc i))"
      using 1(1) [OF True] 1(2) True by simp
    then show ?thesis using True by (simp add: first_max.simps [of cur s i])
  next
    case False
    then have "first_max cur s i = s" by (simp add: first_max.simps [of cur s i])
    then show ?thesis using 1(2-4) False by auto
  qed
qed

text \<open>The state after \<open>t\<close> steps from the zero vector, and how often each node was picked.\<close>

primrec wrr_state :: "nat list \<Rightarrow> nat \<Rightarrow> int list" where
  "wrr_state ws 0 = replicate (length ws) 0"
| "wrr_state ws (Suc t) = snd (wrr_step ws (sum_list ws) (wrr_state ws t))"

definition wrr_pick :: "nat list \<Rightarrow> nat \<Rightarrow> nat" where
  "wrr_pick ws t = fst (wrr_step ws (sum_list ws) (wrr_state ws t))"

lemma wrr_loop_pick:
  "wrr_loop ws (sum_list ws) n (wrr_state ws t) = wrr_pick ws (t + n)"
proof (induction n arbitrary: t)
  case (Suc n)
  then show ?case using Suc [of "Suc t"] by simp
qed (simp add: wrr_pick_def)

lemma length_wrr_state [simp]: "length (wrr_state ws t) = length ws"
  by (induction t) (simp_all add: wrr_step_def Let_def)

lemma sum_list_update_diff:
  "s < length xs \<Longrightarrow> sum_list (xs[s := xs ! s - d]) = sum_list xs - (d :: int)"
  by (induction xs arbitrary: s) (auto split: nat.split)

lemma sum_list_map2_add:
  "length cur = length ws \<Longrightarrow>
   sum_list (map2 (\<lambda>c w. c + int w) cur ws) = sum_list cur + int (sum_list ws)"
  by (induction cur ws rule: list_induct2) auto

lemma max_positive:
  assumes "sum_list xs > (0 :: int)" "m < length xs" "\<forall>j < length xs. xs ! j \<le> xs ! m"
  shows "xs ! m > 0"
proof (rule ccontr)
  assume "\<not> xs ! m > 0"
  then have "\<forall>x \<in> set xs. x \<le> 0" using assms(3) by (force simp: in_set_conv_nth)
  then have "sum_list xs \<le> 0" by (simp add: sum_list_nonpos)
  then show False using assms(1) by simp
qed

text \<open>Sum zero, and every entry stays above minus the total.\<close>

lemma wrr_invariant:
  assumes "0 < sum_list ws"
  shows "sum_list (wrr_state ws t) = 0 \<and> (\<forall>i < length ws. - int (sum_list ws) < wrr_state ws t ! i)
       \<and> wrr_pick ws t < length ws"
proof -
  let ?W = "sum_list ws"
  have step: "sum_list (snd (wrr_step ws ?W cur)) = 0 \<and>
       (\<forall>i < length ws. - int ?W < snd (wrr_step ws ?W cur) ! i) \<and> fst (wrr_step ws ?W cur) < length ws"
    if cur: "length cur = length ws" "sum_list cur = 0" "\<forall>i < length ws. - int ?W < cur ! i" for cur
  proof -
    define c where "c = map2 (\<lambda>c w. c + int w) cur ws"
    define s where "s = first_max c 0 1"
    have len: "length c = length ws" using cur(1) by (simp add: c_def)
    have "ws \<noteq> []" using assms by auto
    then have "0 < length c" "1 \<le> length c" using len by (simp_all add: Suc_leI)
    then have s: "s < length c" "\<forall>j < length c. c ! j \<le> c ! s"
      using first_max_max [of 0 c 1] by (auto simp: s_def)
    have sum: "sum_list c = int ?W"
      using cur(1,2) by (simp add: c_def sum_list_map2_add)
    then have pos: "0 < c ! s"
      using max_positive [OF _ s] assms by simp
    have low: "- int ?W < c ! i" if "i < length ws" for i
    proof -
      have "- int ?W < cur ! i" "c ! i = cur ! i + int (ws ! i)"
        using cur(1,3) that by (simp_all add: c_def)
      then show ?thesis by linarith
    qed
    have st: "wrr_step ws ?W cur = (s, c[s := c ! s - int ?W])"
      by (simp add: wrr_step_def c_def s_def Let_def)
    show ?thesis
      unfolding st using sum pos low s len by (auto simp: sum_list_update_diff nth_list_update)
  qed
  have inv: "sum_list (wrr_state ws t) = 0 \<and> (\<forall>i < length ws. - int ?W < wrr_state ws t ! i)" for t
  proof (induction t)
    case 0
    then show ?case using assms by (simp add: sum_list_replicate)
  next
    case (Suc t)
    then show ?case using step [of "wrr_state ws t"] by simp
  qed
  then show ?thesis using step [of "wrr_state ws t"] by (simp add: wrr_pick_def)
qed

lemma wrr_state_closed:
  assumes "0 < sum_list ws" "i < length ws"
  shows "wrr_state ws t ! i
       = int t * int (ws ! i) - int (sum_list ws) * int (count_list (map (wrr_pick ws) [0..<t]) i)"
proof (induction t)
  case 0
  then show ?case using assms(2) by simp
next
  case (Suc t)
  let ?W = "sum_list ws" and ?st = "wrr_state ws t"
  have lt: "wrr_pick ws t < length ws" using wrr_invariant [OF assms(1)] by blast
  have "wrr_state ws (Suc t) ! i
      = ?st ! i + int (ws ! i) - (if wrr_pick ws t = i then int ?W else 0)"
    using assms(2) lt by (auto simp: wrr_pick_def wrr_step_def Let_def nth_list_update)
  then show ?case
    using Suc by (auto simp: algebra_simps split: if_splits)
qed

lemma sum_count_list:
  fixes xs :: "nat list"
  shows "\<forall>x \<in> set xs. x < n \<Longrightarrow> (\<Sum>i < n. count_list xs i) = length xs"
proof (induction xs)
  case (Cons x xs)
  have "(\<Sum>i < n. count_list (x # xs) i) = (\<Sum>i < n. count_list xs i + (if x = i then 1 else 0))"
    by (intro sum.cong) auto
  moreover have "(\<Sum>i < n. if x = i then 1 else 0) = (1 :: nat)"
    using Cons.prems by (subst sum.delta') auto
  ultimately show ?case using Cons by (simp add: sum.distrib)
qed simp

lemma wrr_cycle_exact:
  assumes "0 < sum_list ws" "i < length ws"
  shows "count_list (map (wrr_pick ws) [0..<sum_list ws]) i = ws ! i"
proof -
  let ?W = "sum_list ws" and ?picks = "map (wrr_pick ws) [0..<sum_list ws]"
  have le: "count_list ?picks j \<le> ws ! j" if "j < length ws" for j
  proof -
    have "- int ?W < wrr_state ws ?W ! j"
      using wrr_invariant [OF assms(1), of ?W] that by blast
    then have "- int ?W < int ?W * (int (ws ! j) - int (count_list ?picks j))"
      unfolding wrr_state_closed [OF assms(1) that] by (simp only: right_diff_distrib)
    then have "- 1 < int (ws ! j) - int (count_list ?picks j)"
      using assms(1) mult_less_cancel_left_pos [of "int ?W" "- 1"] by simp
    then show ?thesis by simp
  qed
  have "(\<Sum>j < length ws. count_list ?picks j) = length ?picks"
    using wrr_invariant [OF assms(1)] by (intro sum_count_list) auto
  also have "\<dots> = (\<Sum>j < length ws. ws ! j)"
    by (simp add: sum_list_sum_nth atLeast0LessThan)
  finally have "\<forall>j \<in> {..<length ws}. count_list ?picks j = ws ! j"
    using sum_mono_inv [of "\<lambda>j. count_list ?picks j" "{..<length ws}" "\<lambda>j. ws ! j"] le by auto
  then show ?thesis using assms(2) by blast
qed

section \<open>Selection across requests\<close>

text \<open>The answers to \<open>n\<close> successive requests.\<close>

primrec wrr_requests :: "nat \<Rightarrow> UpstreamNode list \<Rightarrow> u64 \<Rightarrow> (wrr_error, string) result list" where
  "wrr_requests 0 ups ctr = []"
| "wrr_requests (Suc n) ups ctr =
     (let (r, ctr) = weighted_round_robin ups ctr in r # wrr_requests n ups ctr)"

lemma weighted_round_robin_pick:
  assumes "0 < sum_list (normalized_weights ups)" "sum_list (normalized_weights ups) < 2 ^ 64"
  shows "weighted_round_robin ups ctr =
     (Inr (node_url (ups ! wrr_pick (normalized_weights ups)
        (unat ctr mod sum_list (normalized_weights ups)))), ctr + 1)"
proof -
  let ?ws = "normalized_weights ups"
  have "checked_sum 0 ?ws = Inr (sum_list ?ws)"
    using checked_sum_ok [of 0 ?ws] assms(2) by simp
  moreover have "wrr_loop ?ws (sum_list ?ws) n (replicate (length ups) 0) = wrr_pick ?ws n" for n
    using wrr_loop_pick [of ?ws n 0] by simp
  moreover have "sum_list ?ws \<noteq> 0" using assms(1) by linarith
  ultimately show ?thesis
    by (simp add: weighted_round_robin_def Let_def)
qed

lemma wrr_requests_picks:
  assumes "0 < sum_list (normalized_weights ups)" "sum_list (normalized_weights ups) < 2 ^ 64"
    "unat ctr + n \<le> 2 ^ 64"
  shows "wrr_requests n ups ctr =
     map (\<lambda>i. Inr (node_url (ups ! i)))
       (map (\<lambda>c. wrr_pick (normalized_weights ups) (c mod sum_list (normalized_weights ups)))
         [unat ctr..<unat ctr + n])"
  using assms(3)
proof (induction n arbitrary: ctr)
  case (Suc n)
  show ?case
  proof (cases n)
    case 0
    then show ?thesis using assms by (simp add: weighted_round_robin_pick)
  next
    case (Suc m)
    have "unat (ctr + 1) = unat ctr + 1"
      using Suc Suc.prems by (subst unat_plus_if') simp
    moreover have "unat (ctr + 1) + n \<le> 2 ^ 64" using Suc.prems calculation by simp
    note Suc.IH [OF this]
    ultimately show ?thesis
      using assms by (simp add: weighted_round_robin_pick upt_conv_Cons del: upt_Suc)
  qed
qed simp

lemma mset_picks_cycle:
  assumes "0 < sum_list ws"
  shows "mset (map (\<lambda>c. wrr_pick ws (c mod sum_list ws)) [c..<c + sum_list ws])
       = mset (map (wrr_pick ws) [0..<sum_list ws])"
proof -
  let ?W = "sum_list ws"
  have "mset (map (\<lambda>c. wrr_pick ws (c mod ?W)) [c..<c + ?W])
      = image_mset (wrr_pick ws) (mset (map (\<lambda>c. c mod ?W) [c..<c + ?W]))"
    by (simp only: mset_map image_mset.compositionality comp_def)
  also have "\<dots> = image_mset (wrr_pick ws) (mset [0..<?W])"
    by (simp only: mset_upt_mod)
  finally show ?thesis by (simp only: mset_map)
qed

section \<open>Properties\<close>

text \<open>C20. The smooth weighted round robin of the plain \<open>forward\<close> command is exact: with distinct URLs
and positive weights, over one cycle of requests (the sum of the weights divided by their greatest
common divisor) each upstream is chosen exactly its normalised weight of times, from any counter
value that does not reach \<open>2 ^ 64\<close> within the cycle.\<close>

theorem weighted_round_robin_exact:
  assumes "distinct (map node_url ups)" "\<forall>node \<in> set ups. node_weight node \<noteq> 0"
    "cycle = sum_list (normalized_weights ups)" "unat ctr + cycle < 2 ^ 64" "i < length ups"
  shows "count_list (wrr_requests cycle ups ctr) (Inr (node_url (ups ! i)))
       = unat (node_weight (ups ! i)) div Gcd ((\<lambda>node. unat (node_weight node)) ` set ups)"
proof -
  let ?ws = "normalized_weights ups" and ?G = "Gcd ((\<lambda>node. unat (node_weight node)) ` set ups)"
  have ws_i: "?ws ! i = unat (node_weight (ups ! i)) div ?G"
    using assms(2,5) by (intro normalized_weights_nth) auto
  have "?G dvd unat (node_weight (ups ! i))" using assms(5) by (intro Gcd_dvd) auto
  moreover have "unat (node_weight (ups ! i)) \<noteq> 0" using assms(2,5) by (simp add: unat_0_iff)
  ultimately have "0 < ?ws ! i" unfolding ws_i
    by (metis dvd_div_eq_0_iff gr0I)
  then have pos: "0 < sum_list ?ws"
    using assms(5) elem_le_sum_list [of i ?ws] by simp
  let ?picks = "map (\<lambda>c. wrr_pick ?ws (c mod cycle)) [unat ctr..<unat ctr + cycle]"
    and ?f = "\<lambda>i. Inr (node_url (ups ! i)) :: (wrr_error, string) result"
  have req: "wrr_requests cycle ups ctr = map ?f ?picks"
    using wrr_requests_picks [OF pos, of ctr cycle] assms(3,4) by simp
  have "inj_on ?f (insert i (set ?picks))"
  proof (rule inj_onI)
    fix x y
    assume "x \<in> insert i (set ?picks)" "y \<in> insert i (set ?picks)" "?f x = ?f y"
    moreover from this have "x < length ups" "y < length ups"
      using wrr_invariant [OF pos] assms(5) by auto
    ultimately show "x = y"
      using assms(1) nth_eq_iff_index_eq [of "map node_url ups" x y] by simp
  qed
  then have "count_list (wrr_requests cycle ups ctr) (?f i) = count_list ?picks i"
    unfolding req by (rule count_list_map_inj)
  also have "\<dots> = count_list (map (wrr_pick ?ws) [0..<sum_list ?ws]) i"
    unfolding count_list_mset assms(3) by (simp only: mset_picks_cycle [OF pos])
  also have "\<dots> = ?ws ! i"
    using assms(5) by (intro wrr_cycle_exact [OF pos]) simp
  finally show ?thesis by (simp only: ws_i)
qed

theorem weighted_round_robin_exact_witness:
  "count_list (wrr_requests 3
      [\<lparr> node_url = ''a'', node_weight = 4 \<rparr>, \<lparr> node_url = ''b'', node_weight = 2 \<rparr>] 7) (Inr ''a'') = 2"
proof -
  let ?ups = "[\<lparr> node_url = ''a'', node_weight = 4 \<rparr>, \<lparr> node_url = ''b'', node_weight = 2 \<rparr>]"
  have "gcd_u32 4 2 = 2" by code_simp
  then have "normalized_weights ?ups = [2, 1]"
    by (simp add: normalized_weights_def weights_gcd_def unat_div)
  then show ?thesis
    using weighted_round_robin_exact [of ?ups 3 7 0] by simp
qed

end
