(* ===== verification/Fwd_Plan.thy ===== *)
theory Fwd_Plan
  imports Prelude
begin

text \<open>The data model of a forward group (\<open>forward/plan.rs\<close>): balance methods, the retry policy
\<open>NextUpstreamPolicy\<close>, targets, provider servers and the plan with its validation, its transport
encoding and its failure-state key.

Base64 and the JSON text format are third-party; \<open>encode\<close> and \<open>decode\<close> take them as functions.
The JSON text is produced from the serialised field values, and the two duration fields are
serialised as whole milliseconds in a \<open>u64\<close> (\<open>duration_ms\<close>): \<open>wire_plan\<close> is that step.
\<open>DefaultHasher\<close> has an unspecified algorithm, so the hash is an argument wherever it is used.\<close>

section \<open>Data\<close>

definition DEFAULT_MAX_FAILS :: u32 where "DEFAULT_MAX_FAILS = 1"
definition DEFAULT_FAIL_TIMEOUT_MS :: nat where "DEFAULT_FAIL_TIMEOUT_MS = 10000"
definition DEFAULT_MAX_BODY_BUFFER_BYTES :: u64 where "DEFAULT_MAX_BODY_BUFFER_BYTES = 64 * 1024"

datatype BalanceMethod =
  RoundRobin | IpHash | Hash string | ConsistentHash string | LeastTime

datatype NextUpstreamCondition =
  Error | Timeout | Http5xx | Http502 | Http503 | Http504 | InvalidHeader | NonIdempotent

record NextUpstreamPolicy =
  conditions :: "NextUpstreamCondition list"
  tries :: u32
  policy_timeout :: "duration option"
  max_body_buffer_bytes :: u64

datatype HttpMethodClass = Idempotent | NotIdempotent

record ForwardTarget =
  url :: string
  weight :: u32
  backup :: bool
  max_fails :: u32
  fail_timeout :: duration
  server_id :: "string option"

record ForwardServer =
  srv_id :: string
  srv_weight :: u32
  srv_backup :: bool
  routes :: "ForwardTarget list"
  srv_max_fails :: u32
  srv_fail_timeout :: duration

datatype ProviderRouteRetry = RoutesOnly | AcrossServers

record ProviderPolicy =
  retry_scope :: ProviderRouteRetry

record ForwardPlan =
  group :: "string option"
  balance :: BalanceMethod
  next_upstream :: NextUpstreamPolicy
  candidates :: "ForwardTarget list"
  hash_key_value :: "string option"
  servers :: "ForwardServer list"
  provider_policy :: ProviderPolicy

datatype plan_error =
    HashRequiresKey
  | ConsistentHashRequiresKey
  | UnsupportedBalance string
  | OffIsNotACondition
  | UnsupportedCondition string
  | NoCandidates
  | CandidateEmptyUrl
  | CandidateZeroWeight string
  | HashKeyValueMissing
  | ServerEmptyId
  | ServerNoRoutes string
  | EncodeJson
  | DecodeBase64
  | DecodeJson

section \<open>Operations\<close>

text \<open>\<open>BalanceMethod::parse\<close>\<close>

definition balance_parse :: "string \<Rightarrow> (plan_error, BalanceMethod) result" where
  "balance_parse s =
     (if s = ''round_robin'' \<or> s = ''rr'' then Inr RoundRobin
      else if s = ''ip_hash'' then Inr IpHash
      else if s = ''least_time'' then Inr LeastTime
      else case strip_prefix ''hash:'' s of
        Some rest \<Rightarrow> if rest = [] then Inl HashRequiresKey else Inr (Hash rest)
      | None \<Rightarrow> (case strip_prefix ''consistent_hash:'' s of
          Some rest \<Rightarrow> if rest = [] then Inl ConsistentHashRequiresKey else Inr (ConsistentHash rest)
        | None \<Rightarrow> Inl (UnsupportedBalance s)))"

definition requires_tunnel_manager :: "BalanceMethod \<Rightarrow> bool" where
  "requires_tunnel_manager m = (m = LeastTime)"

text \<open>\<open>NextUpstreamCondition::parse\<close> and its two classifications\<close>

definition condition_parse :: "string \<Rightarrow> (plan_error, NextUpstreamCondition) result" where
  "condition_parse s =
     (if s = ''error'' then Inr Error
      else if s = ''timeout'' then Inr Timeout
      else if s = ''http_5xx'' then Inr Http5xx
      else if s = ''http_502'' then Inr Http502
      else if s = ''http_503'' then Inr Http503
      else if s = ''http_504'' then Inr Http504
      else if s = ''invalid_header'' then Inr InvalidHeader
      else if s = ''non_idempotent'' then Inr NonIdempotent
      else if s = ''off'' then Inl OffIsNotACondition
      else Inl (UnsupportedCondition s))"

fun is_connect_failure :: "NextUpstreamCondition \<Rightarrow> bool" where
  "is_connect_failure Error = True"
| "is_connect_failure Timeout = True"
| "is_connect_failure _ = False"

fun is_http_status :: "NextUpstreamCondition \<Rightarrow> bool" where
  "is_http_status Http5xx = True"
| "is_http_status Http502 = True"
| "is_http_status Http503 = True"
| "is_http_status Http504 = True"
| "is_http_status InvalidHeader = True"
| "is_http_status _ = False"

text \<open>\<open>NextUpstreamPolicy\<close>\<close>

definition policy_off :: NextUpstreamPolicy where
  "policy_off = \<lparr> conditions = [], tries = 1, policy_timeout = None, max_body_buffer_bytes = 0 \<rparr>"

definition is_enabled :: "NextUpstreamPolicy \<Rightarrow> bool" where
  "is_enabled p = (conditions p \<noteq> [] \<and> tries p > 1)"

definition allows :: "NextUpstreamPolicy \<Rightarrow> NextUpstreamCondition \<Rightarrow> bool" where
  "allows p cond =
     (if cond \<in> set (conditions p) then True
      else if Http5xx \<in> set (conditions p) \<and>
              (case cond of Http502 \<Rightarrow> True | Http503 \<Rightarrow> True | Http504 \<Rightarrow> True | _ \<Rightarrow> False)
      then True
      else False)"

definition any_http_status :: "NextUpstreamPolicy \<Rightarrow> bool" where
  "any_http_status p = list_ex is_http_status (conditions p)"

definition allow_non_idempotent :: "NextUpstreamPolicy \<Rightarrow> bool" where
  "allow_non_idempotent p = (NonIdempotent \<in> set (conditions p))"

definition matches_http_status :: "NextUpstreamPolicy \<Rightarrow> u16 \<Rightarrow> bool" where
  "matches_http_status p status =
     (if status = 502 \<and> allows p Http502 then True
      else if status = 503 \<and> allows p Http503 then True
      else if status = 504 \<and> allows p Http504 then True
      else if 500 \<le> status \<and> status \<le> 599 \<and> allows p Http5xx then True
      else False)"

definition parse_conditions ::
    "string \<Rightarrow> (plan_error, NextUpstreamCondition list \<times> bool) result" where
  "parse_conditions spec =
     (let trimmed = trim spec in
      if trimmed = [] then Inr ([], True)
      else if eq_ignore_ascii_case trimmed ''off'' then Inr ([], True)
      else and_then
             (mapM condition_parse
               (filter (\<lambda>part. part \<noteq> []) (map trim (split_on CHR '','' trimmed))))
             (\<lambda>out. Inr (out, False)))"

text \<open>\<open>HttpMethodClass\<close>\<close>

definition classify :: "string \<Rightarrow> HttpMethodClass" where
  "classify m =
     (if to_ascii_uppercase m \<in> {''GET'', ''HEAD'', ''PUT'', ''DELETE'', ''OPTIONS'', ''TRACE''}
      then Idempotent else NotIdempotent)"

definition is_idempotent :: "HttpMethodClass \<Rightarrow> bool" where
  "is_idempotent c = (c = Idempotent)"

text \<open>\<open>ForwardTarget\<close>\<close>

definition default_fail_timeout :: duration where
  "default_fail_timeout = from_millis DEFAULT_FAIL_TIMEOUT_MS"

definition target_new :: "string \<Rightarrow> ForwardTarget" where
  "target_new u =
     \<lparr> url = u, weight = 1, backup = False, max_fails = DEFAULT_MAX_FAILS,
       fail_timeout = default_fail_timeout, server_id = None \<rparr>"

definition with_weight :: "u32 \<Rightarrow> ForwardTarget \<Rightarrow> ForwardTarget" where
  "with_weight w t = t\<lparr> weight := w \<rparr>"

definition as_backup :: "ForwardTarget \<Rightarrow> ForwardTarget" where
  "as_backup t = t\<lparr> backup := True \<rparr>"

definition with_server_id :: "string \<Rightarrow> ForwardTarget \<Rightarrow> ForwardTarget" where
  "with_server_id sid t = t\<lparr> server_id := Some sid \<rparr>"

text \<open>\<open>ForwardPlan\<close>\<close>

definition single_url :: "string \<Rightarrow> ForwardPlan" where
  "single_url u =
     \<lparr> group = None, balance = RoundRobin, next_upstream = policy_off,
       candidates = [target_new u], hash_key_value = None, servers = [],
       provider_policy = \<lparr> retry_scope = RoutesOnly \<rparr> \<rparr>"

definition is_single_url :: "ForwardPlan \<Rightarrow> bool" where
  "is_single_url p =
     (length (candidates p) = 1 \<and> \<not> is_enabled (next_upstream p) \<and> \<not> backup (candidates p ! 0))"

fun check_candidates :: "ForwardTarget list \<Rightarrow> (plan_error, unit) result" where
  "check_candidates [] = Inr ()"
| "check_candidates (c # cs) =
     (if url c = [] then Inl CandidateEmptyUrl
      else if weight c = 0 then Inl (CandidateZeroWeight (url c))
      else check_candidates cs)"

fun check_servers :: "ForwardServer list \<Rightarrow> (plan_error, unit) result" where
  "check_servers [] = Inr ()"
| "check_servers (s # ss) =
     (if srv_id s = [] then Inl ServerEmptyId
      else if routes s = [] then Inl (ServerNoRoutes (srv_id s))
      else check_servers ss)"

definition check_hash_key :: "ForwardPlan \<Rightarrow> (plan_error, unit) result" where
  "check_hash_key p =
     (case balance p of
        Hash _ \<Rightarrow> if hash_key_value p = None then Inl HashKeyValueMissing else Inr ()
      | ConsistentHash _ \<Rightarrow> if hash_key_value p = None then Inl HashKeyValueMissing else Inr ()
      | _ \<Rightarrow> Inr ())"

definition validate :: "ForwardPlan \<Rightarrow> (plan_error, unit) result" where
  "validate p =
     (if candidates p = [] then Inl NoCandidates
      else and_then (check_candidates (candidates p)) (\<lambda>_.
           and_then (check_hash_key p) (\<lambda>_.
           check_servers (servers p))))"

text \<open>\<open>duration_ms\<close> and \<open>duration_ms_opt\<close>: \<open>as_millis() as u64\<close> on the way out, \<open>from_millis\<close> on
the way in.\<close>

definition duration_ms :: "duration \<Rightarrow> duration" where
  "duration_ms d = from_millis (as_millis d mod 2 ^ 64)"

definition wire_target :: "ForwardTarget \<Rightarrow> ForwardTarget" where
  "wire_target t = t\<lparr> fail_timeout := duration_ms (fail_timeout t) \<rparr>"

definition wire_server :: "ForwardServer \<Rightarrow> ForwardServer" where
  "wire_server s =
     s\<lparr> routes := map wire_target (routes s), srv_fail_timeout := duration_ms (srv_fail_timeout s) \<rparr>"

definition wire_policy :: "NextUpstreamPolicy \<Rightarrow> NextUpstreamPolicy" where
  "wire_policy q = q\<lparr> policy_timeout := map_option duration_ms (policy_timeout q) \<rparr>"

definition wire_plan :: "ForwardPlan \<Rightarrow> ForwardPlan" where
  "wire_plan p =
     p\<lparr> next_upstream := wire_policy (next_upstream p),
        candidates := map wire_target (candidates p),
        servers := map wire_server (servers p) \<rparr>"

definition encode ::
    "(ForwardPlan \<Rightarrow> string option) \<Rightarrow> (string \<Rightarrow> string) \<Rightarrow> ForwardPlan \<Rightarrow>
     (plan_error, string) result" where
  "encode to_json b64_encode p =
     (case to_json (wire_plan p) of None \<Rightarrow> Inl EncodeJson | Some js \<Rightarrow> Inr (b64_encode js))"

definition decode ::
    "(string \<Rightarrow> string option) \<Rightarrow> (string \<Rightarrow> ForwardPlan option) \<Rightarrow> string \<Rightarrow>
     (plan_error, ForwardPlan) result" where
  "decode b64_decode from_json s =
     (case b64_decode s of
        None \<Rightarrow> Inl DecodeBase64
      | Some bytes \<Rightarrow> (case from_json bytes of
          None \<Rightarrow> Inl DecodeJson
        | Some p \<Rightarrow> and_then (validate p) (\<lambda>_. Inr p)))"

definition failure_state_key :: "(string \<Rightarrow> u64) \<Rightarrow> ForwardPlan \<Rightarrow> string" where
  "failure_state_key H p =
     (case group p of
        Some name \<Rightarrow> ''named:'' @ name
      | None \<Rightarrow> ''auto:'' @ hex_digits 16 (unat (H (join ''|'' (sort (map url (candidates p)))))))"

definition server_route_target :: "ForwardServer \<Rightarrow> ForwardTarget \<Rightarrow> ForwardTarget" where
  "server_route_target s r =
     \<lparr> url = url r,
       weight = (if weight r = 0 then srv_weight s else weight r),
       backup = (srv_backup s \<or> backup r),
       max_fails = max_fails r,
       fail_timeout = fail_timeout r,
       server_id = Some (srv_id s) \<rparr>"

definition candidates_from_servers :: "ForwardServer list \<Rightarrow> ForwardTarget list" where
  "candidates_from_servers ss = concat (map (\<lambda>s. map (server_route_target s) (routes s)) ss)"

section \<open>Validation\<close>

lemma check_candidates_ok_iff:
  "check_candidates cs = Inr () \<longleftrightarrow> (\<forall>c \<in> set cs. url c \<noteq> [] \<and> weight c \<noteq> 0)"
  by (induction cs) auto

lemma check_servers_ok_iff:
  "check_servers ss = Inr () \<longleftrightarrow> (\<forall>s \<in> set ss. srv_id s \<noteq> [] \<and> routes s \<noteq> [])"
  by (induction ss) auto

definition needs_hash_key :: "BalanceMethod \<Rightarrow> bool" where
  "needs_hash_key m = (case m of Hash _ \<Rightarrow> True | ConsistentHash _ \<Rightarrow> True | _ \<Rightarrow> False)"

lemma check_hash_key_ok_iff:
  "check_hash_key p = Inr () \<longleftrightarrow> (needs_hash_key (balance p) \<longrightarrow> hash_key_value p \<noteq> None)"
  by (auto simp: check_hash_key_def needs_hash_key_def split: BalanceMethod.splits)

lemma validate_ok_iff:
  "validate p = Inr () \<longleftrightarrow>
     candidates p \<noteq> [] \<and>
     (\<forall>c \<in> set (candidates p). url c \<noteq> [] \<and> weight c \<noteq> 0) \<and>
     (needs_hash_key (balance p) \<longrightarrow> hash_key_value p \<noteq> None) \<and>
     (\<forall>s \<in> set (servers p). srv_id s \<noteq> [] \<and> routes s \<noteq> [])"
  by (auto simp: validate_def and_then_Inr_iff check_candidates_ok_iff check_servers_ok_iff
      check_hash_key_ok_iff)

lemma validate_ok_or_error: "validate p = Inr () \<or> (\<exists>e. validate p = Inl e)"
  by (cases "validate p") auto

section \<open>Retry policy\<close>

lemma allows_iff:
  "allows p cond \<longleftrightarrow>
     cond \<in> set (conditions p) \<or>
     Http5xx \<in> set (conditions p) \<and> cond \<in> {Http502, Http503, Http504}"
  by (cases cond) (auto simp: allows_def)

lemma policy_off_disabled [simp]: "\<not> is_enabled policy_off"
  by (simp add: is_enabled_def policy_off_def)

lemma matches_http_status_iff:
  "matches_http_status p status \<longleftrightarrow>
     Http5xx \<in> set (conditions p) \<and> 500 \<le> status \<and> status \<le> 599 \<or>
     Http502 \<in> set (conditions p) \<and> status = 502 \<or>
     Http503 \<in> set (conditions p) \<and> status = 503 \<or>
     Http504 \<in> set (conditions p) \<and> status = 504"
  by (auto simp: matches_http_status_def allows_iff)

section \<open>Condition lists\<close>

text \<open>The configuration keyword of a condition; \<open>condition_parse\<close> reads it back.\<close>

fun condition_keyword :: "NextUpstreamCondition \<Rightarrow> string" where
  "condition_keyword Error = ''error''"
| "condition_keyword Timeout = ''timeout''"
| "condition_keyword Http5xx = ''http_5xx''"
| "condition_keyword Http502 = ''http_502''"
| "condition_keyword Http503 = ''http_503''"
| "condition_keyword Http504 = ''http_504''"
| "condition_keyword InvalidHeader = ''invalid_header''"
| "condition_keyword NonIdempotent = ''non_idempotent''"

lemma condition_parse_keyword [simp]: "condition_parse (condition_keyword c) = Inr c"
  by (cases c) (simp_all add: condition_parse_def)

lemma condition_keyword_props:
  "condition_keyword c \<noteq> []" "CHR '','' \<notin> set (condition_keyword c)"
  "trim (condition_keyword c) = condition_keyword c"
  "\<not> is_whitespace (hd (condition_keyword c))" "\<not> is_whitespace (last (condition_keyword c))"
  "3 < length (condition_keyword c)"
  by (cases c; simp add: trim_def trim_start_def trim_end_def is_whitespace_def)+

lemma parse_conditions_keywords:
  assumes "cs \<noteq> []"
  shows "parse_conditions (join '','' (map condition_keyword cs)) = Inr (cs, False)"
proof -
  let ?ks = "map condition_keyword cs"
  let ?s = "join '','' ?ks"
  obtain c cs' where cs: "cs = c # cs'" using assms by (cases cs) auto
  have "hd ?s = hd (condition_keyword c)"
    using cs by (simp add: hd_join condition_keyword_props)
  moreover have "last ?s = last (condition_keyword (last cs))"
    using assms by (simp add: last_join last_map condition_keyword_props)
  ultimately have trim: "trim ?s = ?s"
    by (intro trim_id) (simp add: condition_keyword_props)
  have "3 < length ?s"
    using length_join_ge [of ?ks "'',''"] condition_keyword_props(6) [of c] cs by simp
  then have "?s \<noteq> [] \<and> \<not> eq_ignore_ascii_case ?s ''off''"
    by (auto simp: eq_ignore_ascii_case_def to_ascii_lowercase_def dest: arg_cong [of _ _ length])
  moreover have "split_on CHR '','' ?s = ?ks"
    using assms condition_keyword_props(2) by (intro split_on_join) auto
  moreover have "mapM condition_parse ?ks = Inr cs"
    by (induction cs) auto
  moreover have "filter (\<lambda>part. part \<noteq> []) (map trim ?ks) = ?ks"
    by (auto simp: filter_id_conv condition_keyword_props comp_def)
  ultimately show ?thesis
    by (simp add: parse_conditions_def trim Let_def)
qed

section \<open>Transport encoding\<close>

lemma validate_wire_plan [simp]: "validate (wire_plan p) = validate p"
proof -
  have "check_candidates (map wire_target cs) = check_candidates cs" for cs
    by (induction cs) (auto simp: wire_target_def)
  moreover have "check_servers (map wire_server ss) = check_servers ss" for ss
    by (induction ss) (auto simp: wire_server_def)
  moreover have "check_hash_key (wire_plan p) = check_hash_key p"
    unfolding check_hash_key_def by (simp add: wire_plan_def split: BalanceMethod.split)
  ultimately show ?thesis
    by (simp add: validate_def) (simp add: wire_plan_def)
qed

lemma duration_ms_idem [simp]: "duration_ms (duration_ms d) = duration_ms d"
  by (simp add: duration_ms_def)

text \<open>All durations a plan carries.\<close>

definition target_durations :: "ForwardTarget list \<Rightarrow> duration set" where
  "target_durations ts = fail_timeout ` set ts"

definition plan_durations :: "ForwardPlan \<Rightarrow> duration set" where
  "plan_durations p =
     set_option (policy_timeout (next_upstream p)) \<union> target_durations (candidates p) \<union>
     srv_fail_timeout ` set (servers p) \<union> (\<Union>s \<in> set (servers p). target_durations (routes s))"

lemma duration_ms_id: "\<exists>n < 2 ^ 64. d = from_millis n \<Longrightarrow> duration_ms d = d"
  by (auto simp: duration_ms_def)

lemma wire_plan_id:
  assumes "\<forall>d \<in> plan_durations p. \<exists>n < 2 ^ 64. d = from_millis n"
  shows "wire_plan p = p"
proof -
  have id: "duration_ms d = d" if "d \<in> plan_durations p" for d
    using assms that duration_ms_id by blast
  have targets: "map wire_target ts = ts" if "target_durations ts \<subseteq> plan_durations p" for ts
    using that by (intro map_idI) (auto simp: wire_target_def target_durations_def id)
  have "wire_server s = s" if "s \<in> set (servers p)" for s
  proof -
    have "target_durations (routes s) \<subseteq> plan_durations p" "srv_fail_timeout s \<in> plan_durations p"
      using that by (auto simp: plan_durations_def)
    then show ?thesis by (simp add: wire_server_def targets id)
  qed
  then have "map wire_server (servers p) = servers p" by (simp add: map_idI)
  moreover note targets
  moreover have "wire_policy (next_upstream p) = next_upstream p"
    using id by (cases "policy_timeout (next_upstream p)") (auto simp: wire_policy_def plan_durations_def)
  moreover have "target_durations (candidates p) \<subseteq> plan_durations p"
    by (auto simp: plan_durations_def)
  ultimately show ?thesis by (simp add: wire_plan_def)
qed

section \<open>Failure-state key\<close>

lemma failure_state_key_mset:
  assumes "group p = group q" "mset (map url (candidates p)) = mset (map url (candidates q))"
  shows "failure_state_key H p = failure_state_key H q"
proof -
  have "sort (map url (candidates p)) = sort (map url (candidates q))"
    by (intro properties_for_sort) (simp_all add: assms(2) [symmetric] del: mset_map)
  then show ?thesis
    using assms(1) by (simp add: failure_state_key_def split: option.split)
qed

section \<open>Provider servers\<close>

lemma candidates_from_servers_server_id:
  "t \<in> set (candidates_from_servers ss) \<Longrightarrow> \<exists>s \<in> set ss. server_id t = Some (srv_id s)"
  by (auto simp: candidates_from_servers_def server_route_target_def)

lemma candidates_from_servers_ok:
  assumes "\<forall>s \<in> set ss. \<forall>r \<in> set (routes s). url r \<noteq> [] \<and> (weight r \<noteq> 0 \<or> srv_weight s \<noteq> 0)"
  shows "check_candidates (candidates_from_servers ss) = Inr ()"
  using assms
  by (auto simp: check_candidates_ok_iff candidates_from_servers_def server_route_target_def)

section \<open>Properties\<close>


text \<open>C31. Decoding never yields an unusable plan: whatever the base64 and JSON layers deliver, an
accepted plan has a candidate, every candidate has a URL and a positive weight, a hash balance has
its key value, and every server has an id and a route.\<close>

theorem decode_yields_valid_plan:
  assumes "decode b64_decode from_json s = Inr p"
  shows "candidates p \<noteq> [] \<and>
     (\<forall>c \<in> set (candidates p). url c \<noteq> [] \<and> weight c \<noteq> 0) \<and>
     (needs_hash_key (balance p) \<longrightarrow> hash_key_value p \<noteq> None) \<and>
     (\<forall>s \<in> set (servers p). srv_id s \<noteq> [] \<and> routes s \<noteq> [])"
  using assms unfolding validate_ok_iff [symmetric]
  by (auto simp: decode_def and_then_Inr_iff split: option.splits)

theorem decode_yields_valid_plan_witness:
  "candidates (single_url ''u'') \<noteq> [] \<and> weight (hd (candidates (single_url ''u''))) \<noteq> 0"
  using decode_yields_valid_plan [of Some "\<lambda>_. Some (single_url ''u'')" "''x''" "single_url ''u''"]
  by (simp add: decode_def validate_def single_url_def target_new_def check_hash_key_def)


text \<open>The failure-state key of an unnamed group depends only on the multiset of candidate URLs:
plans that list the same URLs in another order share their failure state.\<close>

theorem failure_state_key_order_independent:
  assumes "group p = None" "group q = None" "mset (map url (candidates p)) = mset (map url (candidates q))"
  shows "failure_state_key H p = failure_state_key H q"
  using assms by (intro failure_state_key_mset) simp_all

theorem failure_state_key_order_independent_witness:
  "failure_state_key (\<lambda>s. of_nat (length s)) ((single_url ''u'')\<lparr> candidates := [target_new ''b'', target_new ''ab''] \<rparr>)
   = failure_state_key (\<lambda>s. of_nat (length s)) ((single_url ''u'')\<lparr> candidates := [target_new ''ab'', target_new ''b''] \<rparr>)"
  by (rule failure_state_key_order_independent) (simp_all add: single_url_def target_new_def)

text \<open>The condition list round-trips: the comma-separated keywords of any non-empty list of
conditions parse back to exactly that list, and are not taken for \<open>off\<close>.\<close>

theorem parse_conditions_roundtrip:
  assumes "cs \<noteq> []"
  shows "parse_conditions (join '','' (map condition_keyword cs)) = Inr (cs, False)"
  using assms by (rule parse_conditions_keywords)

theorem parse_conditions_roundtrip_witness:
  "parse_conditions ''error,http_502'' = Inr ([Error, Http502], False)"
  using parse_conditions_roundtrip [of "[Error, Http502]"] by simp

text \<open>Which responses trigger a retry: a status matches the policy exactly when it is a 5xx and
\<open>http_5xx\<close> is listed, or it is 502, 503 or 504 and that very condition is listed.\<close>

theorem matches_http_status_exact:
  "matches_http_status p status \<longleftrightarrow>
     Http5xx \<in> set (conditions p) \<and> 500 \<le> status \<and> status \<le> 599 \<or>
     Http502 \<in> set (conditions p) \<and> status = 502 \<or>
     Http503 \<in> set (conditions p) \<and> status = 503 \<or>
     Http504 \<in> set (conditions p) \<and> status = 504"
  by (rule matches_http_status_iff)

end
