(* ===== verification/Fwd_Failure.thy ===== *)
theory Fwd_Failure
  imports Fwd_Plan
begin

text \<open>The passive health state of forward candidates (\<open>forward/failure_state.rs\<close>): the registry
counts connect failures per (group, candidate) and ejects a candidate for \<open>fail_timeout\<close> once
\<open>max_fails\<close> is reached. The clock reading that \<open>record_failure\<close> takes under its lock is an argument.

The locale \<open>failure_registry\<close> is the contract the selector and the executors rely on; it is
interpreted on the definitions below.\<close>

section \<open>State and operations\<close>

record CandidateState =
  fail_count :: u32
  last_failure_at :: "instant option"
  ejected_until :: "instant option"

definition candidate_default :: CandidateState where
  "candidate_default = \<lparr> fail_count = 0, last_failure_at = None, ejected_until = None \<rparr>"

definition state_is_ejected :: "CandidateState \<Rightarrow> instant \<Rightarrow> bool" where
  "state_is_ejected st now = (case ejected_until st of Some deadline \<Rightarrow> now < deadline | None \<Rightarrow> False)"

type_synonym ForwardFailureRegistry = "string \<rightharpoonup> CandidateState"

definition make_key :: "string \<Rightarrow> string \<Rightarrow> string" where
  "make_key group_key candidate_url = group_key @ ''|'' @ candidate_url"

definition snapshot :: "ForwardFailureRegistry \<Rightarrow> string \<Rightarrow> string \<Rightarrow> CandidateState" where
  "snapshot reg g u = (case reg (make_key g u) of Some st \<Rightarrow> st | None \<Rightarrow> candidate_default)"

definition is_ejected :: "ForwardFailureRegistry \<Rightarrow> string \<Rightarrow> string \<Rightarrow> instant \<Rightarrow> bool" where
  "is_ejected reg g u now = state_is_ejected (snapshot reg g u) now"

definition record_success ::
    "ForwardFailureRegistry \<Rightarrow> string \<Rightarrow> string \<Rightarrow> ForwardFailureRegistry" where
  "record_success reg g u = reg(make_key g u := None)"

text \<open>\<open>u32::saturating_add(1)\<close>\<close>

definition saturating_inc :: "u32 \<Rightarrow> u32" where
  "saturating_inc n = (if n = - 1 then n else n + 1)"

definition fail_update :: "u32 \<Rightarrow> duration \<Rightarrow> instant \<Rightarrow> CandidateState \<Rightarrow> CandidateState" where
  "fail_update mf ft now entry =
     (let entry = (case ejected_until entry of
            Some deadline \<Rightarrow>
              if now \<ge> deadline then entry\<lparr> fail_count := 0, ejected_until := None \<rparr> else entry
          | None \<Rightarrow> entry);
          entry = entry\<lparr> fail_count := saturating_inc (fail_count entry) \<rparr>;
          entry = entry\<lparr> last_failure_at := Some now \<rparr>;
          threshold = max mf 1
      in if fail_count entry \<ge> threshold then entry\<lparr> ejected_until := Some (now + ft) \<rparr> else entry)"

definition record_failure ::
    "ForwardFailureRegistry \<Rightarrow> string \<Rightarrow> string \<Rightarrow> u32 \<Rightarrow> duration \<Rightarrow> instant \<Rightarrow>
     ForwardFailureRegistry" where
  "record_failure reg g u mf ft now = reg(make_key g u \<mapsto> fail_update mf ft now (snapshot reg g u))"

section \<open>Counting\<close>

lemma unat_saturating_inc: "unat (saturating_inc n) = min (unat n + 1) (2 ^ 32 - 1)"
proof (cases "n = - 1")
  case True
  then show ?thesis by (simp add: saturating_inc_def unsigned_minus_1_eq_mask mask_eq_exp_minus_1)
next
  case False
  then have "unat (n + 1) = unat n + 1"
    by (metis Suc_eq_plus1 add.commute eq_neg_iff_add_eq_0 unatSuc)
  moreover have "unat (n + 1) < 2 ^ 32"
    using unat_u32_less [of "n + 1"] by simp
  ultimately show ?thesis
    using False by (simp add: saturating_inc_def)
qed

lemma snapshot_record_failure [simp]:
  "snapshot (record_failure reg g u mf ft now) g u = fail_update mf ft now (snapshot reg g u)"
  by (simp add: snapshot_def record_failure_def)

lemma snapshot_record_success [simp]: "snapshot (record_success reg g u) g u = candidate_default"
  by (simp add: snapshot_def record_success_def)

lemma make_key_same_group [simp]: "make_key g u = make_key g v \<longleftrightarrow> u = v"
  by (simp add: make_key_def)

lemma make_key_inject_no_bar:
  assumes "CHR ''|'' \<notin> set g" "CHR ''|'' \<notin> set h"
  shows "make_key g u = make_key h v \<longleftrightarrow> g = h \<and> u = v"
proof
  assume eq: "make_key g u = make_key h v"
  have "takeWhile (\<lambda>c. c \<noteq> CHR ''|'') (make_key k w) = k" if "CHR ''|'' \<notin> set k" for k w
    using that by (auto simp: make_key_def takeWhile_append)
  with eq assms have "g = h" by metis
  with eq show "g = h \<and> u = v" by simp
qed simp

lemma snapshot_frame:
  assumes "make_key g u \<noteq> make_key h v"
  shows "snapshot (record_failure reg g u mf ft now) h v = snapshot reg h v"
        "snapshot (record_success reg g u) h v = snapshot reg h v"
  using assms by (simp_all add: snapshot_def record_failure_def record_success_def)

section \<open>Ejection\<close>

lemma fail_update_not_expired:
  assumes "\<forall>d. ejected_until st = Some d \<longrightarrow> now < d"
  shows "fail_count (fail_update mf ft now st) = saturating_inc (fail_count st)"
        "ejected_until (fail_update mf ft now st) =
           (if max mf 1 \<le> saturating_inc (fail_count st) then Some (now + ft) else ejected_until st)"
  using assms by (auto simp: fail_update_def Let_def not_le split: option.splits)

lemma fail_update_expired:
  assumes "ejected_until st = Some d" "d \<le> now"
  shows "fail_count (fail_update mf ft now st) = 1"
        "ejected_until (fail_update mf ft now st) = (if mf \<le> 1 then Some (now + ft) else None)"
  using assms
  by (auto simp: fail_update_def Let_def saturating_inc_def max_def not_le)

lemma max_u32_one_nat: "unat (max mf 1 :: u32) = max (unat mf) 1"
  by (auto simp: max_def word_le_nat_alt)

text \<open>A run of failures of one candidate at the times \<open>ts\<close>, all under the same limits.\<close>

definition fail_run :: "u32 \<Rightarrow> duration \<Rightarrow> string \<Rightarrow> string \<Rightarrow> instant list \<Rightarrow>
    ForwardFailureRegistry \<Rightarrow> ForwardFailureRegistry" where
  "fail_run mf ft g u ts reg = fold (\<lambda>t r. record_failure r g u mf ft t) ts reg"

lemma fail_run_below_threshold:
  assumes "length ts < max (unat mf) 1"
  shows "unat (fail_count (snapshot (fail_run mf ft g u ts (record_success reg g u)) g u)) = length ts
       \<and> ejected_until (snapshot (fail_run mf ft g u ts (record_success reg g u)) g u) = None"
  using assms
proof (induction ts rule: rev_induct)
  case Nil
  then show ?case by (simp add: fail_run_def candidate_default_def)
next
  case (snoc t ts)
  let ?st = "snapshot (fail_run mf ft g u ts (record_success reg g u)) g u"
  have run: "snapshot (fail_run mf ft g u (ts @ [t]) (record_success reg g u)) g u
           = fail_update mf ft t ?st"
    by (simp add: fail_run_def)
  have IH: "unat (fail_count ?st) = length ts" "ejected_until ?st = None"
    using snoc by auto
  have lt: "length ts + 1 < 2 ^ 32"
    using snoc.prems unat_u32_less [of mf] by (auto simp: max_def split: if_splits)
  then have inc: "unat (saturating_inc (fail_count ?st)) = length ts + 1"
    by (simp add: unat_saturating_inc IH)
  then have "\<not> max mf 1 \<le> saturating_inc (fail_count ?st)"
    using snoc.prems by (simp add: word_le_nat_alt max_u32_one_nat)
  then show ?case
    unfolding run using inc IH(2) by (simp add: fail_update_not_expired [where st = ?st] del: max.bounded_iff max_less_iff_conj)
qed

lemma fail_run_at_threshold:
  assumes "length ts + 1 = max (unat mf) 1"
  shows "ejected_until (snapshot (fail_run mf ft g u (ts @ [t]) (record_success reg g u)) g u)
       = Some (t + ft)"
proof -
  let ?st = "snapshot (fail_run mf ft g u ts (record_success reg g u)) g u"
  have run: "snapshot (fail_run mf ft g u (ts @ [t]) (record_success reg g u)) g u
           = fail_update mf ft t ?st"
    by (simp add: fail_run_def)
  have IH: "unat (fail_count ?st) = length ts" "ejected_until ?st = None"
    using fail_run_below_threshold [of ts mf] assms by auto
  have "length ts + 1 < 2 ^ 32"
    using assms unat_u32_less [of mf] by (auto simp: max_def split: if_splits)
  then have "max mf 1 \<le> saturating_inc (fail_count ?st)"
    using assms by (simp add: word_le_nat_alt max_u32_one_nat unat_saturating_inc IH)
  then show ?thesis
    unfolding run using IH(2) by (subst fail_update_not_expired) simp_all
qed

section \<open>The registry contract\<close>

text \<open>What a client of the registry relies on, for one group of candidates: a success clears the
candidate, a failure under a limit of at most one ejects it for the whole timeout, and neither
touches the other candidates of the group.\<close>

locale failure_registry =
  fixes ejected :: "'r \<Rightarrow> string \<Rightarrow> string \<Rightarrow> instant \<Rightarrow> bool"
    and on_success :: "'r \<Rightarrow> string \<Rightarrow> string \<Rightarrow> 'r"
    and on_failure :: "'r \<Rightarrow> string \<Rightarrow> string \<Rightarrow> u32 \<Rightarrow> duration \<Rightarrow> instant \<Rightarrow> 'r"
  assumes success_clears: "\<not> ejected (on_success r g u) g u now"
    and success_frame: "u \<noteq> v \<Longrightarrow> ejected (on_success r g u) g v now = ejected r g v now"
    and failure_frame: "u \<noteq> v \<Longrightarrow> ejected (on_failure r g u mf ft t) g v now = ejected r g v now"
    and failure_ejects: "mf \<le> 1 \<Longrightarrow> now < t + ft \<Longrightarrow> ejected (on_failure r g u mf ft t) g u now"
begin

lemma failures_frame:
  assumes "v \<notin> fst ` set log"
  shows "ejected (fold (\<lambda>(u, mf, ft, t) r. on_failure r g u mf ft t) log r) g v now
       = ejected r g v now"
  using assms by (induction log arbitrary: r) (auto simp: failure_frame)

lemma failures_then_success:
  assumes "u \<notin> fst ` set log" "v \<noteq> u" "v \<notin> fst ` set log"
  shows "\<not> ejected (on_success (fold (\<lambda>(u, mf, ft, t) r. on_failure r g u mf ft t) log r) g u) g u now"
    and "ejected (on_success (fold (\<lambda>(u, mf, ft, t) r. on_failure r g u mf ft t) log r) g u) g v now
       = ejected r g v now"
  using assms by (auto simp: success_clears success_frame failures_frame)

end

interpretation reg: failure_registry is_ejected record_success record_failure
proof
  show "\<not> is_ejected (record_success r g u) g u now" for r g u now
    by (simp add: is_ejected_def state_is_ejected_def candidate_default_def)
  show "is_ejected (record_success r g u) g v now = is_ejected r g v now" if "u \<noteq> v" for u v r g now
    using that by (simp add: is_ejected_def snapshot_frame)
  show "is_ejected (record_failure r g u mf ft t) g v now = is_ejected r g v now"
    if "u \<noteq> v" for u v r g mf ft t now
    using that by (simp add: is_ejected_def snapshot_frame)
  show "is_ejected (record_failure r g u mf ft t) g u now"
    if "mf \<le> 1" "now < t + ft" for mf now t ft r g u
  proof -
    have "1 \<le> saturating_inc n" for n
      by (simp add: word_le_nat_alt unat_saturating_inc)
    moreover have "max mf 1 = 1" using that(1) by (simp add: max_def)
    ultimately have "ejected_until (fail_update mf ft t st) = Some (t + ft)" for st
      by (auto simp: fail_update_def Let_def split: option.splits)
    then show ?thesis
      using that(2) by (simp add: is_ejected_def state_is_ejected_def)
  qed
qed

section \<open>Properties\<close>

text \<open>C15. Ejection happens exactly at the limit: after a success, a run of failures shorter than
\<open>max(max_fails, 1)\<close> leaves the candidate in rotation at every time, and the failure that reaches the
limit, at time \<open>t\<close>, ejects it for the times before \<open>t + fail_timeout\<close> and no longer.\<close>

theorem ejected_exactly_at_max_fails:
  assumes "length ts + 1 = max (unat mf) 1"
  shows "(\<forall>k \<le> length ts. \<forall>now.
            \<not> is_ejected (fail_run mf ft g u (take k ts) (record_success reg g u)) g u now) \<and>
         (\<forall>now. is_ejected (fail_run mf ft g u (ts @ [t]) (record_success reg g u)) g u now
            \<longleftrightarrow> now < t + ft)"
proof (intro conjI allI impI)
  fix k now
  assume "k \<le> length ts"
  then have "length (take k ts) < max (unat mf) 1" using assms by simp
  then show "\<not> is_ejected (fail_run mf ft g u (take k ts) (record_success reg g u)) g u now"
    using fail_run_below_threshold by (simp add: is_ejected_def state_is_ejected_def)
next
  fix now
  show "is_ejected (fail_run mf ft g u (ts @ [t]) (record_success reg g u)) g u now \<longleftrightarrow> now < t + ft"
    using fail_run_at_threshold [OF assms] by (simp add: is_ejected_def state_is_ejected_def)
qed

theorem ejected_exactly_at_max_fails_witness:
  "\<not> is_ejected (fail_run 2 5 ''g'' ''u'' [10] (record_success Map.empty ''g'' ''u'')) ''g'' ''u'' 11 \<and>
   is_ejected (fail_run 2 5 ''g'' ''u'' [10, 12] (record_success Map.empty ''g'' ''u'')) ''g'' ''u'' 16 \<and>
   \<not> is_ejected (fail_run 2 5 ''g'' ''u'' [10, 12] (record_success Map.empty ''g'' ''u'')) ''g'' ''u'' 17"
  using ejected_exactly_at_max_fails [of "[10]" 2 5 "''g''" "''u''" Map.empty 12] by auto

text \<open>An expired ejection starts a new count: the first failure after the window counts as one,
so with \<open>max_fails\<close> above one the candidate stays in rotation, and with at most one it is ejected
again from that failure on.\<close>

theorem expired_ejection_restarts_count:
  assumes "ejected_until (snapshot reg g u) = Some d" "d \<le> t"
  shows "fail_count (snapshot (record_failure reg g u mf ft t) g u) = 1 \<and>
         (\<forall>now. is_ejected (record_failure reg g u mf ft t) g u now \<longleftrightarrow> mf \<le> 1 \<and> now < t + ft)"
  using fail_update_expired [OF assms] by (auto simp: is_ejected_def state_is_ejected_def)

theorem expired_ejection_restarts_count_witness:
  "\<not> is_ejected (record_failure (record_failure Map.empty ''g'' ''u'' 1 5 10) ''g'' ''u'' 2 5 15) ''g'' ''u'' 16"
proof -
  have "ejected_until (snapshot (record_failure Map.empty ''g'' ''u'' 1 5 10) ''g'' ''u'') = Some 15"
    by (simp add: record_failure_def fail_update_def snapshot_def candidate_default_def
        saturating_inc_def)
  then show ?thesis
    using expired_ejection_restarts_count [of "record_failure Map.empty ''g'' ''u'' 1 5 10" "''g''" "''u''" 15 15 2 5]
    by (simp add: word_le_nat_alt)
qed

end
