(* ===== verification/Fwd_Select.thy ===== *)
theory Fwd_Select
  imports Fwd_Failure
begin

text \<open>The candidate selector (\<open>forward/selector.rs\<close>) and the RTT reordering in front of it
(\<open>forward/least_time.rs\<close>). A selection is a function of the plan, the failure registry, the
clock reading, the client address and the value of the shared round-robin counter; it returns the
attempt order and the new counter. \<open>usize\<close> is 64 bits: sums wrap at \<open>2 ^ 64\<close> where the code uses a
plain sum and saturate where it uses \<open>saturating_add\<close>. The algorithm of \<open>DefaultHasher\<close> is the
argument \<open>H\<close>.\<close>

section \<open>Definitions\<close>

abbreviation usize_max :: nat where "usize_max \<equiv> 2 ^ 64 - 1"

definition total_weight :: "ForwardTarget list \<Rightarrow> nat" where
  "total_weight ts = sum_list (map (\<lambda>t. unat (weight t)) ts) mod 2 ^ 64"

fun prefix_find :: "nat \<Rightarrow> nat \<Rightarrow> nat \<Rightarrow> ForwardTarget list \<Rightarrow> nat option" where
  "prefix_find cursor acc i [] = None"
| "prefix_find cursor acc i (t # ts) =
     (let acc = min (acc + unat (weight t)) usize_max in
      if cursor < acc then Some i else prefix_find cursor acc (Suc i) ts)"

definition pick_weighted_round_robin :: "ForwardTarget list \<Rightarrow> u64 \<Rightarrow> nat option \<times> u64" where
  "pick_weighted_round_robin ts ctr =
     (if ts = [] then (None, ctr)
      else let total = total_weight ts in
        if total = 0 then (Some 0, ctr)
        else let cursor = unat ctr mod total in
          (case prefix_find cursor 0 0 ts of Some i \<Rightarrow> (Some i, ctr + 1) | None \<Rightarrow> (Some 0, ctr + 1)))"

definition nginx_ip_hash_key :: "IpAddr \<Rightarrow> u8 list" where
  "nginx_ip_hash_key ip = (case ip of V4 a b c d \<Rightarrow> [a, b, c] | V6 octets \<Rightarrow> octets)"

definition nginx_ip_hash :: "IpAddr \<Rightarrow> nat" where
  "nginx_ip_hash ip = fold (\<lambda>b hash. (hash * 113 + unat b) mod 6271) (nginx_ip_hash_key ip) 89"

fun cursor_find :: "nat \<Rightarrow> nat \<Rightarrow> ForwardTarget list \<Rightarrow> nat option" where
  "cursor_find cursor i [] = None"
| "cursor_find cursor i (t # ts) =
     (let w = unat (weight t) in
      if cursor < w then Some i else cursor_find (cursor - w) (Suc i) ts)"

definition pick_ip_hash :: "ForwardTarget list \<Rightarrow> IpAddr option \<Rightarrow> nat option" where
  "pick_ip_hash ts ip =
     (case ip of
        None \<Rightarrow> None
      | Some ip \<Rightarrow>
         (let total = total_weight ts in
          if total = 0 then Some 0
          else case cursor_find (nginx_ip_hash ip mod total) 0 ts of Some i \<Rightarrow> Some i | None \<Rightarrow> Some 0))"

definition pick_hash :: "(string \<Rightarrow> u64) \<Rightarrow> ForwardTarget list \<Rightarrow> string \<Rightarrow> nat option" where
  "pick_hash H ts key =
     (if ts = [] then None
      else let total = total_weight ts in
        if total = 0 then Some 0
        else case cursor_find (unat (H key) mod total) 0 ts of Some i \<Rightarrow> Some i | None \<Rightarrow> Some 0)"

definition VNODE_FACTOR :: nat where "VNODE_FACTOR = 40"

definition ring_id :: "ForwardTarget \<Rightarrow> string" where
  "ring_id t = (case server_id t of Some sid \<Rightarrow> sid | None \<Rightarrow> url t)"

text \<open>\<open>t.weight.max(1).saturating_mul(VNODE_FACTOR)\<close> in \<open>u32\<close>\<close>

definition vnode_count :: "ForwardTarget \<Rightarrow> nat" where
  "vnode_count t = min (max (unat (weight t)) 1 * VNODE_FACTOR) (2 ^ 32 - 1)"

definition vnode_hashes :: "(string \<Rightarrow> u64) \<Rightarrow> ForwardTarget \<Rightarrow> u64 list" where
  "vnode_hashes H t =
     map (\<lambda>j. H (ring_id t @ ''#'' @ nat_to_string j)) [0..<vnode_count t]"

definition build_ring :: "(string \<Rightarrow> u64) \<Rightarrow> ForwardTarget list \<Rightarrow> (u64 \<times> nat) list" where
  "build_ring H ts = concat (map (\<lambda>(i, t). map (\<lambda>h. (h, i)) (vnode_hashes H t)) (enumerate 0 ts))"

definition partition_point :: "('a \<Rightarrow> bool) \<Rightarrow> 'a list \<Rightarrow> nat" where
  "partition_point P xs = length (takeWhile P xs)"

definition pick_consistent_hash :: "(string \<Rightarrow> u64) \<Rightarrow> ForwardTarget list \<Rightarrow> string \<Rightarrow> nat option" where
  "pick_consistent_hash H ts key =
     (if ts = [] then None
      else let ring = build_ring H ts in
        if ring = [] then Some 0
        else let ring = sort_key fst ring;
                 key_hash = H key;
                 pos = partition_point (\<lambda>(h, _). h < key_hash) ring;
                 pos = (if pos = length ring then 0 else pos)
             in Some (snd (ring ! pos)))"

definition rotate_left :: "nat \<Rightarrow> 'a list \<Rightarrow> 'a list" where
  "rotate_left k xs = drop k xs @ take k xs"

definition order_tier ::
    "(string \<Rightarrow> u64) \<Rightarrow> BalanceMethod \<Rightarrow> IpAddr option \<Rightarrow> string \<Rightarrow>
     ForwardTarget list \<Rightarrow> u64 \<Rightarrow> ForwardTarget list \<times> u64" where
  "order_tier H m source_ip hash_key ts ctr =
     (if length ts \<le> 1 then (ts, ctr)
      else let (leader, ctr) =
             (case m of
                LeastTime \<Rightarrow> (None, ctr)
              | RoundRobin \<Rightarrow> pick_weighted_round_robin ts ctr
              | IpHash \<Rightarrow> (pick_ip_hash ts source_ip, ctr)
              | Hash _ \<Rightarrow> (pick_hash H ts hash_key, ctr)
              | ConsistentHash _ \<Rightarrow> (pick_consistent_hash H ts hash_key, ctr))
           in (case leader of Some idx \<Rightarrow> (rotate_left idx ts, ctr) | None \<Rightarrow> (ts, ctr)))"

fun first_ids :: "string option list \<Rightarrow> ForwardTarget list \<Rightarrow> string option list" where
  "first_ids order [] = order"
| "first_ids order (t # ts) =
     (if server_id t \<in> set order then first_ids order ts
      else first_ids (order @ [server_id t]) ts)"

fun fill_buckets ::
    "(string option \<rightharpoonup> ForwardTarget list) \<Rightarrow> ForwardTarget list \<Rightarrow>
     (string option \<rightharpoonup> ForwardTarget list)" where
  "fill_buckets buckets [] = buckets"
| "fill_buckets buckets (t # ts) =
     fill_buckets (buckets(server_id t \<mapsto>
        (case buckets (server_id t) of Some b \<Rightarrow> b | None \<Rightarrow> []) @ [t])) ts"

fun drain_buckets ::
    "(string option \<rightharpoonup> ForwardTarget list) \<Rightarrow> string option list \<Rightarrow> ForwardTarget list" where
  "drain_buckets buckets [] = []"
| "drain_buckets buckets (sid # order) =
     (case buckets sid of
        Some bucket \<Rightarrow> bucket @ drain_buckets (buckets(sid := None)) order
      | None \<Rightarrow> drain_buckets buckets order)"

definition group_by_server_id :: "ForwardTarget list \<Rightarrow> ForwardTarget list" where
  "group_by_server_id ts =
     (if list_all (\<lambda>t. server_id t = None) ts then ts
      else drain_buckets (fill_buckets Map.empty ts) (first_ids [] ts))"

definition select ::
    "(string \<Rightarrow> u64) \<Rightarrow> ForwardPlan \<Rightarrow> ForwardFailureRegistry \<Rightarrow> IpAddr option \<Rightarrow> instant \<Rightarrow>
     u64 \<Rightarrow> ForwardTarget list \<times> u64" where
  "select H plan registry source_ip now ctr =
     (let group_key = failure_state_key H plan;
          ejected = (\<lambda>c. is_ejected registry group_key (url c) now);
          healthy_primary = filter (\<lambda>c. \<not> backup c \<and> \<not> ejected c) (candidates plan);
          healthy_backup = filter (\<lambda>c. backup c \<and> \<not> ejected c) (candidates plan);
          ejected_primary = filter (\<lambda>c. \<not> backup c \<and> ejected c) (candidates plan);
          ejected_backup = filter (\<lambda>c. backup c \<and> ejected c) (candidates plan);
          hash_key = (case hash_key_value plan of Some k \<Rightarrow> k | None \<Rightarrow> []);
          (healthy_primary, ctr) =
             order_tier H (balance plan) source_ip hash_key healthy_primary ctr;
          (healthy_backup, ctr) =
             order_tier H (balance plan) source_ip hash_key healthy_backup ctr;
          healthy_primary = group_by_server_id healthy_primary;
          healthy_backup = group_by_server_id healthy_backup
      in (healthy_primary @ healthy_backup @ ejected_primary @ ejected_backup, ctr))"

text \<open>\<open>apply_least_time_order\<close>: a stable sort by the position of the URL in the RTT list.\<close>

definition url_rank :: "string list \<Rightarrow> string \<rightharpoonup> nat" where
  "url_rank us = fold (\<lambda>(i, u) rank. rank(u \<mapsto> i)) (enumerate 0 us) Map.empty"

definition target_rank :: "string list \<Rightarrow> ForwardTarget \<Rightarrow> nat" where
  "target_rank us c = (case url_rank us (url c) of Some r \<Rightarrow> r | None \<Rightarrow> length us)"

definition apply_least_time_order :: "string list \<Rightarrow> ForwardPlan \<Rightarrow> ForwardPlan" where
  "apply_least_time_order us plan =
     (if candidates plan = [] \<or> us = [] then plan
      else plan\<lparr> candidates := sort_key (target_rank us) (candidates plan) \<rparr>)"

text \<open>\<open>apply_least_time_via_tunnel_mgr\<close>: \<open>parse_norm\<close> is \<open>Url::parse\<close> followed by
\<open>normalize_tunnel_url\<close>, and \<open>lookup\<close> is the answer of \<open>query_tunnel_url_statuses\<close> under the 50 ms
budget, \<open>None\<close> when the query failed or ran out of time.\<close>

definition raw_by_norm ::
    "(string \<Rightarrow> string option) \<Rightarrow> ForwardTarget list \<Rightarrow> string \<rightharpoonup> string" where
  "raw_by_norm parse_norm cs =
     fold (\<lambda>c m. case parse_norm (url c) of Some n \<Rightarrow> m(n \<mapsto> url c) | None \<Rightarrow> m) cs Map.empty"

definition apply_least_time_via_tunnel_mgr ::
    "(string \<Rightarrow> string option) \<Rightarrow> (string list \<Rightarrow> string list option) \<Rightarrow> ForwardPlan \<Rightarrow> ForwardPlan" where
  "apply_least_time_via_tunnel_mgr parse_norm lookup plan =
     (if balance plan \<noteq> LeastTime then plan
      else if length (candidates plan) \<le> 1 then plan
      else if list_ex (\<lambda>c. parse_norm (url c) = None) (candidates plan) then plan
      else case lookup (List.map_filter (\<lambda>c. parse_norm (url c)) (candidates plan)) of
        None \<Rightarrow> plan
      | Some sorted_urls \<Rightarrow>
          if sorted_urls = [] then plan
          else apply_least_time_order
                 (List.map_filter (raw_by_norm parse_norm (candidates plan)) sorted_urls) plan)"

section \<open>The weighted walk\<close>

abbreviation weight_sum :: "ForwardTarget list \<Rightarrow> nat" where
  "weight_sum ts \<equiv> sum_list (map (\<lambda>t. unat (weight t)) ts)"

lemma total_weight_no_wrap: "weight_sum ts < 2 ^ 64 \<Longrightarrow> total_weight ts = weight_sum ts"
  by (simp add: total_weight_def)

lemma prefix_find_cursor_find:
  assumes "acc \<le> cursor" "acc + weight_sum ts < 2 ^ 64"
  shows "prefix_find cursor acc i ts = cursor_find (cursor - acc) i ts"
  using assms
proof (induction ts arbitrary: acc i)
  case (Cons t ts)
  have acc: "min (acc + unat (weight t)) usize_max = acc + unat (weight t)"
    using Cons.prems(2) by simp
  show ?case
  proof (cases "cursor < acc + unat (weight t)")
    case True
    then show ?thesis using Cons.prems acc by (auto simp: Let_def)
  next
    case False
    then have "prefix_find cursor (acc + unat (weight t)) (Suc i) ts
             = cursor_find (cursor - (acc + unat (weight t))) (Suc i) ts"
      using Cons.prems(2) by (intro Cons.IH) auto
    then show ?thesis using False Cons.prems acc by (auto simp: Let_def)
  qed
qed simp

text \<open>The slot table of a tier: candidate \<open>i\<close> owns as many consecutive slots as its weight.\<close>

primrec slots :: "nat \<Rightarrow> ForwardTarget list \<Rightarrow> nat list" where
  "slots k [] = []"
| "slots k (t # ts) = replicate (unat (weight t)) k @ slots (Suc k) ts"

lemma length_slots [simp]: "length (slots k ts) = weight_sum ts"
  by (induction ts arbitrary: k) auto

lemma cursor_find_slots:
  "c < weight_sum ts \<Longrightarrow> cursor_find c k ts = Some (slots k ts ! c)"
  by (induction ts arbitrary: c k) (auto simp: Let_def nth_append)

lemma slots_range: "x \<in> set (slots k ts) \<Longrightarrow> k \<le> x \<and> x < k + length ts"
proof (induction ts arbitrary: k)
  case (Cons t ts)
  from Cons.prems consider "x = k" | "x \<in> set (slots (Suc k) ts)" by (auto split: if_splits)
  then show ?case
    by cases (use Cons.IH [of "Suc k"] in \<open>simp, force\<close>)
qed simp

lemma count_list_replicate [simp]: "count_list (replicate n x) y = (if x = y then n else 0)"
  by (induction n) auto

lemma count_list_zero: "x \<notin> set xs \<Longrightarrow> count_list xs x = 0"
  by (induction xs) auto

lemma count_slots:
  "i < length ts \<Longrightarrow> count_list (slots k ts) (k + i) = unat (weight (ts ! i))"
proof (induction ts arbitrary: k i)
  case (Cons t ts)
  show ?case
  proof (cases i)
    case 0
    have "count_list (slots (Suc k) ts) k = 0"
      using slots_range [of k "Suc k" ts] by (auto intro: count_list_zero)
    then show ?thesis using 0 by simp
  next
    case (Suc j)
    then show ?thesis using Cons.IH [of j "Suc k"] Cons.prems by simp
  qed
qed simp

lemma cursor_find_less:
  "c < weight_sum ts \<Longrightarrow> \<exists>i < length ts. cursor_find c 0 ts = Some i \<and> weight (ts ! i) \<noteq> 0"
proof -
  assume c: "c < weight_sum ts"
  let ?i = "slots 0 ts ! c"
  have mem: "?i \<in> set (slots 0 ts)" using c by simp
  then have lt: "?i < length ts" using slots_range by fastforce
  moreover have "unat (weight (ts ! ?i)) \<noteq> 0"
    using count_slots [OF lt, of 0] mem by (metis add_0 count_list_0_iff)
  ultimately show ?thesis using cursor_find_slots [OF c, of 0] by auto
qed

lemma nginx_ip_hash_bound: "nginx_ip_hash ip < 6271"
proof -
  have "fold (\<lambda>b hash. (hash * 113 + unat b) mod 6271) (bs :: u8 list) h < 6271" if "h < 6271" for bs h
    using that by (induction bs arbitrary: h) auto
  then show ?thesis by (simp add: nginx_ip_hash_def)
qed

section \<open>Weighted round robin is exact\<close>

lemma pick_wrr_slots:
  assumes "0 < weight_sum ts" "weight_sum ts < 2 ^ 64"
  shows "pick_weighted_round_robin ts ctr
       = (Some (slots 0 ts ! (unat ctr mod weight_sum ts)), ctr + 1)"
proof -
  let ?c = "unat ctr mod weight_sum ts"
  have total: "total_weight ts = weight_sum ts"
    by (rule total_weight_no_wrap [OF assms(2)])
  with assms(1) have nz: "total_weight ts \<noteq> 0" by linarith
  have lt: "?c < weight_sum ts" using assms(1) by simp
  have "prefix_find ?c 0 0 ts = Some (slots 0 ts ! ?c)"
    using prefix_find_cursor_find [of 0 ?c ts 0] assms(2) cursor_find_slots [OF lt] by simp
  moreover have "ts \<noteq> []" using assms(1) by auto
  ultimately show ?thesis
    using total nz by (simp add: pick_weighted_round_robin_def Let_def)
qed

text \<open>The leaders of \<open>n\<close> successive requests on one tier.\<close>

primrec rr_leaders :: "nat \<Rightarrow> ForwardTarget list \<Rightarrow> u64 \<Rightarrow> nat option list" where
  "rr_leaders 0 ts ctr = []"
| "rr_leaders (Suc n) ts ctr =
     (let (leader, ctr') = pick_weighted_round_robin ts ctr in leader # rr_leaders n ts ctr')"

lemma rr_leaders_slots:
  assumes "0 < weight_sum ts" "weight_sum ts < 2 ^ 64" "unat ctr + n \<le> 2 ^ 64"
  shows "rr_leaders n ts ctr
       = map (\<lambda>c. Some (slots 0 ts ! (c mod weight_sum ts))) [unat ctr..<unat ctr + n]"
  using assms(3)
proof (induction n arbitrary: ctr)
  case (Suc n)
  show ?case
  proof (cases n)
    case 0
    then show ?thesis using assms by (simp add: pick_wrr_slots)
  next
    case (Suc m)
    have "unat (ctr + 1) = unat ctr + 1"
      using Suc Suc.prems by (subst unat_plus_if') simp
    moreover have "rr_leaders n ts (ctr + 1) =
        map (\<lambda>c. Some (slots 0 ts ! (c mod weight_sum ts))) [unat (ctr + 1)..<unat (ctr + 1) + n]"
      using Suc.prems calculation by (intro Suc.IH) simp
    ultimately show ?thesis
      using assms by (simp add: pick_wrr_slots upt_conv_Cons del: upt_Suc)
  qed
qed simp

lemma rr_leaders_fair:
  assumes "weight_sum ts < 2 ^ 64" "unat ctr + weight_sum ts \<le> 2 ^ 64" "i < length ts"
  shows "count_list (rr_leaders (weight_sum ts) ts ctr) (Some i) = unat (weight (ts ! i))"
proof (cases "weight_sum ts = 0")
  case True
  then have "unat (weight (ts ! i)) = 0"
    using assms(3) by simp
  moreover have "rr_leaders (weight_sum ts) ts ctr = []"
    by (simp only: True rr_leaders.simps)
  ultimately show ?thesis by simp
next
  case False
  let ?n = "weight_sum ts" and ?S = "\<lambda>c. Some (slots 0 ts ! c)"
  have "rr_leaders ?n ts ctr = map ?S (map (\<lambda>c. c mod ?n) [unat ctr..<unat ctr + ?n])"
    using False assms rr_leaders_slots [of ts ctr ?n] by (simp only: neq0_conv map_map comp_def)
  then have "mset (rr_leaders ?n ts ctr) = image_mset ?S (mset (map (\<lambda>c. c mod ?n) [unat ctr..<unat ctr + ?n]))"
    by (simp only: mset_map)
  also have "\<dots> = image_mset ?S (mset [0..<?n])"
    by (simp only: mset_upt_mod)
  also have "\<dots> = mset (map ?S [0..<?n])"
    by (simp only: mset_map)
  also have "map ?S [0..<?n] = map Some (slots 0 ts)"
    by (intro nth_equalityI) auto
  finally have "count_list (rr_leaders ?n ts ctr) (Some i) = count_list (map Some (slots 0 ts)) (Some i)"
    by (simp add: count_list_mset)
  also have "\<dots> = count_list (slots 0 ts) i"
    by (rule count_list_map_Some)
  finally show ?thesis
    using count_slots [OF assms(3), of 0] by simp
qed

section \<open>Server adjacency\<close>

text \<open>Reference definition of the grouping: one block per server id, in order of first
appearance.\<close>

definition server_block :: "ForwardTarget list \<Rightarrow> string option \<Rightarrow> ForwardTarget list" where
  "server_block ts sid = filter (\<lambda>t. server_id t = sid) ts"

lemma fill_buckets_lookup:
  "fill_buckets b ts sid =
     (if server_block ts sid = [] then b sid
      else Some ((case b sid of Some x \<Rightarrow> x | None \<Rightarrow> []) @ server_block ts sid))"
  by (induction ts arbitrary: b) (auto simp: server_block_def)

lemma set_first_ids: "set (first_ids order ts) = set order \<union> server_id ` set ts"
  by (induction ts arbitrary: order) auto

lemma distinct_first_ids: "distinct order \<Longrightarrow> distinct (first_ids order ts)"
  by (induction ts arbitrary: order) auto

lemma first_ids_extends: "\<exists>more. first_ids order ts = order @ more"
proof (induction ts arbitrary: order)
  case (Cons t ts)
  show ?case
    using Cons.IH [of order] Cons.IH [of "order @ [server_id t]"] by auto
qed simp

lemma drain_buckets_concat:
  assumes "distinct order" "\<forall>sid \<in> set order. \<exists>b. buckets sid = Some b"
  shows "drain_buckets buckets order = concat (map (\<lambda>sid. the (buckets sid)) order)"
  using assms
proof (induction order arbitrary: buckets)
  case (Cons sid order)
  then obtain b where b: "buckets sid = Some b" by auto
  have "drain_buckets (buckets(sid := None)) order
      = concat (map (\<lambda>s. the ((buckets(sid := None)) s)) order)"
    using Cons.prems by (intro Cons.IH) auto
  moreover have "map (\<lambda>s. the ((buckets(sid := None)) s)) order = map (\<lambda>s. the (buckets s)) order"
    using Cons.prems(1) by auto
  ultimately show ?case using b by (simp only: drain_buckets.simps option.case list.map concat.simps) simp
qed simp

lemma server_block_Nil_iff: "server_block ts sid = [] \<longleftrightarrow> sid \<notin> server_id ` set ts"
  by (auto simp: server_block_def filter_empty_conv)

lemma group_by_server_id_blocks:
  "group_by_server_id ts = concat (map (server_block ts) (first_ids [] ts))"
proof (cases "list_all (\<lambda>t. server_id t = None) ts")
  case True
  then have none: "\<forall>t \<in> set ts. server_id t = None" by (simp add: list_all_iff)
  show ?thesis
  proof (cases ts)
    case (Cons t ts')
    have "set (first_ids [] ts) = {None}" using none Cons by (auto simp: set_first_ids)
    moreover have "distinct (first_ids [] ts)" by (simp add: distinct_first_ids)
    ultimately have "first_ids [] ts = [None]"
      by (cases "first_ids [] ts"; cases "tl (first_ids [] ts)") auto
    moreover have "server_block ts None = ts" using none by (simp add: server_block_def)
    ultimately show ?thesis using True by (simp add: group_by_server_id_def)
  qed (simp add: group_by_server_id_def)
next
  case False
  have bucket: "fill_buckets Map.empty ts sid = Some (server_block ts sid)"
    if "sid \<in> set (first_ids [] ts)" for sid
    using that by (simp add: fill_buckets_lookup server_block_Nil_iff set_first_ids)
  then have "drain_buckets (fill_buckets Map.empty ts) (first_ids [] ts)
      = concat (map (\<lambda>sid. the (fill_buckets Map.empty ts sid)) (first_ids [] ts))"
    by (intro drain_buckets_concat) (auto simp: distinct_first_ids)
  also have "\<dots> = concat (map (server_block ts) (first_ids [] ts))"
    using bucket by (auto intro!: arg_cong [where f = concat] map_cong)
  finally show ?thesis using False by (simp add: group_by_server_id_def)
qed

lemma mset_blocks:
  "distinct ids \<Longrightarrow>
   mset (concat (map (server_block ts) ids)) = filter_mset (\<lambda>t. server_id t \<in> set ids) (mset ts)"
proof (induction ids)
  case (Cons sid ids)
  have "filter_mset (\<lambda>t. server_id t \<in> set (sid # ids)) (mset ts)
      = filter_mset (\<lambda>t. server_id t = sid) (mset ts) + filter_mset (\<lambda>t. server_id t \<in> set ids) (mset ts)"
    using Cons.prems by (auto simp: multiset_eq_iff)
  then show ?case using Cons by (simp add: server_block_def)
qed simp

lemma mset_group_by_server_id [simp]: "mset (group_by_server_id ts) = mset ts"
proof -
  have "filter_mset (\<lambda>t. server_id t \<in> set (first_ids [] ts)) (mset ts) = mset ts"
    by (intro filter_mset_eq_conv [THEN iffD2]) (auto simp: set_first_ids)
  then show ?thesis
    by (simp add: group_by_server_id_blocks mset_blocks distinct_first_ids)
qed

lemma blocks_adjacent:
  assumes "distinct ids" "xs = concat (map (server_block ts) ids)"
    "i < j" "j < k" "k < length xs" "server_id (xs ! i) = server_id (xs ! k)"
  shows "server_id (xs ! j) = server_id (xs ! i)"
  using assms
proof (induction ids arbitrary: xs i j k)
  case (Cons sid ids)
  let ?b = "server_block ts sid" and ?r = "concat (map (server_block ts) ids)"
  have b: "server_id (?b ! n) = sid" if "n < length ?b" for n
    using nth_mem [OF that] by (simp add: server_block_def)
  have r: "server_id (?r ! n) \<noteq> sid" if "n < length ?r" for n
    using nth_mem [OF that] Cons.prems(1) by (auto simp: server_block_def)
  show ?case
  proof (cases "i < length ?b")
    case True
    then have "server_id (xs ! k) = sid"
      using Cons.prems b by (simp add: nth_append)
    moreover have "k < length ?b + length ?r" "xs = ?b @ ?r"
      using Cons.prems(2,5) by auto
    ultimately have "k < length ?b"
      using r [of "k - length ?b"] by (auto simp: nth_append not_less less_diff_conv2 split: if_splits)
    then show ?thesis
      using Cons.prems(2-4) True b by (simp add: nth_append)
  next
    case False
    then show ?thesis
      using Cons.prems Cons.IH [of ?r "i - length ?b" "j - length ?b" "k - length ?b"]
      by (simp add: nth_append)
  qed
qed simp

lemma group_by_server_id_adjacent:
  assumes "i < j" "j < k" "k < length (group_by_server_id ts)"
    "server_id (group_by_server_id ts ! i) = server_id (group_by_server_id ts ! k)"
  shows "server_id (group_by_server_id ts ! j) = server_id (group_by_server_id ts ! i)"
  using blocks_adjacent [OF _ group_by_server_id_blocks assms(1-4)] by (simp add: distinct_first_ids)

text \<open>Adjacency inside a segment of a longer list, the segment being delimited by a label \<open>f\<close>.\<close>

lemma adjacent_segment:
  assumes "order = pre @ group_by_server_id ts @ post" "i < j" "j < k" "k < length order"
    "\<forall>c \<in> set pre. f c \<noteq> n" "\<forall>c \<in> set post. f c \<noteq> n"
    "f (order ! i) = n" "f (order ! k) = n" "server_id (order ! i) = server_id (order ! k)"
  shows "server_id (order ! j) = server_id (order ! i)"
proof -
  let ?g = "group_by_server_id ts" and ?p = "length pre"
  have "\<not> i < ?p"
    using assms(1,5,7) nth_mem [of i pre] by (auto simp: nth_append)
  moreover have "k < ?p + length ?g"
  proof (rule ccontr)
    assume "\<not> k < ?p + length ?g"
    then have "order ! k \<in> set post"
      using assms(1,4) nth_mem [of "k - ?p - length ?g" post] by (auto simp: nth_append)
    then show False using assms(6,8) by auto
  qed
  moreover have "order ! m = ?g ! (m - ?p)" if "?p \<le> m" "m < ?p + length ?g" for m
    using assms(1) that by (auto simp: nth_append)
  ultimately show ?thesis
    using group_by_server_id_adjacent [of "i - ?p" "j - ?p" "k - ?p" ts] assms(2,3,9) by simp
qed

lemma hd_group_by_server_id: "ts \<noteq> [] \<Longrightarrow> hd (group_by_server_id ts) = hd ts"
proof -
  assume "ts \<noteq> []"
  then obtain t ts' where ts: "ts = t # ts'" by (cases ts) auto
  obtain more where "first_ids [] ts = server_id t # more"
    using first_ids_extends [of "[server_id t]" ts'] ts by auto
  then show ?thesis by (simp add: group_by_server_id_blocks ts server_block_def)
qed

section \<open>Tier ordering\<close>

lemma mset_rotate_left [simp]: "mset (rotate_left k xs) = mset xs"
  by (metis append_take_drop_id mset_append rotate_left_def union_commute)

lemma hd_rotate_left: "k < length xs \<Longrightarrow> hd (rotate_left k xs) = xs ! k"
  by (simp add: rotate_left_def hd_drop_conv_nth)

lemma order_tier_mset [simp]: "mset (fst (order_tier H m ip key ts ctr)) = mset ts"
  by (auto simp: order_tier_def split: prod.splits option.splits)

lemma length_order_tier: "length (fst (order_tier H m ip key ts ctr)) = length ts"
  by (metis mset_eq_length order_tier_mset)

lemma length_group_by_server_id: "length (group_by_server_id ts) = length ts"
  by (metis mset_eq_length mset_group_by_server_id)

lemma order_tier_counter:
  "snd (order_tier H m ip key ts ctr) =
     (if m = RoundRobin \<and> 1 < length ts \<and> total_weight ts \<noteq> 0 then ctr + 1 else ctr)"
  by (auto simp: order_tier_def pick_weighted_round_robin_def Let_def
      split: prod.splits option.splits BalanceMethod.splits)

lemma order_tier_rr_leader:
  assumes "0 < weight_sum ts" "weight_sum ts < 2 ^ 64" "1 < length ts"
  shows "hd (fst (order_tier H RoundRobin ip key ts ctr)) = ts ! (slots 0 ts ! (unat ctr mod weight_sum ts))"
proof -
  have "slots 0 ts ! (unat ctr mod weight_sum ts) < length ts"
    using slots_range [of "slots 0 ts ! (unat ctr mod weight_sum ts)" 0 ts] assms(1) by simp
  then show ?thesis
    using assms by (simp add: order_tier_def pick_wrr_slots hd_rotate_left del: One_nat_def)
qed

section \<open>The selected order\<close>

text \<open>The tier of a candidate: healthy primaries 0, healthy backups 1, ejected primaries 2, ejected
backups 3.\<close>

definition tier_of :: "(ForwardTarget \<Rightarrow> bool) \<Rightarrow> ForwardTarget \<Rightarrow> nat" where
  "tier_of ejected c = (if ejected c then 2 else 0) + (if backup c then 1 else 0)"

definition plan_ejected ::
    "(string \<Rightarrow> u64) \<Rightarrow> ForwardPlan \<Rightarrow> ForwardFailureRegistry \<Rightarrow> instant \<Rightarrow> ForwardTarget \<Rightarrow> bool" where
  "plan_ejected H plan registry now c = is_ejected registry (failure_state_key H plan) (url c) now"

definition tier_list :: "(ForwardTarget \<Rightarrow> bool) \<Rightarrow> nat \<Rightarrow> ForwardTarget list \<Rightarrow> ForwardTarget list" where
  "tier_list ejected n cs = filter (\<lambda>c. tier_of ejected c = n) cs"

lemma select_tiers:
  fixes H plan registry ip now ctr
  defines "ej \<equiv> plan_ejected H plan registry now"
    and "key \<equiv> (case hash_key_value plan of Some k \<Rightarrow> k | None \<Rightarrow> [])"
  defines "p \<equiv> order_tier H (balance plan) ip key (tier_list ej 0 (candidates plan)) ctr"
  defines "b \<equiv> order_tier H (balance plan) ip key (tier_list ej 1 (candidates plan)) (snd p)"
  shows "select H plan registry ip now ctr =
     (group_by_server_id (fst p) @ group_by_server_id (fst b) @
      tier_list ej 2 (candidates plan) @ tier_list ej 3 (candidates plan), snd b)"
proof -
  have "tier_list ej 0 cs = filter (\<lambda>c. \<not> backup c \<and> \<not> ej c) cs"
       "tier_list ej 1 cs = filter (\<lambda>c. backup c \<and> \<not> ej c) cs"
       "tier_list ej 2 cs = filter (\<lambda>c. \<not> backup c \<and> ej c) cs"
       "tier_list ej 3 cs = filter (\<lambda>c. backup c \<and> ej c) cs" for cs
    by (auto simp: tier_list_def tier_of_def intro!: filter_cong)
  then show ?thesis
    by (simp add: select_def p_def b_def key_def Let_def ej_def plan_ejected_def [abs_def]
        split: prod.splits)
qed

lemma mset_tiers:
  "mset (tier_list ej 0 cs) + (mset (tier_list ej 1 cs) +
    (mset (tier_list ej 2 cs) + mset (tier_list ej 3 cs))) = mset cs"
  by (induction cs) (auto simp: tier_list_def tier_of_def)

lemma select_mset: "mset (fst (select H plan registry ip now ctr)) = mset (candidates plan)"
  using mset_tiers [of "plan_ejected H plan registry now" "candidates plan"]
  by (simp add: select_tiers)

lemma select_set: "set (fst (select H plan registry ip now ctr)) = set (candidates plan)"
  by (metis select_mset set_mset_mset)

lemma tier_list_sorted_append:
  "sorted (map (tier_of ej) (as @ bs @ tier_list ej 2 cs @ tier_list ej 3 cs))"
  if "\<forall>c \<in> set as. tier_of ej c = 0" "\<forall>c \<in> set bs. tier_of ej c = 1"
proof -
  have const: "sorted (map f xs)" if "\<forall>x \<in> set xs. f x = n" for f :: "ForwardTarget \<Rightarrow> nat" and n xs
    using that by (induction xs) auto
  show ?thesis
    using that const [of as "tier_of ej" 0] const [of bs "tier_of ej" 1]
      const [of "tier_list ej 2 cs" "tier_of ej" 2] const [of "tier_list ej 3 cs" "tier_of ej" 3]
    by (auto simp: sorted_append tier_list_def)
qed

lemma select_sorted:
  "sorted (map (tier_of (plan_ejected H plan registry now)) (fst (select H plan registry ip now ctr)))"
proof -
  have mem: "set (group_by_server_id xs) = set xs" "set (fst (order_tier H m ip key ts c)) = set ts"
    for xs m key ts c
    by (metis mset_group_by_server_id set_mset_mset, metis order_tier_mset set_mset_mset)
  show ?thesis
    unfolding select_tiers fst_conv
    by (rule tier_list_sorted_append) (auto simp: mem tier_list_def)
qed

section \<open>Round robin across requests\<close>

text \<open>The first choice of each request, for requests made at the clock readings \<open>nows\<close>.\<close>

fun select_leaders ::
    "(string \<Rightarrow> u64) \<Rightarrow> ForwardPlan \<Rightarrow> ForwardFailureRegistry \<Rightarrow> IpAddr option \<Rightarrow> instant list \<Rightarrow>
     u64 \<Rightarrow> ForwardTarget list" where
  "select_leaders H plan registry ip [] ctr = []"
| "select_leaders H plan registry ip (now # nows) ctr =
     (let (order, ctr) = select H plan registry ip now ctr
      in hd order # select_leaders H plan registry ip nows ctr)"

lemma select_all_healthy_primary:
  assumes "balance plan = RoundRobin" "1 < length (candidates plan)"
    "0 < weight_sum (candidates plan)" "weight_sum (candidates plan) < 2 ^ 64"
    "\<forall>c \<in> set (candidates plan). \<not> backup c \<and> \<not> plan_ejected H plan registry now c"
  shows "hd (fst (select H plan registry ip now ctr))
       = candidates plan ! (slots 0 (candidates plan) ! (unat ctr mod weight_sum (candidates plan)))"
    and "snd (select H plan registry ip now ctr) = ctr + 1"
proof -
  let ?ej = "plan_ejected H plan registry now" and ?cs = "candidates plan"
  have t0: "tier_list ?ej 0 ?cs = ?cs" and t1: "tier_list ?ej 1 ?cs = []"
    using assms(5) by (auto simp: tier_list_def tier_of_def)
  have "total_weight ?cs \<noteq> 0"
    using total_weight_no_wrap [OF assms(4)] assms(3) by linarith
  then show "snd (select H plan registry ip now ctr) = ctr + 1"
    unfolding select_tiers t0 t1 using assms(1,2) by (simp add: order_tier_counter)
  have ne: "fst (order_tier H m ip' key ?cs ctr) \<noteq> []" for m ip' key
    using assms(2) by (metis length_order_tier list.size(3) not_less_zero)
  have ne': "group_by_server_id xs \<noteq> []" if "xs \<noteq> []" for xs
    using that by (metis length_0_conv length_group_by_server_id)
  show "hd (fst (select H plan registry ip now ctr))
       = ?cs ! (slots 0 ?cs ! (unat ctr mod weight_sum ?cs))"
    unfolding select_tiers t0 t1
    by (simp add: ne ne' hd_group_by_server_id assms(1) order_tier_rr_leader [OF assms(3,4,2)])
qed

lemma select_leaders_rr:
  assumes "balance plan = RoundRobin" "1 < length (candidates plan)"
    "0 < weight_sum (candidates plan)" "weight_sum (candidates plan) < 2 ^ 64"
    "\<forall>now \<in> set nows. \<forall>c \<in> set (candidates plan).
        \<not> backup c \<and> \<not> plan_ejected H plan registry now c"
  shows "select_leaders H plan registry ip nows ctr
       = map (\<lambda>l. candidates plan ! the l) (rr_leaders (length nows) (candidates plan) ctr)"
  using assms(5)
proof (induction nows arbitrary: ctr)
  case (Cons now nows)
  have "hd (fst (select H plan registry ip now ctr))
       = candidates plan ! (slots 0 (candidates plan) ! (unat ctr mod weight_sum (candidates plan)))"
    "snd (select H plan registry ip now ctr) = ctr + 1"
    using select_all_healthy_primary [OF assms(1-4)] Cons.prems by auto
  with Cons show ?case
    by (simp add: split_beta pick_wrr_slots [OF assms(3,4)])
qed simp

lemma rr_leaders_range:
  assumes "0 < weight_sum ts" "weight_sum ts < 2 ^ 64" "l \<in> set (rr_leaders n ts ctr)"
  shows "\<exists>i < length ts. l = Some i"
  using assms(3)
proof (induction n arbitrary: ctr)
  case (Suc n)
  have "slots 0 ts ! (unat ctr mod weight_sum ts) < length ts"
    using slots_range [of "slots 0 ts ! (unat ctr mod weight_sum ts)" 0 ts] assms(1) by simp
  with Suc show ?case
    by (auto simp: pick_wrr_slots [OF assms(1,2)])
qed simp

section \<open>Consistent hashing\<close>

text \<open>The choice made on a ring, as a function of the unsorted virtual nodes.\<close>

definition ring_choice :: "u64 \<Rightarrow> (u64 \<times> 'a) list \<Rightarrow> 'a" where
  "ring_choice k ring =
     (let ring = sort_key fst ring; pos = partition_point (\<lambda>(h, _). h < k) ring
      in snd (ring ! (if pos = length ring then 0 else pos)))"

lemma partition_point_dropWhile:
  "partition_point P xs = length xs \<longleftrightarrow> dropWhile P xs = []"
  "dropWhile P xs \<noteq> [] \<Longrightarrow> xs ! partition_point P xs = hd (dropWhile P xs)"
  by (induction xs) (auto simp: partition_point_def)

text \<open>Reading of the choice: the first node at or after the key, or the first node of the ring.\<close>

lemma ring_choice_hd:
  assumes "ring \<noteq> []"
  shows "ring_choice k ring =
     (let s = sort_key fst ring; d = dropWhile (\<lambda>(h, _). h < k) s
      in snd (hd (if d = [] then s else d)))"
proof -
  let ?s = "sort_key fst ring" and ?P = "\<lambda>(h, _). h < k"
  have ne: "?s \<noteq> []" using assms by (metis set_empty set_sort)
  show ?thesis
    using ne partition_point_dropWhile(1) [of ?P ?s] partition_point_dropWhile(2) [of ?P ?s]
    by (auto simp: ring_choice_def Let_def hd_conv_nth simp del: dropWhile_eq_Nil_conv)
qed

lemma hd_filter: "P x \<Longrightarrow> xs \<noteq> [] \<Longrightarrow> hd xs = x \<Longrightarrow> filter P xs \<noteq> [] \<and> hd (filter P xs) = x"
  by (cases xs) auto

lemma dropWhile_filter_sorted:
  fixes k :: u64
  assumes "sorted (map fst xs)"
  shows "dropWhile (\<lambda>(h, _). h < k) (filter Q xs) = filter Q (dropWhile (\<lambda>(h, _). h < k) xs)"
  using assms
proof (induction xs)
  case (Cons x xs)
  show ?case
  proof (cases "fst x < k")
    case True
    then show ?thesis using Cons by (auto simp: case_prod_beta)
  next
    case False
    have "dropWhile (\<lambda>(h, _). h < k) ys = ys" if "set ys \<subseteq> set (x # xs)" for ys
    proof (cases ys)
      case (Cons y zs)
      then have "fst x \<le> fst y" using that Cons.prems by auto
      then show ?thesis using Cons False by (auto simp: case_prod_beta)
    qed simp
    then have "dropWhile (\<lambda>(h, _). h < k) (filter Q (x # xs)) = filter Q (x # xs)"
      "dropWhile (\<lambda>(h, _). h < k) (x # xs) = x # xs"
      by (metis filter_is_subset, metis order_refl)
    then show ?thesis by simp
  qed
qed simp

text \<open>Removing nodes of owners other than the chosen one does not change the choice.\<close>

lemma ring_choice_filter:
  assumes "ring \<noteq> []" "P (ring_choice k ring)"
  shows "filter (\<lambda>n. P (snd n)) ring \<noteq> []"
    and "ring_choice k (filter (\<lambda>n. P (snd n)) ring) = ring_choice k ring"
proof -
  let ?s = "sort_key fst ring" and ?d = "\<lambda>xs. dropWhile (\<lambda>(h, _). h < k) xs"
    and ?f = "filter (\<lambda>n. P (snd n))"
  have ne: "?s \<noteq> []" using assms(1) by (metis set_empty set_sort)
  have drop: "?d (?f ?s) = ?f (?d ?s)"
    by (rule dropWhile_filter_sorted) simp
  let ?L = "if ?d ?s = [] then ?s else ?d ?s"
  have choice: "ring_choice k ring = snd (hd ?L)"
    using ring_choice_hd [OF assms(1)] by (simp add: Let_def)
  have hd: "?f ?L \<noteq> [] \<and> hd (?f ?L) = hd ?L"
    using assms(2) ne unfolding choice by (intro hd_filter) auto
  then have "?f ?s \<noteq> []"
    using set_dropWhileD by (fastforce simp: filter_empty_conv split: if_splits)
  then show ne': "?f ring \<noteq> []" by (metis filter_sort set_empty set_sort)
  have "(if ?d (?f ?s) = [] then ?f ?s else ?d (?f ?s)) = ?f ?L"
    using hd by (cases "?d ?s = []") (simp_all only: drop if_True if_False filter.simps simp_thms)
  then show "ring_choice k (?f ring) = ring_choice k ring"
    unfolding choice using ring_choice_hd [OF ne'] hd by (simp add: Let_def filter_sort [symmetric])
qed

lemma ring_choice_map:
  assumes "ring \<noteq> []"
  shows "ring_choice k (map (apsnd f) ring) = f (ring_choice k ring)"
proof -
  have s: "sort_key fst (map (apsnd f) ring) = map (apsnd f) (sort_key fst ring)"
  proof (rule properties_for_sort_key)
    have "filter (\<lambda>x. c = fst x) (sort_key fst ring) = filter (\<lambda>x. c = fst x) ring" for c
      using sort_key_stable [of fst c ring] by (simp add: eq_commute [of c])
    then show "filter (\<lambda>x. fst y = fst x) (map (apsnd f) (sort_key fst ring))
        = filter (\<lambda>x. fst y = fst x) (map (apsnd f) ring)" for y :: "u64 \<times> 'b"
      by (simp add: filter_map comp_def)
  qed auto
  have "dropWhile (\<lambda>(h, _). h < k) (map (apsnd f) xs) = map (apsnd f) (dropWhile (\<lambda>(h, _). h < k) xs)" for xs
    by (simp add: dropWhile_map comp_def case_prod_unfold)
  moreover have "sort_key fst ring \<noteq> []" using assms by (metis set_empty set_sort)
  ultimately show ?thesis
    using assms by (simp add: ring_choice_hd s Let_def hd_map del: dropWhile_eq_Nil_conv)
qed

lemma vnode_hashes_not_Nil: "vnode_hashes H t \<noteq> []"
  by (simp add: vnode_hashes_def vnode_count_def VNODE_FACTOR_def)

definition ring_from :: "(string \<Rightarrow> u64) \<Rightarrow> nat \<Rightarrow> ForwardTarget list \<Rightarrow> (u64 \<times> nat) list" where
  "ring_from H k ts = concat (map (\<lambda>(i, t). map (\<lambda>h. (h, i)) (vnode_hashes H t)) (enumerate k ts))"

lemma ring_from_simps [simp]:
  "ring_from H k [] = []"
  "ring_from H k (t # ts) = map (\<lambda>h. (h, k)) (vnode_hashes H t) @ ring_from H (Suc k) ts"
  by (simp_all add: ring_from_def)

lemma build_ring_from: "build_ring H ts = ring_from H 0 ts"
  by (simp add: build_ring_def ring_from_def)

lemma ring_from_append: "ring_from H k (xs @ ys) = ring_from H k xs @ ring_from H (k + length xs) ys"
  by (induction xs arbitrary: k) auto

lemma ring_from_owner: "n \<in> set (ring_from H k ts) \<Longrightarrow> k \<le> snd n \<and> snd n < k + length ts"
proof (induction ts arbitrary: k)
  case (Cons t ts)
  then consider "snd n = k" | "n \<in> set (ring_from H (Suc k) ts)" by auto
  then show ?case
  proof cases
    case 2
    then have "Suc k \<le> snd n \<and> snd n < Suc k + length ts" by (rule Cons.IH)
    then show ?thesis by auto
  qed auto
qed simp

lemma ring_from_shift: "map (apsnd (\<lambda>i. i - 1)) (ring_from H (Suc k) ts) = ring_from H k ts"
  by (induction ts arbitrary: k) auto

definition drop_index :: "nat \<Rightarrow> 'a list \<Rightarrow> 'a list" where
  "drop_index j xs = take j xs @ drop (Suc j) xs"

lemma ring_drop_index:
  assumes "j < length ts"
  shows "build_ring H (drop_index j ts)
       = map (apsnd (\<lambda>i. if i < j then i else i - 1)) (filter (\<lambda>n. snd n \<noteq> j) (build_ring H ts))"
proof -
  define pre post where "pre = take j ts" and "post = drop (Suc j) ts"
  have ts: "ts = pre @ ts ! j # post" and len: "length pre = j"
    using assms by (simp_all add: pre_def post_def id_take_nth_drop)
  let ?g = "apsnd (\<lambda>i. if i < j then i else i - 1)" and ?P = "\<lambda>n. snd n \<noteq> j"
  have "filter ?P (ring_from H 0 pre) = ring_from H 0 pre"
    using ring_from_owner [of _ H 0 pre] len by (fastforce simp: filter_id_conv)
  moreover have "map ?g (ring_from H 0 pre) = ring_from H 0 pre"
    using ring_from_owner [of _ H 0 pre] len by (intro map_idI) (auto simp: apsnd_def map_prod_def)
  moreover have "filter ?P (ring_from H (Suc j) post) = ring_from H (Suc j) post"
    using ring_from_owner [of _ H "Suc j" post] by (fastforce simp: filter_id_conv)
  moreover have "map ?g (ring_from H (Suc j) post) = ring_from H j post"
  proof -
    have "?g n = apsnd (\<lambda>i. i - 1) n" if "n \<in> set (ring_from H (Suc j) post)" for n
      using ring_from_owner [OF that] by (cases n) simp
    then have "map ?g (ring_from H (Suc j) post) = map (apsnd (\<lambda>i. i - 1)) (ring_from H (Suc j) post)"
      by (rule map_cong [OF refl])
    then show ?thesis by (simp only: ring_from_shift)
  qed
  moreover have "filter ?P (map (\<lambda>h. (h, j)) (vnode_hashes H (ts ! j))) = []"
    by (simp add: filter_empty_conv)
  moreover have "build_ring H ts
      = ring_from H 0 pre @ map (\<lambda>h. (h, j)) (vnode_hashes H (ts ! j)) @ ring_from H (Suc j) post"
    by (subst ts) (simp add: build_ring_from ring_from_append len)
  moreover have "build_ring H (drop_index j ts) = ring_from H 0 pre @ ring_from H j post"
    by (simp add: drop_index_def build_ring_from ring_from_append len flip: pre_def post_def)
  ultimately show ?thesis by simp
qed

lemma build_ring_not_Nil: "ts \<noteq> [] \<Longrightarrow> build_ring H ts \<noteq> []"
  by (cases ts) (auto simp: build_ring_from vnode_hashes_not_Nil)

lemma pick_consistent_hash_choice:
  "ts \<noteq> [] \<Longrightarrow> pick_consistent_hash H ts key = Some (ring_choice (H key) (build_ring H ts))"
  by (simp add: pick_consistent_hash_def ring_choice_def build_ring_not_Nil Let_def)

lemma ring_choice_range:
  assumes "ts \<noteq> []"
  shows "ring_choice k (build_ring H ts) < length ts"
proof -
  let ?r = "build_ring H ts"
  let ?i = "let pos = partition_point (\<lambda>(h, _). h < k) (sort_key fst ?r)
            in if pos = length (sort_key fst ?r) then 0 else pos"
  have "partition_point (\<lambda>(h, _). h < k) (sort_key fst ?r) \<le> length (sort_key fst ?r)"
    unfolding partition_point_def by (rule length_takeWhile_le)
  then have "?i < length (sort_key fst ?r)"
    using build_ring_not_Nil [OF assms, of H] by (auto simp: Let_def)
  then have "sort_key fst ?r ! ?i \<in> set (ring_from H 0 ts)"
    using nth_mem [of ?i "sort_key fst ?r"] by (simp add: build_ring_from)
  then show ?thesis
    using ring_from_owner [of _ H 0 ts] by (fastforce simp: ring_choice_def Let_def)
qed

section \<open>Least-time order\<close>

lemma url_rank_Nil [simp]: "url_rank [] = Map.empty"
  by (simp add: url_rank_def)

lemma url_rank_snoc: "url_rank (us @ [u]) = (url_rank us)(u \<mapsto> length us)"
  by (simp add: url_rank_def enumerate_append_eq)

lemma url_rank_distinct: "distinct us \<Longrightarrow> i < length us \<Longrightarrow> url_rank us (us ! i) = Some i"
proof (induction us rule: rev_induct)
  case (snoc u us)
  then show ?case
    by (cases "i = length us") (auto simp: url_rank_snoc nth_append)
qed simp

lemma url_rank_None: "u \<notin> set us \<Longrightarrow> url_rank us u = None"
  by (induction us rule: rev_induct) (auto simp: url_rank_snoc)

lemma target_rank_le: "target_rank us c \<le> length us"
proof -
  have "url_rank us u = Some r \<Longrightarrow> r < length us" for u r
    by (induction us rule: rev_induct) (auto simp: url_rank_snoc split: if_splits)
  then show ?thesis
    by (auto simp: target_rank_def split: option.split intro: less_imp_le)
qed

lemma apply_least_time_order_sorts:
  "mset (candidates (apply_least_time_order us plan)) = mset (candidates plan)"
  "us \<noteq> [] \<Longrightarrow> sorted (map (target_rank us) (candidates (apply_least_time_order us plan)))"
  "filter (\<lambda>c. target_rank us c = r) (candidates (apply_least_time_order us plan))
   = filter (\<lambda>c. target_rank us c = r) (candidates plan)"
  by (auto simp: apply_least_time_order_def sort_key_stable)

lemma apply_least_time_via_tunnel_mgr_mset:
  "mset (candidates (apply_least_time_via_tunnel_mgr parse_norm lookup plan)) = mset (candidates plan)"
  by (auto simp: apply_least_time_via_tunnel_mgr_def apply_least_time_order_sorts
      split: option.splits)

lemma apply_least_time_keeps:
  "group (apply_least_time_via_tunnel_mgr parse_norm lookup plan) = group plan"
  "next_upstream (apply_least_time_via_tunnel_mgr parse_norm lookup plan) = next_upstream plan"
  "balance (apply_least_time_via_tunnel_mgr parse_norm lookup plan) = balance plan"
  by (auto simp: apply_least_time_via_tunnel_mgr_def apply_least_time_order_def split: option.splits)

lemma failure_state_key_least_time:
  "failure_state_key H (apply_least_time_via_tunnel_mgr parse_norm lookup plan) = failure_state_key H plan"
  by (rule failure_state_key_mset)
     (simp_all add: apply_least_time_keeps apply_least_time_via_tunnel_mgr_mset)

section \<open>Properties\<close>

text \<open>C2. A selection loses and invents nothing: for every plan, registry, clock reading, client
address and counter, the attempt order returned by \<open>select\<close> is a permutation of the plan's
candidates, and it is sorted by tier, that is, every healthy primary comes before every healthy
backup, and ejected candidates come last with primaries first.\<close>

theorem select_permutes_by_tier:
  "mset (fst (select H plan registry ip now ctr)) = mset (candidates plan) \<and>
   sorted (map (tier_of (plan_ejected H plan registry now)) (fst (select H plan registry ip now ctr)))"
  by (simp add: select_mset select_sorted)

text \<open>C14. Weighted round robin is exact across requests: when every candidate is a healthy primary
and the counter does not pass \<open>2 ^ 64\<close>, then over as many consecutive requests as the weights add up
to, each candidate leads exactly as many requests as its weight.\<close>

theorem select_round_robin_exact:
  assumes "balance plan = RoundRobin" "1 < length (candidates plan)" "distinct (candidates plan)"
    "length nows = weight_sum (candidates plan)"
    "0 < weight_sum (candidates plan)" "unat ctr + weight_sum (candidates plan) < 2 ^ 64"
    "\<forall>now \<in> set nows. \<forall>c \<in> set (candidates plan).
        \<not> backup c \<and> \<not> is_ejected registry (failure_state_key H plan) (url c) now"
    "i < length (candidates plan)"
  shows "count_list (select_leaders H plan registry ip nows ctr) (candidates plan ! i)
       = unat (weight (candidates plan ! i))"
proof -
  let ?cs = "candidates plan" and ?f = "\<lambda>l. candidates plan ! the l"
  have W: "weight_sum ?cs < 2 ^ 64" using assms(6) by simp
  have leaders: "select_leaders H plan registry ip nows ctr = map ?f (rr_leaders (weight_sum ?cs) ?cs ctr)"
    using assms(4) select_leaders_rr [OF assms(1,2,5) W, of nows H registry ip ctr] assms(7)
    by (simp add: plan_ejected_def)
  have "inj_on ?f (insert (Some i) (set (rr_leaders (weight_sum ?cs) ?cs ctr)))"
  proof (rule inj_onI)
    fix x y
    assume mem: "x \<in> insert (Some i) (set (rr_leaders (weight_sum ?cs) ?cs ctr))"
      "y \<in> insert (Some i) (set (rr_leaders (weight_sum ?cs) ?cs ctr))" and eq: "?f x = ?f y"
    obtain a b where "x = Some a" "a < length ?cs" "y = Some b" "b < length ?cs"
      using mem rr_leaders_range [OF assms(5) W] assms(8) by (metis insertE)
    then show "x = y" using eq assms(3) by (simp add: nth_eq_iff_index_eq)
  qed
  then have "count_list (select_leaders H plan registry ip nows ctr) (?f (Some i))
      = count_list (rr_leaders (weight_sum ?cs) ?cs ctr) (Some i)"
    unfolding leaders by (rule count_list_map_inj)
  then show ?thesis
    using rr_leaders_fair [OF W _ assms(8)] assms(6) by simp
qed

text \<open>C29. Consistent hashing is stable: removing a candidate other than the one a key is mapped to
leaves the key on the same candidate, for every hash function.\<close>

theorem consistent_hash_stable:
  assumes "pick_consistent_hash H ts key = Some i" "j < length ts" "j \<noteq> i"
  shows "\<exists>i'. pick_consistent_hash H (drop_index j ts) key = Some i' \<and>
              i' < length (drop_index j ts) \<and> drop_index j ts ! i' = ts ! i"
proof -
  let ?g = "\<lambda>i. if i < j then i else i - 1" and ?R = "build_ring H ts"
  have ne: "ts \<noteq> []" using assms(2) by auto
  have i: "i = ring_choice (H key) ?R" "i < length ts"
    using assms(1) ring_choice_range [OF ne] by (auto simp: pick_consistent_hash_choice [OF ne])
  have filter: "filter (\<lambda>n. snd n \<noteq> j) ?R \<noteq> []"
    "ring_choice (H key) (filter (\<lambda>n. snd n \<noteq> j) ?R) = i"
    using ring_choice_filter [OF build_ring_not_Nil [OF ne], of "\<lambda>x. x \<noteq> j" "H key" H] i(1) assms(3)
    by auto
  have len: "length (drop_index j ts) = length ts - 1"
    using assms(2) by (simp add: drop_index_def)
  then have ne': "drop_index j ts \<noteq> []"
    using assms(2,3) i(2) by (cases "length ts - 1") auto
  have "pick_consistent_hash H (drop_index j ts) key = Some (?g i)"
    using ring_choice_map [OF filter(1), of "H key" ?g] filter(2)
    by (simp add: pick_consistent_hash_choice [OF ne'] ring_drop_index [OF assms(2)])
  moreover have "?g i < length (drop_index j ts)"
    using len i(2) assms(2,3) by auto
  moreover have "drop_index j ts ! ?g i = ts ! i"
    using i(2) assms(2,3) by (auto simp: drop_index_def nth_append min_def)
  ultimately show ?thesis by blast
qed

text \<open>A concrete group used by the witnesses: two primaries of weight 2 and 1.\<close>

definition sample_target :: "string \<Rightarrow> u32 \<Rightarrow> ForwardTarget" where
  "sample_target u w = with_weight w (target_new u)"

definition sample_plan :: "ForwardTarget list \<Rightarrow> ForwardPlan" where
  "sample_plan cs = (single_url ''a'')\<lparr> group := Some ''g'', candidates := cs \<rparr>"

lemma sample_plan_sel [simp]:
  "balance (sample_plan cs) = RoundRobin" "candidates (sample_plan cs) = cs"
  "group (sample_plan cs) = Some ''g''" "next_upstream (sample_plan cs) = policy_off"
  "hash_key_value (sample_plan cs) = None"
  by (simp_all add: sample_plan_def single_url_def)

lemma sample_target_sel [simp]:
  "url (sample_target u w) = u" "weight (sample_target u w) = w" "\<not> backup (sample_target u w)"
  "server_id (sample_target u w) = None"
  by (simp_all add: sample_target_def with_weight_def target_new_def)

lemma sample_target_eq [simp]: "sample_target u w = sample_target v x \<longleftrightarrow> u = v \<and> w = x"
  by (auto simp: sample_target_def with_weight_def target_new_def)

lemma is_ejected_empty [simp]: "\<not> is_ejected Map.empty g u now"
  by (simp add: is_ejected_def snapshot_def state_is_ejected_def candidate_default_def)

theorem select_round_robin_exact_witness:
  "count_list
     (select_leaders (\<lambda>_. 0) (sample_plan [sample_target ''a'' 2, sample_target ''b'' 1]) Map.empty
        None [5, 6, 7] 0)
     (sample_target ''a'' 2) = 2"
  using select_round_robin_exact
    [of "sample_plan [sample_target ''a'' 2, sample_target ''b'' 1]" "[5, 6, 7]" 0 Map.empty
       "\<lambda>_. 0" 0 None]
  by simp

definition sample_hash :: "string \<Rightarrow> u64" where
  "sample_hash s = (if take 1 s = ''a'' then 5 else if take 1 s = ''b'' then 9 else 7)"

lemma sample_ring:
  "build_ring sample_hash [sample_target ''a'' 1, sample_target ''b'' 1]
   = replicate 40 (5, 0) @ replicate 40 (9, 1)"
proof -
  have "vnode_hashes sample_hash (sample_target ''a'' 1) = replicate 40 5"
    "vnode_hashes sample_hash (sample_target ''b'' 1) = replicate 40 9"
    by (rule replicate_eqI;
        force simp: vnode_hashes_def vnode_count_def VNODE_FACTOR_def ring_id_def sample_hash_def)+
  then show ?thesis by (simp add: build_ring_from)
qed

lemma sample_pick:
  "pick_consistent_hash sample_hash [sample_target ''a'' 1, sample_target ''b'' 1] ''k'' = Some 1"
proof -
  let ?r = "replicate 40 (5 :: u64, 0 :: nat) @ replicate 40 (9, 1)"
  have "sort_key fst ?r = ?r"
    by (rule sort_key_id_if_sorted) (auto simp: sorted_append)
  moreover have "takeWhile (\<lambda>(h, _). h < 7) ?r = replicate 40 (5, 0)"
    by (subst takeWhile_append2) auto
  ultimately show ?thesis
    by (simp add: pick_consistent_hash_def sample_ring partition_point_def sample_hash_def
        nth_append)
qed

theorem consistent_hash_stable_witness:
  "\<exists>i'. pick_consistent_hash sample_hash
           (drop_index 0 [sample_target ''a'' 1, sample_target ''b'' 1]) ''k'' = Some i' \<and>
        i' < length (drop_index 0 [sample_target ''a'' 1, sample_target ''b'' 1]) \<and>
        drop_index 0 [sample_target ''a'' 1, sample_target ''b'' 1] ! i' = sample_target ''b'' 1"
  using consistent_hash_stable [OF sample_pick, of 0] by simp

text \<open>C30. Provider adjacency: inside the healthy primaries, and inside the healthy backups, all
routes of one server are contiguous in the attempt order, so that failover stays on one server
until its routes are used up.\<close>

theorem select_keeps_servers_adjacent:
  assumes "order = fst (select H plan registry ip now ctr)"
    "i < j" "j < k" "k < length order"
    "tier_of (plan_ejected H plan registry now) (order ! i) = n"
    "tier_of (plan_ejected H plan registry now) (order ! k) = n" "n \<le> 1"
    "server_id (order ! i) = server_id (order ! k)"
  shows "server_id (order ! j) = server_id (order ! i)"
proof -
  let ?ej = "plan_ejected H plan registry now" and ?t = "\<lambda>m. tier_list (plan_ejected H plan registry now) m (candidates plan)"
  obtain P B where order: "order = group_by_server_id P @ group_by_server_id B @ ?t 2 @ ?t 3"
    and P: "mset P = mset (?t 0)" and B: "mset B = mset (?t 1)"
    unfolding assms(1) select_tiers fst_conv by (metis order_tier_mset)
  have segment: "set (group_by_server_id P) = set (?t 0)" "set (group_by_server_id B) = set (?t 1)"
    by (metis P mset_group_by_server_id set_mset_mset, metis B mset_group_by_server_id set_mset_mset)
  then have tiers: "\<forall>c \<in> set (group_by_server_id P). tier_of ?ej c = 0"
    "\<forall>c \<in> set (group_by_server_id B @ ?t 2 @ ?t 3). tier_of ?ej c \<noteq> 0"
    "\<forall>c \<in> set (group_by_server_id B). tier_of ?ej c = 1"
    "\<forall>c \<in> set (?t 2 @ ?t 3). tier_of ?ej c \<noteq> 1"
    by (auto simp: tier_list_def)
  show ?thesis
  proof (cases "n = 0")
    case True
    show ?thesis
    proof (rule adjacent_segment [where f = "tier_of ?ej" and n = 0])
      show "order = [] @ group_by_server_id P @ (group_by_server_id B @ ?t 2 @ ?t 3)"
        using order by simp
    qed (use assms(2-8) tiers(2) True in simp_all)
  next
    case False
    then have "n = 1" using assms(7) by simp
    then show ?thesis
      using adjacent_segment [OF order assms(2-4), where f = "tier_of ?ej" and n = 1]
        tiers(1,4) assms(5,6,8) by auto
  qed
qed

definition sample_route :: "string \<Rightarrow> string \<Rightarrow> ForwardTarget" where
  "sample_route sid u = with_server_id sid (target_new u)"

definition sample_provider_plan :: ForwardPlan where
  "sample_provider_plan =
     (sample_plan [sample_route ''s'' ''a'', sample_route ''t'' ''b'',
                   sample_route ''s'' ''c'', sample_route ''s'' ''d''])\<lparr> balance := LeastTime \<rparr>"

lemma sample_provider_select:
  "fst (select sample_hash sample_provider_plan Map.empty None 0 0) =
     [sample_route ''s'' ''a'', sample_route ''s'' ''c'', sample_route ''s'' ''d'',
      sample_route ''t'' ''b'']"
  by (simp add: select_def order_tier_def group_by_server_id_def sample_provider_plan_def
      sample_route_def with_server_id_def target_new_def)

theorem select_keeps_servers_adjacent_witness:
  "server_id (fst (select sample_hash sample_provider_plan Map.empty None 0 0) ! 1) = Some ''s''"
proof -
  let ?o = "fst (select sample_hash sample_provider_plan Map.empty None 0 0)"
  have "tier_of (plan_ejected sample_hash sample_provider_plan Map.empty 0) (?o ! 0) = 0"
    "tier_of (plan_ejected sample_hash sample_provider_plan Map.empty 0) (?o ! 2) = 0"
    "server_id (?o ! 0) = Some ''s''" "server_id (?o ! 2) = Some ''s''" "length ?o = 4"
    by (simp_all add: sample_provider_select tier_of_def plan_ejected_def sample_route_def
        with_server_id_def target_new_def)
  then show ?thesis
    using select_keeps_servers_adjacent
      [of ?o sample_hash sample_provider_plan Map.empty None 0 0 0 1 2 0] by simp
qed

text \<open>The RTT order is a stable sort: \<open>apply_least_time_order\<close> permutes the candidates, puts them
in ascending position of their URL in the RTT list (URLs not in the list last), and keeps the
relative order of candidates of equal rank.\<close>

theorem least_time_order_stable_sort:
  assumes "us \<noteq> []"
  shows "mset (candidates (apply_least_time_order us plan)) = mset (candidates plan) \<and>
         sorted (map (target_rank us) (candidates (apply_least_time_order us plan))) \<and>
         (\<forall>r. filter (\<lambda>c. target_rank us c = r) (candidates (apply_least_time_order us plan))
            = filter (\<lambda>c. target_rank us c = r) (candidates plan))"
  using assms by (simp add: apply_least_time_order_sorts)

theorem least_time_order_stable_sort_witness:
  "mset (candidates (apply_least_time_order [''b''] (sample_plan [sample_target ''a'' 1, sample_target ''b'' 1])))
     = mset [sample_target ''a'' 1, sample_target ''b'' 1] \<and>
   candidates (apply_least_time_order [''b''] (sample_plan [sample_target ''a'' 1, sample_target ''b'' 1]))
     = [sample_target ''b'' 1, sample_target ''a'' 1]"
  using least_time_order_stable_sort
    [of "[''b'']" "sample_plan [sample_target ''a'' 1, sample_target ''b'' 1]"]
  by (simp add: apply_least_time_order_def target_rank_def url_rank_def)

text \<open>One unparsable candidate URL turns least-time balancing off for the whole group: the plan is
returned unchanged, whatever the RTT history says. The module comment promises the opposite.\<close>

theorem least_time_bad_url_disables_sort:
  assumes "c \<in> set (candidates plan)" "parse_norm (url c) = None"
  shows "apply_least_time_via_tunnel_mgr parse_norm lookup plan = plan"
  using assms by (auto simp: apply_least_time_via_tunnel_mgr_def list_ex_iff)

theorem least_time_bad_url_disables_sort_witness:
  "apply_least_time_via_tunnel_mgr (\<lambda>u. if u = ''bad'' then None else Some u) (\<lambda>_. Some [''b'', ''a''])
     ((sample_plan [sample_target ''a'' 1, sample_target ''b'' 1, sample_target ''bad'' 1])\<lparr> balance := LeastTime \<rparr>)
   = (sample_plan [sample_target ''a'' 1, sample_target ''b'' 1, sample_target ''bad'' 1])\<lparr> balance := LeastTime \<rparr>"
  by (rule least_time_bad_url_disables_sort [of "sample_target ''bad'' 1"])
     (simp_all add: sample_plan_def)

text \<open>C32. The round-robin counter is shared by the two healthy tiers. With two healthy primaries and
two healthy backups of weight one it advances by two per request, so that the first choice never
moves to the other primary: the next request gets the same attempt order.\<close>

theorem select_shared_counter_no_rotation:
  assumes "p \<noteq> q" "\<not> backup p" "\<not> backup q" "backup b" "backup d"
    "weight p = 1" "weight q = 1" "weight b = 1" "weight d = 1"
    "balance plan = RoundRobin" "candidates plan = [p, q, b, d]"
  shows "snd (select H plan Map.empty ip now ctr) = ctr + 2 \<and>
         fst (select H plan Map.empty ip' now' (ctr + 2)) = fst (select H plan Map.empty ip now ctr)"
proof -
  let ?ej = "\<lambda>now. plan_ejected H plan Map.empty now"
  have tiers: "tier_list (?ej now) 0 (candidates plan) = [p, q]"
    "tier_list (?ej now) 1 (candidates plan) = [b, d]"
    "tier_list (?ej now) 2 (candidates plan) = []" "tier_list (?ej now) 3 (candidates plan) = []" for now
    using assms by (simp_all add: tier_list_def tier_of_def plan_ejected_def)
  have parity: "unat (c + 2) mod 2 = unat c mod 2" for c :: u64
    by (simp add: unat_word_ariths mod_mod_cancel)
  have rr: "order_tier H RoundRobin ip key [x, y] c = (rotate_left (unat c mod 2) [x, y], c + 1)"
    if "weight x = 1" "weight y = 1" for x y key c ip
  proof -
    have "unat c mod 2 = 0 \<or> unat c mod 2 = 1" by auto
    then show ?thesis
      using that by (auto simp: order_tier_def pick_weighted_round_robin_def total_weight_def Let_def
          simp flip: numeral_2_eq_2)
  qed
  have eq: "fst (select H plan Map.empty ip now c) =
      group_by_server_id (rotate_left (unat c mod 2) [p, q]) @
      group_by_server_id (rotate_left (unat (c + 1) mod 2) [b, d])"
    "snd (select H plan Map.empty ip now c) = c + 2" for c ip now
    unfolding select_tiers tiers using assms by (simp_all add: rr)
  show ?thesis
    using parity [of "ctr + 1"] by (simp add: eq parity add.commute add.left_commute)
qed

definition sample_backup_plan :: ForwardPlan where
  "sample_backup_plan =
     sample_plan [sample_target ''a'' 1, sample_target ''b'' 1,
                  as_backup (sample_target ''c'' 1), as_backup (sample_target ''d'' 1)]"

theorem select_shared_counter_no_rotation_witness:
  "fst (select (\<lambda>_. 0) sample_backup_plan Map.empty None 9 2)
   = fst (select (\<lambda>_. 0) sample_backup_plan Map.empty None 8 0)"
  using select_shared_counter_no_rotation
    [of "sample_target ''a'' 1" "sample_target ''b'' 1" "as_backup (sample_target ''c'' 1)"
        "as_backup (sample_target ''d'' 1)" sample_backup_plan "\<lambda>_. 0" None 8 0 None 9]
  by (simp add: sample_backup_plan_def as_backup_def)

end
