(* ===== verification/Fwd_Exec.thy ===== *)
theory Fwd_Exec
  imports Fwd_Select
begin

text \<open>The three executors of a forward group: \<open>stream_forward_group\<close> and \<open>datagram_forward_group\<close>
(\<open>stack/mod.rs\<close>) and the HTTP executor (\<open>server/http_server.rs\<close>: \<open>handle_forward_group_upstream\<close>,
its connect-only and its status-retry walk, and \<open>buffer_body\<close>).

What the network does is an input: for every candidate index an observation gives the clock
readings the code takes and the outcome of the attempt. Each walk returns the calls it made, so
that the number, order and budgets of the attempts are part of the result.\<close>

section \<open>Connection-stage walk of the stacks\<close>

datatype stack_error =
    InvalidForwardUrl string
  | OpenUpstreamFailed string
  | NextUpstreamTimeoutExceeded nat
  | ExhaustedCandidates
  | DataPhaseError string

datatype 's open_outcome = Opened 's | ConnectTimeout | OpenFailed

text \<open>Observation of one attempt: the clock at the deadline check, the clock when the budget is
computed, the outcome of the open under that budget, the clock inside \<open>record_failure\<close>.\<close>

record 's open_obs =
  at_check :: instant
  at_budget :: instant
  outcome_of :: "duration \<Rightarrow> 's open_outcome"
  at_record :: instant

record 's walk_result =
  chosen :: "(nat \<times> 's \<times> string) option"
  last_err :: "stack_error option"
  walk_registry :: ForwardFailureRegistry
  opens :: "(string \<times> duration) list"

definition policy_max_attempts :: "NextUpstreamPolicy \<Rightarrow> nat \<Rightarrow> nat" where
  "policy_max_attempts policy candidate_count =
     (if \<not> is_enabled policy then max (min candidate_count 1) 1
      else if unat (tries policy) = 0 then candidate_count
      else min (unat (tries policy)) candidate_count)"

definition should_continue :: "NextUpstreamPolicy \<Rightarrow> nat \<Rightarrow> nat \<Rightarrow> NextUpstreamCondition \<Rightarrow> bool" where
  "should_continue policy attempted_idx max_attempts cond =
     (if \<not> is_enabled policy then False
      else if \<not> allows policy cond then False
      else attempted_idx + 1 < max_attempts)"

definition deadline_passed :: "instant option \<Rightarrow> instant \<Rightarrow> bool" where
  "deadline_passed deadline now = (case deadline of Some d \<Rightarrow> d \<le> now | None \<Rightarrow> False)"

definition attempt_budget :: "instant option \<Rightarrow> instant \<Rightarrow> duration \<Rightarrow> duration" where
  "attempt_budget deadline now connect_timeout =
     (case deadline of Some d \<Rightarrow> min (d - now) connect_timeout | None \<Rightarrow> connect_timeout)"

fun open_condition :: "'s open_outcome \<Rightarrow> NextUpstreamCondition" where
  "open_condition ConnectTimeout = Timeout"
| "open_condition _ = Error"

text \<open>The candidate loop shared by the two stack executors; \<open>url_ok\<close> is the success of \<open>Url::parse\<close>.\<close>

fun candidate_walk ::
    "(string \<Rightarrow> bool) \<Rightarrow> NextUpstreamPolicy \<Rightarrow> string \<Rightarrow> nat \<Rightarrow> instant option \<Rightarrow> duration \<Rightarrow>
     (nat \<Rightarrow> 's open_obs) \<Rightarrow> nat \<Rightarrow> ForwardTarget list \<Rightarrow> 's walk_result \<Rightarrow> 's walk_result" where
  "candidate_walk url_ok policy key max_attempts deadline connect_timeout obs idx [] st = st"
| "candidate_walk url_ok policy key max_attempts deadline connect_timeout obs idx (c # cs) st =
     (if idx \<ge> max_attempts then st
      else if deadline_passed deadline (at_check (obs idx)) then
        st\<lparr> last_err := (case last_err st of None \<Rightarrow> Some (NextUpstreamTimeoutExceeded idx) | e \<Rightarrow> e) \<rparr>
      else if \<not> url_ok (url c) then
        (let st = st\<lparr> last_err := Some (InvalidForwardUrl (url c)),
                      walk_registry := record_failure (walk_registry st) key (url c) (max_fails c)
                        (fail_timeout c) (at_record (obs idx)) \<rparr>
         in if \<not> should_continue policy idx max_attempts Error then st
            else candidate_walk url_ok policy key max_attempts deadline connect_timeout obs (Suc idx) cs st)
      else
        (let budget = attempt_budget deadline (at_budget (obs idx)) connect_timeout;
             result = outcome_of (obs idx) budget;
             cond = open_condition result;
             st = st\<lparr> opens := opens st @ [(url c, budget)] \<rparr>
         in case result of
              Opened s \<Rightarrow>
                st\<lparr> walk_registry := record_success (walk_registry st) key (url c),
                    chosen := Some (idx, s, url c) \<rparr>
            | _ \<Rightarrow>
                (let st = st\<lparr> walk_registry := record_failure (walk_registry st) key (url c) (max_fails c)
                                (fail_timeout c) (at_record (obs idx)),
                              last_err := Some (OpenUpstreamFailed (url c)) \<rparr>
                 in if \<not> should_continue policy idx max_attempts cond then st
                    else candidate_walk url_ok policy key max_attempts deadline connect_timeout obs (Suc idx) cs st)))"

definition walk_start :: "ForwardFailureRegistry \<Rightarrow> 's walk_result" where
  "walk_start reg = \<lparr> chosen = None, last_err = None, walk_registry = reg, opens = [] \<rparr>"

text \<open>The environment of an executor call: the hash, the URL parser, the tunnel manager's RTT answer,
the clock when the deadline is fixed, the observations, and the data phase (the PROXY preamble and
the bidirectional copy) on the chosen connection.\<close>

record 's exec_env =
  env_hash :: "string \<Rightarrow> u64"
  env_url_ok :: "string \<Rightarrow> bool"
  env_parse_norm :: "string \<Rightarrow> string option"
  env_lookup :: "string list \<Rightarrow> string list option"
  env_start :: instant
  env_obs :: "nat \<Rightarrow> 's open_obs"
  env_relay :: "'s \<Rightarrow> string \<Rightarrow> (stack_error, unit) result"

definition local_plan :: "'s exec_env \<Rightarrow> ForwardPlan \<Rightarrow> ForwardPlan" where
  "local_plan env plan =
     (if balance plan = LeastTime
      then apply_least_time_via_tunnel_mgr (env_parse_norm env) (env_lookup env) plan else plan)"

definition group_walk ::
    "'s exec_env \<Rightarrow> ForwardPlan \<Rightarrow> duration \<Rightarrow> ForwardFailureRegistry \<Rightarrow> 's walk_result" where
  "group_walk env plan connect_timeout reg =
     (let plan = local_plan env plan;
          policy = next_upstream plan
      in candidate_walk (env_url_ok env) policy (failure_state_key (env_hash env) plan)
           (policy_max_attempts policy (length (candidates plan)))
           (map_option (\<lambda>d. env_start env + d) (policy_timeout policy))
           connect_timeout (env_obs env) 0 (candidates plan) (walk_start reg))"

definition stream_forward_group ::
    "'s exec_env \<Rightarrow> ForwardPlan \<Rightarrow> duration \<Rightarrow> ForwardFailureRegistry \<Rightarrow>
     (stack_error, unit) result \<times> 's walk_result" where
  "stream_forward_group env plan connect_timeout reg =
     (let w = group_walk env plan connect_timeout reg in
      case chosen w of
        Some (idx, s, u) \<Rightarrow> (env_relay env s u, w)
      | None \<Rightarrow> (Inl (case last_err w of Some e \<Rightarrow> e | None \<Rightarrow> ExhaustedCandidates), w))"

definition datagram_forward_group ::
    "'s exec_env \<Rightarrow> ForwardPlan \<Rightarrow> duration \<Rightarrow> ForwardFailureRegistry \<Rightarrow>
     (stack_error, unit) result \<times> 's walk_result" where
  "datagram_forward_group env plan connect_timeout reg =
     (let w = group_walk env plan connect_timeout reg in
      case chosen w of
        Some (idx, s, u) \<Rightarrow> (env_relay env s u, w)
      | None \<Rightarrow> (Inl (case last_err w of Some e \<Rightarrow> e | None \<Rightarrow> ExhaustedCandidates), w))"

section \<open>HTTP executor\<close>

datatype http_error =
    AttemptError string
  | AttemptTimedOut string
  | HttpNextUpstreamTimeout nat
  | HttpExhausted
  | BodyTooLarge u64
  | BodyReadError
  | BodyIdleTimeout

text \<open>Observation of \<open>forward_to_candidate\<close>: its result and stage-timeout flag if it runs to the end,
how long that takes, and after which time, if ever, it takes the request out of \<open>req_slot\<close>.\<close>

record 'r http_obs =
  http_at_check :: instant
  http_at_remaining :: instant
  http_reply :: "(http_error, u16 \<times> 'r) result"
  stage_timed_out :: bool
  reply_after :: duration
  body_taken_after :: "duration option"
  http_at_record :: instant

definition body_taken :: "'r http_obs \<Rightarrow> duration \<Rightarrow> bool" where
  "body_taken ob elapsed = (case body_taken_after ob of Some t \<Rightarrow> t \<le> elapsed | None \<Rightarrow> False)"

text \<open>One attempt under the overall deadline: the result, the condition it counts as, and whether the
body has left the slot.\<close>

definition http_attempt ::
    "instant option \<Rightarrow> string \<Rightarrow> 'r http_obs \<Rightarrow>
     (http_error, u16 \<times> 'r) result \<times> NextUpstreamCondition \<times> bool" where
  "http_attempt deadline u ob =
     (let done = (http_reply ob, if stage_timed_out ob then Timeout else Error,
                  body_taken ob (reply_after ob))
      in case deadline of
           Some d \<Rightarrow>
             (let remaining = d - http_at_remaining ob in
              if reply_after ob \<le> remaining then done
              else (Inl (AttemptTimedOut u), Timeout, body_taken ob remaining))
         | None \<Rightarrow> done)"

text \<open>An attempt as recorded: candidate URL and whether the request body was handed over.\<close>

type_synonym sends = "(string \<times> bool) list"

fun connect_only_walk ::
    "NextUpstreamPolicy \<Rightarrow> string \<Rightarrow> nat \<Rightarrow> instant option \<Rightarrow> (nat \<Rightarrow> 'r http_obs) \<Rightarrow>
     nat \<Rightarrow> ForwardTarget list \<Rightarrow> http_error option \<Rightarrow> ForwardFailureRegistry \<Rightarrow> sends \<Rightarrow>
     (http_error, u16 \<times> 'r) result \<times> ForwardFailureRegistry \<times> sends" where
  "connect_only_walk policy key max_attempts deadline obs idx [] err reg log =
     (Inl (case err of Some e \<Rightarrow> e | None \<Rightarrow> HttpExhausted), reg, log)"
| "connect_only_walk policy key max_attempts deadline obs idx (c # cs) err reg log =
     (if idx \<ge> max_attempts then (Inl (case err of Some e \<Rightarrow> e | None \<Rightarrow> HttpExhausted), reg, log)
      else if deadline_passed deadline (http_at_check (obs idx)) then
        (Inl (case err of Some e \<Rightarrow> e | None \<Rightarrow> HttpNextUpstreamTimeout idx), reg, log)
      else
        (let (res, cond, taken) = http_attempt deadline (url c) (obs idx);
             log = log @ [(url c, taken)]
         in case res of
              Inr resp \<Rightarrow> (Inr resp, record_success reg key (url c), log)
            | Inl e \<Rightarrow>
                (let reg = record_failure reg key (url c) (max_fails c) (fail_timeout c)
                             (http_at_record (obs idx))
                 in if taken then (Inl e, reg, log)
                    else if \<not> is_enabled policy \<or> \<not> allows policy cond \<or> idx + 1 \<ge> max_attempts
                    then (Inl e, reg, log)
                    else connect_only_walk policy key max_attempts deadline obs (Suc idx) cs (Some e) reg log)))"

fun status_retry_walk ::
    "NextUpstreamPolicy \<Rightarrow> string \<Rightarrow> nat \<Rightarrow> instant option \<Rightarrow> (nat \<Rightarrow> 'r http_obs) \<Rightarrow>
     nat \<Rightarrow> ForwardTarget list \<Rightarrow> http_error option \<Rightarrow> (u16 \<times> 'r) option \<Rightarrow>
     ForwardFailureRegistry \<Rightarrow> sends \<Rightarrow>
     (http_error, u16 \<times> 'r) result \<times> ForwardFailureRegistry \<times> sends" where
  "status_retry_walk policy key max_attempts deadline obs idx [] err last_resp reg log =
     (case last_resp of Some r \<Rightarrow> Inr r
      | None \<Rightarrow> Inl (case err of Some e \<Rightarrow> e | None \<Rightarrow> HttpExhausted), reg, log)"
| "status_retry_walk policy key max_attempts deadline obs idx (c # cs) err last_resp reg log =
     (let finish = (\<lambda>err. case last_resp of Some r \<Rightarrow> Inr r
                     | None \<Rightarrow> Inl (case err of Some e \<Rightarrow> e | None \<Rightarrow> HttpExhausted)) in
      if idx \<ge> max_attempts then (finish err, reg, log)
      else if deadline_passed deadline (http_at_check (obs idx)) then
        (finish (case err of Some e \<Rightarrow> Some e | None \<Rightarrow> Some (HttpNextUpstreamTimeout idx)), reg, log)
      else
        (let (res, cond, taken) = http_attempt deadline (url c) (obs idx);
             log = log @ [(url c, taken)];
             failed = record_failure reg key (url c) (max_fails c) (fail_timeout c)
                        (http_at_record (obs idx))
         in case res of
              Inr (status, r) \<Rightarrow>
                if matches_http_status policy status \<and> idx + 1 < max_attempts
                then status_retry_walk policy key max_attempts deadline obs (Suc idx) cs err
                       (Some (status, r)) failed log
                else (Inr (status, r), record_success reg key (url c), log)
            | Inl e \<Rightarrow>
                if \<not> allows policy cond \<or> idx + 1 \<ge> max_attempts then (finish (Some e), failed, log)
                else status_retry_walk policy key max_attempts deadline obs (Suc idx) cs (Some e)
                       last_resp failed log))"

text \<open>\<open>buffer_body\<close>: the frames of the body in order; the end of the list is the end of the stream.\<close>

datatype body_frame = Data "u8 list" | Trailers | FrameError | FrameIdle

fun buffer_body :: "nat \<Rightarrow> u8 list \<Rightarrow> bool \<Rightarrow> body_frame list \<Rightarrow> (http_error, u8 list option) result" where
  "buffer_body cap buffered exceeded [] = (if exceeded then Inr None else Inr (Some buffered))"
| "buffer_body cap buffered exceeded (Trailers # fs) = buffer_body cap buffered exceeded fs"
| "buffer_body cap buffered exceeded (Data d # fs) =
     (if exceeded then buffer_body cap buffered exceeded fs
      else if length buffered + length d > cap then buffer_body cap [] True fs
      else buffer_body cap (buffered @ d) exceeded fs)"
| "buffer_body cap buffered exceeded (FrameError # fs) = Inl BodyReadError"
| "buffer_body cap buffered exceeded (FrameIdle # fs) = Inl BodyIdleTimeout"

text \<open>A request as the executor sees it: method, whether it asks for an upgrade, body frames.\<close>

record http_request =
  req_method :: string
  req_upgrade :: bool
  req_body :: "body_frame list"

record 'r http_env =
  http_hash :: "string \<Rightarrow> u64"
  http_parse_norm :: "string \<Rightarrow> string option"
  http_lookup :: "string list \<Rightarrow> string list option"
  http_start :: instant
  http_observe :: "nat \<Rightarrow> 'r http_obs"

definition http_status_retry_armed :: "NextUpstreamPolicy \<Rightarrow> http_request \<Rightarrow> bool" where
  "http_status_retry_armed policy req =
     (let method_class = classify (req_method req);
          method_replay_allowed = is_idempotent method_class \<or> allow_non_idempotent policy
      in is_enabled policy \<and> any_http_status policy \<and> method_replay_allowed \<and>
         max_body_buffer_bytes policy > 0 \<and> \<not> req_upgrade req)"

definition handle_forward_group_connect_only ::
    "'r http_env \<Rightarrow> ForwardPlan \<Rightarrow> ForwardFailureRegistry \<Rightarrow>
     (http_error, u16 \<times> 'r) result \<times> ForwardFailureRegistry \<times> sends" where
  "handle_forward_group_connect_only env plan reg =
     (let policy = next_upstream plan in
      connect_only_walk policy (failure_state_key (http_hash env) plan)
        (policy_max_attempts policy (length (candidates plan)))
        (map_option (\<lambda>d. http_start env + d) (policy_timeout policy))
        (http_observe env) 0 (candidates plan) None reg [])"

definition handle_forward_group_with_status_retry ::
    "'r http_env \<Rightarrow> ForwardPlan \<Rightarrow> http_request \<Rightarrow> ForwardFailureRegistry \<Rightarrow>
     (http_error, u16 \<times> 'r) result \<times> ForwardFailureRegistry \<times> sends" where
  "handle_forward_group_with_status_retry env plan req reg =
     (let policy = next_upstream plan in
      case buffer_body (unat (max_body_buffer_bytes policy)) [] False (req_body req) of
        Inl e \<Rightarrow> (Inl e, reg, [])
      | Inr None \<Rightarrow> (Inl (BodyTooLarge (max_body_buffer_bytes policy)), reg, [])
      | Inr (Some b) \<Rightarrow>
          status_retry_walk policy (failure_state_key (http_hash env) plan)
            (policy_max_attempts policy (length (candidates plan)))
            (map_option (\<lambda>d. http_start env + d) (policy_timeout policy))
            (http_observe env) 0 (candidates plan) None None reg [])"

definition handle_forward_group_upstream ::
    "'r http_env \<Rightarrow> ForwardPlan \<Rightarrow> http_request \<Rightarrow> ForwardFailureRegistry \<Rightarrow>
     (http_error, u16 \<times> 'r) result \<times> ForwardFailureRegistry \<times> sends" where
  "handle_forward_group_upstream env plan req reg =
     (let plan = (if balance plan = LeastTime
                  then apply_least_time_via_tunnel_mgr (http_parse_norm env) (http_lookup env) plan
                  else plan)
      in if http_status_retry_armed (next_upstream plan) req
         then handle_forward_group_with_status_retry env plan req reg
         else handle_forward_group_connect_only env plan reg)"

section \<open>The connection-stage walk\<close>

text \<open>Why an attempt at candidate \<open>c\<close> failed, if it did.\<close>

definition attempt_failure ::
    "(string \<Rightarrow> bool) \<Rightarrow> instant option \<Rightarrow> duration \<Rightarrow> 's open_obs \<Rightarrow> ForwardTarget \<Rightarrow>
     NextUpstreamCondition option" where
  "attempt_failure url_ok deadline ct ob c =
     (if \<not> url_ok (url c) then Some Error
      else case outcome_of ob (attempt_budget deadline (at_budget ob) ct) of
        Opened s \<Rightarrow> None | ConnectTimeout \<Rightarrow> Some Timeout | OpenFailed \<Rightarrow> Some Error)"

text \<open>The walk passes over a candidate: it was attempted in time and failed in a way that allows the
next one.\<close>

definition passes_over ::
    "(string \<Rightarrow> bool) \<Rightarrow> NextUpstreamPolicy \<Rightarrow> nat \<Rightarrow> instant option \<Rightarrow> duration \<Rightarrow>
     (nat \<Rightarrow> 's open_obs) \<Rightarrow> nat \<Rightarrow> ForwardTarget \<Rightarrow> bool" where
  "passes_over url_ok policy max_attempts deadline ct obs j c =
     (\<not> deadline_passed deadline (at_check (obs j)) \<and>
      (case attempt_failure url_ok deadline ct (obs j) c of
         Some cond \<Rightarrow> should_continue policy j max_attempts cond | None \<Rightarrow> False))"

definition opens_at ::
    "(string \<Rightarrow> bool) \<Rightarrow> instant option \<Rightarrow> duration \<Rightarrow> (nat \<Rightarrow> 's open_obs) \<Rightarrow> nat \<Rightarrow>
     ForwardTarget \<Rightarrow> 's \<Rightarrow> bool" where
  "opens_at url_ok deadline ct obs j c s =
     (\<not> deadline_passed deadline (at_check (obs j)) \<and> url_ok (url c) \<and>
      outcome_of (obs j) (attempt_budget deadline (at_budget (obs j)) ct) = Opened s)"

lemma should_continue_less: "should_continue policy j m cond \<Longrightarrow> j + 1 < m"
  by (simp add: should_continue_def split: if_splits)

lemma passes_over_less: "passes_over url_ok policy m deadline ct obs j c \<Longrightarrow> j + 1 < m"
  by (auto simp: passes_over_def dest: should_continue_less split: option.splits)

declare candidate_walk.simps(2) [simp del]

lemma candidate_walk_limit [simp]:
  "m \<le> idx \<Longrightarrow> candidate_walk url_ok policy key m deadline ct obs idx cs st = st"
  by (cases cs) (simp_all add: candidate_walk.simps(2))

text \<open>One step of the walk: either it goes on with the next candidate, or it ends here.\<close>

lemma candidate_walk_cases:
  assumes "idx < m"
  obtains (over) st' where "passes_over url_ok policy m deadline ct obs idx c"
      "candidate_walk url_ok policy key m deadline ct obs idx (c # cs) st
       = candidate_walk url_ok policy key m deadline ct obs (Suc idx) cs st'"
      "chosen st' = chosen st"
      "walk_registry st' = record_failure (walk_registry st) key (url c) (max_fails c) (fail_timeout c)
         (at_record (obs idx))"
      "opens st' = opens st @ (if url_ok (url c)
         then [(url c, attempt_budget deadline (at_budget (obs idx)) ct)] else [])"
      "last_err st' \<noteq> None"
  | (opened) s st' where "opens_at url_ok deadline ct obs idx c s"
      "\<not> passes_over url_ok policy m deadline ct obs idx c"
      "candidate_walk url_ok policy key m deadline ct obs idx (c # cs) st = st'"
      "chosen st' = Some (idx, s, url c)"
      "walk_registry st' = record_success (walk_registry st) key (url c)"
      "opens st' = opens st @ [(url c, attempt_budget deadline (at_budget (obs idx)) ct)]"
  | (stop) st' where "\<not> passes_over url_ok policy m deadline ct obs idx c"
      "\<forall>s. \<not> opens_at url_ok deadline ct obs idx c s"
      "candidate_walk url_ok policy key m deadline ct obs idx (c # cs) st = st'"
      "chosen st' = chosen st" "last_err st' \<noteq> None"
      "walk_registry st' = walk_registry st \<or>
       walk_registry st' = record_failure (walk_registry st) key (url c) (max_fails c) (fail_timeout c)
         (at_record (obs idx))"
      "opens st' = opens st \<or>
       opens st' = opens st @ [(url c, attempt_budget deadline (at_budget (obs idx)) ct)] \<and> url_ok (url c)"
proof (cases "deadline_passed deadline (at_check (obs idx))")
  case True
  then show ?thesis
    using assms by (intro stop [OF _ _ refl])
      (auto simp: candidate_walk.simps(2) passes_over_def opens_at_def split: option.split)
next
  case intime: False
  let ?b = "attempt_budget deadline (at_budget (obs idx)) ct"
  let ?failed = "\<lambda>st. st\<lparr> walk_registry := record_failure (walk_registry st) key (url c) (max_fails c)
    (fail_timeout c) (at_record (obs idx)) \<rparr>"
  show ?thesis
  proof (cases "attempt_failure url_ok deadline ct (obs idx) c")
    case None
    then obtain s where "url_ok (url c)" "outcome_of (obs idx) ?b = Opened s"
      by (auto simp: attempt_failure_def split: if_splits open_outcome.splits)
    then show ?thesis
      using assms intime None
      by (intro opened [of s, OF _ _ refl])
         (auto simp: candidate_walk.simps(2) passes_over_def opens_at_def)
  next
    case (Some cond)
    let ?err = "if url_ok (url c) then OpenUpstreamFailed (url c) else InvalidForwardUrl (url c)"
    let ?st = "(?failed st)\<lparr> last_err := Some ?err,
      opens := opens st @ (if url_ok (url c) then [(url c, ?b)] else []) \<rparr>"
    have no_open: "\<forall>s. \<not> opens_at url_ok deadline ct obs idx c s"
      using Some by (auto simp: attempt_failure_def opens_at_def)
    have step: "candidate_walk url_ok policy key m deadline ct obs idx (c # cs) st =
       (if should_continue policy idx m cond
        then candidate_walk url_ok policy key m deadline ct obs (Suc idx) cs ?st else ?st)"
      using assms intime Some
      by (cases st; cases "outcome_of (obs idx) ?b") 
         (auto simp: candidate_walk.simps(2) attempt_failure_def split: if_splits)
    show ?thesis
    proof (cases "should_continue policy idx m cond")
      case True
      then show ?thesis
        using step intime Some by (intro over [of ?st]) (auto simp: passes_over_def)
    next
      case False
      then show ?thesis
        using step no_open Some by (intro stop [of ?st]) (auto simp: passes_over_def)
    qed
  qed
qed

text \<open>Exact description of the chosen candidate.\<close>

lemma candidate_walk_chosen_iff:
  assumes "chosen st = None"
  shows "chosen (candidate_walk url_ok policy key m deadline ct obs idx cs st) = Some (i, s, u) \<longleftrightarrow>
     (\<exists>k < length cs. i = idx + k \<and> i < m \<and> u = url (cs ! k) \<and>
        (\<forall>j < k. passes_over url_ok policy m deadline ct obs (idx + j) (cs ! j)) \<and>
        opens_at url_ok deadline ct obs i (cs ! k) s)"
  using assms
proof (induction cs arbitrary: idx st)
  case (Cons c cs)
  have not_both: "\<not> passes_over url_ok policy m deadline ct obs idx c"
    if "opens_at url_ok deadline ct obs idx c t" for t
    using that by (auto simp: passes_over_def opens_at_def attempt_failure_def)
  let ?P = "\<lambda>idx cs k. i = idx + k \<and> i < m \<and> u = url (cs ! k) \<and>
        (\<forall>j < k. passes_over url_ok policy m deadline ct obs (idx + j) (cs ! j)) \<and>
        opens_at url_ok deadline ct obs i (cs ! k) s"
  have split: "(\<exists>k < length (c # cs). ?P idx (c # cs) k) \<longleftrightarrow>
      (i = idx \<and> idx < m \<and> u = url c \<and> opens_at url_ok deadline ct obs idx c s) \<or>
      (passes_over url_ok policy m deadline ct obs idx c \<and> (\<exists>k < length cs. ?P (Suc idx) cs k))"
    by (auto simp: Ex_less_Suc2 All_less_Suc2)
  show ?case
  proof (cases "idx < m")
    case False
    then have "\<not> (\<exists>k < length (c # cs). ?P idx (c # cs) k)" by auto
    then show ?thesis using False Cons.prems by (simp add: not_less)
  next
    case True
    then show ?thesis
    proof (cases rule: candidate_walk_cases [where url_ok = url_ok and policy = policy and key = key
          and deadline = deadline and ct = ct and obs = obs and c = c and cs = cs and st = st])
      case (over st')
      then show ?thesis
        unfolding split using Cons.IH [of st' "Suc idx"] Cons.prems not_both by auto
    next
      case (opened t st')
      then show ?thesis
        unfolding split using True not_both by (auto simp: opens_at_def)
    next
      case (stop st')
      then show ?thesis
        unfolding split using Cons.prems by auto
    qed
  qed
qed simp

text \<open>The calls made: a prefix of the candidates with parsable URLs, within the attempt limit, none
above the connect timeout.\<close>

lemma candidate_walk_opens:
  "\<exists>n new. opens (candidate_walk url_ok policy key m deadline ct obs idx cs st) = opens st @ new \<and>
     n \<le> m - idx \<and> map fst new = filter url_ok (map url (take n cs)) \<and> (\<forall>(u, b) \<in> set new. b \<le> ct)"
proof (induction cs arbitrary: idx st)
  case Nil
  then show ?case by (intro exI [of _ 0] exI [of _ "[]"]) simp
next
  case (Cons c cs)
  have budget: "attempt_budget deadline t ct \<le> ct" for t
    by (simp add: attempt_budget_def split: option.split)
  show ?case
  proof (cases "idx < m")
    case False
    then show ?thesis by (intro exI [of _ 0] exI [of _ "[]"]) (simp add: not_less)
  next
    case True
    then show ?thesis
    proof (cases rule: candidate_walk_cases [where url_ok = url_ok and policy = policy and key = key
          and deadline = deadline and ct = ct and obs = obs and c = c and cs = cs and st = st])
      case (over st')
      obtain n new where "opens (candidate_walk url_ok policy key m deadline ct obs (Suc idx) cs st')
          = opens st' @ new" "n \<le> m - Suc idx" "map fst new = filter url_ok (map url (take n cs))"
          "\<forall>(u, b) \<in> set new. b \<le> ct"
        using Cons.IH [of "Suc idx" st'] by blast
      then show ?thesis
        using over True budget
        by (intro exI [of _ "Suc n"] exI [of _ "(if url_ok (url c)
              then [(url c, attempt_budget deadline (at_budget (obs idx)) ct)] else []) @ new"]) auto
    next
      case (opened t st')
      then show ?thesis
        using True budget
        by (intro exI [of _ 1] exI [of _ "[(url c, attempt_budget deadline (at_budget (obs idx)) ct)]"])
           (auto simp: opens_at_def)
    next
      case (stop st')
      from stop(7) show ?thesis
      proof
        assume "opens st' = opens st"
        then show ?thesis using stop(3) by (intro exI [of _ 0] exI [of _ "[]"]) simp
      next
        assume "opens st' = opens st @ [(url c, attempt_budget deadline (at_budget (obs idx)) ct)] \<and> url_ok (url c)"
        then show ?thesis
          using stop(3) True budget
          by (intro exI [of _ 1] exI [of _ "[(url c, attempt_budget deadline (at_budget (obs idx)) ct)]"]) auto
      qed
    qed
  qed
qed

text \<open>What the walk does to the registry: nothing to candidates it does not hold, and the chosen one
is cleared. Both follow from the registry contract.\<close>

lemma candidate_walk_frame:
  assumes "v \<notin> url ` set cs"
  shows "is_ejected (walk_registry (candidate_walk url_ok policy key m deadline ct obs idx cs st)) key v now
       = is_ejected (walk_registry st) key v now"
  using assms
proof (induction cs arbitrary: idx st)
  case (Cons c cs)
  then have ne: "url c \<noteq> v" by auto
  show ?case
  proof (cases "idx < m")
    case True
    then show ?thesis
    proof (cases rule: candidate_walk_cases [where url_ok = url_ok and policy = policy and key = key
          and deadline = deadline and ct = ct and obs = obs and c = c and cs = cs and st = st])
      case (over st')
      then show ?thesis
        using Cons.IH [of "Suc idx" st'] Cons.prems reg.failure_frame [OF ne] by simp
    next
      case (opened t st')
      then show ?thesis using reg.success_frame [OF ne] by simp
    next
      case (stop st')
      then show ?thesis using reg.failure_frame [OF ne] by auto
    qed
  qed simp
qed simp

lemma candidate_walk_chosen_cleared:
  assumes "chosen st = None"
    "chosen (candidate_walk url_ok policy key m deadline ct obs idx cs st) = Some (i, s, u)"
  shows "\<not> is_ejected (walk_registry (candidate_walk url_ok policy key m deadline ct obs idx cs st)) key u now"
  using assms
proof (induction cs arbitrary: idx st)
  case (Cons c cs)
  have "idx < m" using Cons.prems by (cases "idx < m") auto
  then show ?case
  proof (cases rule: candidate_walk_cases [where url_ok = url_ok and policy = policy and key = key
        and deadline = deadline and ct = ct and obs = obs and c = c and cs = cs and st = st])
    case (over st')
    then show ?thesis using Cons.IH [of st' "Suc idx"] Cons.prems by simp
  next
    case (opened t st')
    then show ?thesis using Cons.prems reg.success_clears by simp
  next
    case (stop st')
    then show ?thesis using Cons.prems by simp
  qed
qed simp

lemma policy_max_attempts_bound:
  "policy_max_attempts policy n \<le> max n 1"
  "is_enabled policy \<Longrightarrow> policy_max_attempts policy n \<le> unat (tries policy)"
  "\<not> is_enabled policy \<Longrightarrow> policy_max_attempts policy n = 1"
  by (auto simp: policy_max_attempts_def is_enabled_def unat_0_iff)

section \<open>HTTP walks\<close>

lemma http_attempt_taken_on_reply:
  assumes "body_taken_after ob = Some t" "t \<le> reply_after ob" "http_attempt deadline u ob = (Inr r, cond, taken)"
  shows taken
  using assms by (auto simp: http_attempt_def body_taken_def Let_def split: option.splits if_splits)

lemma connect_only_sends:
  assumes "\<forall>(u, taken) \<in> set log. \<not> taken"
  shows "\<exists>new. snd (snd (connect_only_walk policy key m deadline obs idx cs err reg log)) = log @ new \<and>
     length new \<le> m - idx \<and> map fst new = map url (take (length new) cs) \<and>
     (\<forall>(u, taken) \<in> set (butlast new). \<not> taken)"
  using assms
proof (induction cs arbitrary: idx err reg log)
  case (Cons c cs)
  show ?case
  proof (cases "idx < m \<and> \<not> deadline_passed deadline (http_at_check (obs idx))")
    case False
    then show ?thesis by (intro exI [of _ "[]"]) auto
  next
    case True
    obtain res cond taken where att: "http_attempt deadline (url c) (obs idx) = (res, cond, taken)"
      by (cases "http_attempt deadline (url c) (obs idx)")
    show ?thesis
    proof (cases "\<exists>e. res = Inl e \<and> \<not> taken \<and> is_enabled policy \<and> allows policy cond \<and> idx + 1 < m")
      case go: True
      then obtain e where e: "res = Inl e" by auto
      let ?reg = "record_failure reg key (url c) (max_fails c) (fail_timeout c) (http_at_record (obs idx))"
      have "\<forall>(u, taken) \<in> set (log @ [(url c, False)]). \<not> taken" using Cons.prems by auto
      from Cons.IH [OF this, of "Suc idx" "Some e" ?reg] obtain new where new:
        "snd (snd (connect_only_walk policy key m deadline obs (Suc idx) cs (Some e) ?reg (log @ [(url c, False)])))
           = (log @ [(url c, False)]) @ new"
        "length new \<le> m - Suc idx" "map fst new = map url (take (length new) cs)"
        "\<forall>(u, taken) \<in> set (butlast new). \<not> taken"
        by blast
      then show ?thesis
        using True go att e by (intro exI [of _ "(url c, False) # new"]) auto
    next
      case False
      then show ?thesis
        using True att
        by (intro exI [of _ "[(url c, taken)]"]) (auto simp: Let_def not_less split: sum.splits)
    qed
  qed
qed (intro exI [of _ "[]"], simp)

lemma connect_only_at_most_one_send:
  "length (filter snd (snd (snd (connect_only_walk policy key m deadline obs idx cs err reg [])))) \<le> 1"
proof -
  obtain new where new: "snd (snd (connect_only_walk policy key m deadline obs idx cs err reg [])) = new"
    "\<forall>(u, taken) \<in> set (butlast new). \<not> taken"
    using connect_only_sends [of "[]" policy key m deadline obs idx cs err reg] by auto
  have "filter snd (butlast new) = []" using new(2) by (auto simp: filter_empty_conv)
  then show ?thesis
    unfolding new(1) by (cases new rule: rev_cases) auto
qed

lemma status_retry_sends:
  "\<exists>new. snd (snd (status_retry_walk policy key m deadline obs idx cs err resp reg log)) = log @ new \<and>
     length new \<le> m - idx \<and> map fst new = map url (take (length new) cs)"
proof (induction cs arbitrary: idx err resp reg log)
  case (Cons c cs)
  show ?case
  proof (cases "idx < m \<and> \<not> deadline_passed deadline (http_at_check (obs idx))")
    case False
    then show ?thesis by (intro exI [of _ "[]"]) auto
  next
    case True
    obtain res cond taken where att: "http_attempt deadline (url c) (obs idx) = (res, cond, taken)"
      by (cases "http_attempt deadline (url c) (obs idx)")
    let ?reg = "record_failure reg key (url c) (max_fails c) (fail_timeout c) (http_at_record (obs idx))"
    have rec: "\<exists>new. snd (snd (status_retry_walk policy key m deadline obs (Suc idx) cs err' resp' ?reg
            (log @ [(url c, taken)]))) = log @ (url c, taken) # new \<and>
          length new \<le> m - Suc idx \<and> map fst new = map url (take (length new) cs)" for err' resp'
      using Cons.IH [of "Suc idx" err' resp' ?reg "log @ [(url c, taken)]"] by simp
    have ends: "\<exists>new. log @ [(url c, taken)] = log @ new \<and> length new \<le> m - idx \<and>
        map fst new = map url (take (length new) (c # cs))"
      using True by (intro exI [of _ "[(url c, taken)]"]) auto
    have goes: "\<exists>new. snd (snd (status_retry_walk policy key m deadline obs (Suc idx) cs err' resp' ?reg
            (log @ [(url c, taken)]))) = log @ new \<and> length new \<le> m - idx \<and>
          map fst new = map url (take (length new) (c # cs))" for err' resp'
    proof -
      from rec [of err' resp'] obtain new where "snd (snd (status_retry_walk policy key m deadline obs
          (Suc idx) cs err' resp' ?reg (log @ [(url c, taken)]))) = log @ (url c, taken) # new"
        "length new \<le> m - Suc idx" "map fst new = map url (take (length new) cs)" by blast
      then show ?thesis using True by (intro exI [of _ "(url c, taken) # new"]) auto
    qed
    show ?thesis
      using True att ends goes
      by (auto simp: Let_def split: sum.splits simp del: append_eq_append_conv append_same_eq same_append_eq)
  qed
qed (intro exI [of _ "[]"], simp)

section \<open>Body buffering\<close>

fun frame_data :: "body_frame \<Rightarrow> u8 list" where
  "frame_data (Data d) = d"
| "frame_data _ = []"

definition readable :: "body_frame list \<Rightarrow> bool" where
  "readable fs = list_all (\<lambda>f. f \<noteq> FrameError \<and> f \<noteq> FrameIdle) fs"

lemma buffer_body_exceeded: "readable fs \<Longrightarrow> buffer_body cap b True fs = Inr None"
  by (induction cap b True fs rule: buffer_body.induct) (auto simp: readable_def)

lemma buffer_body_result:
  assumes "readable fs" "length b \<le> cap"
  shows "buffer_body cap b False fs =
     Inr (if length (b @ concat (map frame_data fs)) \<le> cap then Some (b @ concat (map frame_data fs)) else None)"
  using assms
proof (induction fs arbitrary: b)
  case (Cons f fs)
  then show ?case
    by (cases f) (auto simp: readable_def buffer_body_exceeded [unfolded readable_def])
qed simp

section \<open>Properties\<close>

text \<open>C33. Which candidate a stream forward uses: \<open>stream_forward_group\<close> runs its data phase on
candidate \<open>i\<close> exactly when \<open>i\<close> is below the attempt limit, opens before the deadline, and every earlier
candidate was attempted in time and failed with a condition the policy lists. The outcome is then
that of the data phase, whatever it is: an opened candidate is never failed over.\<close>

theorem stream_forward_uses_first_open:
  assumes "p = local_plan env plan" "m = policy_max_attempts (next_upstream p) (length (candidates p))"
    "deadline = map_option (\<lambda>d. env_start env + d) (policy_timeout (next_upstream p))"
  shows "(\<exists>w. stream_forward_group env plan ct reg = (env_relay env s (url (candidates p ! i)), w) \<and>
              chosen w = Some (i, s, url (candidates p ! i))) \<longleftrightarrow>
         i < length (candidates p) \<and> i < m \<and>
         (\<forall>j < i. passes_over (env_url_ok env) (next_upstream p) m deadline ct (env_obs env) j (candidates p ! j)) \<and>
         opens_at (env_url_ok env) deadline ct (env_obs env) i (candidates p ! i) s"
proof -
  have "chosen (group_walk env plan ct reg) = Some (i, s, url (candidates p ! i)) \<longleftrightarrow>
         i < length (candidates p) \<and> i < m \<and>
         (\<forall>j < i. passes_over (env_url_ok env) (next_upstream p) m deadline ct (env_obs env) j (candidates p ! j)) \<and>
         opens_at (env_url_ok env) deadline ct (env_obs env) i (candidates p ! i) s"
    unfolding group_walk_def Let_def assms
    by (subst candidate_walk_chosen_iff) (auto simp: walk_start_def)
  moreover have "(\<exists>w. stream_forward_group env plan ct reg = (env_relay env s (url (candidates p ! i)), w) \<and>
              chosen w = Some (i, s, url (candidates p ! i)))
      \<longleftrightarrow> chosen (group_walk env plan ct reg) = Some (i, s, url (candidates p ! i))"
    by (auto simp: stream_forward_group_def Let_def split: option.splits)
  ultimately show ?thesis by simp
qed

text \<open>Attempt budget of a forward group: the connections opened are those of a prefix of the
candidate list (unparsable URLs skipped), at most \<open>tries\<close> and at most one per candidate, a single one
when retry is off, and none is given more than the configured connect timeout.\<close>

theorem stream_forward_attempts_bounded:
  assumes "w = snd (stream_forward_group env plan ct reg)" "p = local_plan env plan"
  shows "(\<exists>n. map fst (opens w) = filter (env_url_ok env) (map url (take n (candidates p)))) \<and>
         length (opens w) \<le> max (length (candidates p)) 1 \<and>
         (is_enabled (next_upstream p) \<longrightarrow> length (opens w) \<le> unat (tries (next_upstream p))) \<and>
         (\<not> is_enabled (next_upstream p) \<longrightarrow> length (opens w) \<le> 1) \<and>
         (\<forall>(u, b) \<in> set (opens w). b \<le> ct)"
proof -
  let ?m = "policy_max_attempts (next_upstream p) (length (candidates p))"
  have w: "w = group_walk env plan ct reg"
    using assms(1) by (auto simp: stream_forward_group_def Let_def split: option.splits)
  obtain n where n: "n \<le> ?m" "map fst (opens w) = filter (env_url_ok env) (map url (take n (candidates p)))"
    "\<forall>(u, b) \<in> set (opens w). b \<le> ct"
    using candidate_walk_opens [of "env_url_ok env" "next_upstream p" "failure_state_key (env_hash env) p" ?m
        "map_option (\<lambda>d. env_start env + d) (policy_timeout (next_upstream p))" ct "env_obs env" 0
        "candidates p" "walk_start reg"]
    unfolding w group_walk_def Let_def assms(2) [symmetric] by (auto simp: walk_start_def)
  have "length (opens w) = length (filter (env_url_ok env) (map url (take n (candidates p))))"
    using arg_cong [OF n(2), of length] by simp
  also have "\<dots> \<le> n"
    using length_filter_le [of "env_url_ok env" "map url (take n (candidates p))"] by simp
  finally have "length (opens w) \<le> ?m" using n(1) by simp
  then show ?thesis
    using n(2,3) policy_max_attempts_bound [of "next_upstream p" "length (candidates p)"]
    by (auto intro: order_trans)
qed

text \<open>What a forward does to the health state of its group: candidates that are not in the plan
keep theirs, and the candidate that was used is no longer ejected.\<close>

theorem stream_forward_registry_effect:
  assumes "w = snd (stream_forward_group env plan ct reg)" "key = failure_state_key (env_hash env) plan"
  shows "(\<forall>v now. v \<notin> url ` set (candidates plan) \<longrightarrow>
            is_ejected (walk_registry w) key v now = is_ejected reg key v now) \<and>
         (\<forall>i s u now. chosen w = Some (i, s, u) \<longrightarrow> \<not> is_ejected (walk_registry w) key u now)"
proof -
  have w: "w = group_walk env plan ct reg"
    using assms(1) by (auto simp: stream_forward_group_def Let_def split: option.splits)
  have key: "failure_state_key (env_hash env) (local_plan env plan) = key"
    by (simp add: local_plan_def failure_state_key_least_time assms(2))
  have cands: "set (candidates (local_plan env plan)) = set (candidates plan)"
    by (metis apply_least_time_via_tunnel_mgr_mset local_plan_def set_mset_mset)
  have start: "walk_registry (walk_start reg :: 'a walk_result) = reg" "chosen (walk_start reg :: 'a walk_result) = None"
    by (simp_all add: walk_start_def)
  show ?thesis
    unfolding w group_walk_def Let_def key
    using candidate_walk_frame candidate_walk_chosen_cleared [OF start(2)] start(1) cands by metis
qed


text \<open>Attempts of the HTTP executor: in both retry modes the attempts are a prefix of the
candidate list, at most \<open>tries\<close> of them when retry is on and at most one when it is off.\<close>

theorem http_forward_attempts_bounded:
  assumes "(res, reg', log) = handle_forward_group_upstream env plan req reg"
    "p = (if balance plan = LeastTime
          then apply_least_time_via_tunnel_mgr (http_parse_norm env) (http_lookup env) plan else plan)"
  shows "map fst log = map url (take (length log) (candidates p)) \<and>
         length log \<le> (if is_enabled (next_upstream plan) then unat (tries (next_upstream plan)) else 1)"
proof -
  let ?m = "policy_max_attempts (next_upstream p) (length (candidates p))"
  have pol: "next_upstream p = next_upstream plan"
    using assms(2) by (simp add: apply_least_time_keeps)
  have log: "log = snd (snd (handle_forward_group_upstream env plan req reg))"
    using assms(1) by (metis snd_conv)
  have "length log \<le> ?m \<and> map fst log = map url (take (length log) (candidates p))"
  proof (cases "http_status_retry_armed (next_upstream p) req")
    case True
    then show ?thesis
      using status_retry_sends [of "next_upstream p" "failure_state_key (http_hash env) p" ?m
          "map_option (\<lambda>d. http_start env + d) (policy_timeout (next_upstream p))" "http_observe env" 0
          "candidates p" None None reg "[]"]
      unfolding log handle_forward_group_upstream_def assms(2) [symmetric] Let_def
      by (auto simp: handle_forward_group_with_status_retry_def Let_def split: sum.split option.split)
  next
    case False
    then show ?thesis
      using connect_only_sends [of "[]" "next_upstream p" "failure_state_key (http_hash env) p" ?m
          "map_option (\<lambda>d. http_start env + d) (policy_timeout (next_upstream p))" "http_observe env" 0
          "candidates p" None reg]
      unfolding log handle_forward_group_upstream_def assms(2) [symmetric] Let_def
      by (auto simp: handle_forward_group_connect_only_def Let_def)
  qed
  then show ?thesis
    using policy_max_attempts_bound [of "next_upstream p" "length (candidates p)"] pol by auto
qed

text \<open>Body buffering is exact: a readable body is kept whole when it is no longer than the cap and
refused when it is longer; a refused body ends the request with an error before any candidate is
tried, although the comments announce a single plain attempt.\<close>

theorem oversized_body_is_rejected:
  assumes "readable (req_body req)" "balance plan \<noteq> LeastTime"
    "http_status_retry_armed (next_upstream plan) req"
  shows "buffer_body cap [] False (req_body req) =
           Inr (if length (concat (map frame_data (req_body req))) \<le> cap
                then Some (concat (map frame_data (req_body req))) else None) \<and>
         (length (concat (map frame_data (req_body req))) > unat (max_body_buffer_bytes (next_upstream plan)) \<longrightarrow>
            handle_forward_group_upstream env plan req reg =
              (Inl (BodyTooLarge (max_body_buffer_bytes (next_upstream plan))), reg, []))"
  using assms buffer_body_result [OF assms(1), of "[]"]
  by (simp add: handle_forward_group_upstream_def handle_forward_group_with_status_retry_def Let_def)

text \<open>The provider retry scope has no effect: changing \<open>retry_scope\<close> changes neither the
connections a stream forward opens nor its result, so that \<open>routes_only\<close> does not confine failover to
one server as its documentation says.\<close>

theorem retry_scope_is_ignored:
  "stream_forward_group env (plan\<lparr> provider_policy := q \<rparr>) ct reg = stream_forward_group env plan ct reg"
proof -
  have lt: "local_plan env (plan\<lparr> provider_policy := q \<rparr>) = (local_plan env plan)\<lparr> provider_policy := q \<rparr>"
    by (auto simp: local_plan_def apply_least_time_via_tunnel_mgr_def apply_least_time_order_def split: option.split)
  have key: "failure_state_key H (p\<lparr> provider_policy := q \<rparr>) = failure_state_key H p" for H p
    by (rule failure_state_key_mset) simp_all
  show ?thesis
    by (simp add: stream_forward_group_def group_walk_def lt key Let_def)
qed

text \<open>A concrete run used by the witnesses: two candidates, the first refuses, the second accepts.\<close>

definition sample_retry_plan :: ForwardPlan where
  "sample_retry_plan = (sample_plan [sample_target ''a'' 1, sample_target ''b'' 1])
     \<lparr> next_upstream := policy_off\<lparr> conditions := [Error, Http502], tries := 2,
         max_body_buffer_bytes := 2 \<rparr> \<rparr>"

definition sample_env :: "nat exec_env" where
  "sample_env = \<lparr> env_hash = (\<lambda>_. 0), env_url_ok = (\<lambda>_. True), env_parse_norm = Some,
     env_lookup = (\<lambda>_. None), env_start = 0,
     env_obs = (\<lambda>i. \<lparr> at_check = i, at_budget = i,
        outcome_of = (\<lambda>_. if i = 1 then Opened 42 else OpenFailed), at_record = i \<rparr>),
     env_relay = (\<lambda>s u. Inl (DataPhaseError u)) \<rparr>"

definition sample_http_env :: "string http_env" where
  "sample_http_env = \<lparr> http_hash = (\<lambda>_. 0), http_parse_norm = Some, http_lookup = (\<lambda>_. None),
     http_start = 0,
     http_observe = (\<lambda>i. \<lparr> http_at_check = i, http_at_remaining = i,
        http_reply = (if i = 1 then Inr (200, ''ok'') else Inl (AttemptError ''refused'')),
        stage_timed_out = False, reply_after = 1,
        body_taken_after = (if i = 1 then Some 1 else None), http_at_record = i \<rparr>) \<rparr>"

lemma sample_retry_plan_sel [simp]:
  "candidates sample_retry_plan = [sample_target ''a'' 1, sample_target ''b'' 1]"
  "next_upstream sample_retry_plan =
     \<lparr> conditions = [Error, Http502], tries = 2, policy_timeout = None, max_body_buffer_bytes = 2 \<rparr>"
  "balance sample_retry_plan = RoundRobin" "group sample_retry_plan = Some ''g''"
  by (simp_all add: sample_retry_plan_def policy_off_def)

lemma sample_local_plan [simp]: "local_plan e sample_retry_plan = sample_retry_plan"
  by (simp add: local_plan_def)

lemma sample_max_attempts [simp]: "policy_max_attempts (next_upstream sample_retry_plan) 2 = 2"
  by (simp add: policy_max_attempts_def is_enabled_def)

theorem stream_forward_uses_first_open_witness:
  "\<exists>w. stream_forward_group sample_env sample_retry_plan 9 Map.empty = (Inl (DataPhaseError ''b''), w) \<and>
       chosen w = Some (1, 42, ''b'')"
proof -
  have "passes_over (env_url_ok sample_env) (next_upstream sample_retry_plan) 2 None 9 (env_obs sample_env) 0
      (sample_target ''a'' 1)"
    "opens_at (env_url_ok sample_env) None 9 (env_obs sample_env) 1 (sample_target ''b'' 1) 42"
    by (simp_all add: passes_over_def attempt_failure_def opens_at_def deadline_passed_def
        should_continue_def is_enabled_def allows_def sample_env_def)
  then show ?thesis
    using stream_forward_uses_first_open [of sample_retry_plan sample_env sample_retry_plan 2 None 9
        Map.empty 42 1] sample_max_attempts
    by (simp add: sample_env_def numeral_2_eq_2)
qed

theorem stream_forward_attempts_bounded_witness:
  "length (opens (snd (stream_forward_group sample_env sample_retry_plan 9 Map.empty))) \<le> 2"
  using stream_forward_attempts_bounded
    [of _ sample_env sample_retry_plan 9 Map.empty sample_retry_plan, OF refl]
  by (simp add: is_enabled_def)

theorem stream_forward_registry_effect_witness:
  "\<not> is_ejected (walk_registry (snd (stream_forward_group sample_env sample_retry_plan 9 Map.empty)))
      ''named:g'' ''other'' 0"
  using stream_forward_registry_effect [of _ sample_env sample_retry_plan 9 Map.empty, OF refl refl]
  by (simp add: failure_state_key_def)


theorem http_forward_attempts_bounded_witness:
  "length (snd (snd (handle_forward_group_upstream sample_http_env sample_retry_plan
      \<lparr> req_method = ''GET'', req_upgrade = False, req_body = [] \<rparr> Map.empty))) \<le> 2"
proof -
  obtain res r log where run: "handle_forward_group_upstream sample_http_env sample_retry_plan
      \<lparr> req_method = ''GET'', req_upgrade = False, req_body = [] \<rparr> Map.empty = (res, r, log)"
    by (metis prod_cases3)
  then show ?thesis
    using http_forward_attempts_bounded [OF run [symmetric] refl] by (simp add: is_enabled_def)
qed

theorem oversized_body_is_rejected_witness:
  "handle_forward_group_upstream sample_http_env sample_retry_plan
      \<lparr> req_method = ''PUT'', req_upgrade = False, req_body = [Data [1, 2], Trailers, Data [3]] \<rparr> Map.empty
   = (Inl (BodyTooLarge 2), Map.empty, [])"
proof -
  let ?req = "\<lparr> req_method = ''PUT'', req_upgrade = False, req_body = [Data [1, 2], Trailers, Data [3]] \<rparr>"
  have "classify ''PUT'' = Idempotent" by code_simp
  then have "http_status_retry_armed (next_upstream sample_retry_plan) ?req"
    by (simp add: http_status_retry_armed_def is_idempotent_def is_enabled_def any_http_status_def)
  then show ?thesis
    using oversized_body_is_rejected [of ?req sample_retry_plan 2 sample_http_env Map.empty]
    by (simp add: readable_def)
qed

end
