(* ===== verification/Coll.thy ===== *)
theory Coll
  imports Prelude
begin

text \<open>Values and in-memory collections of the process-chain interpreter
(\<open>cyfs-process-chain/src/collection/coll.rs\<close> and \<open>mem.rs\<close>).

A collection value is a shared reference: collections live in a heap of cells and a value holds an
address. \<open>IndexMap\<close> and \<open>IndexSet\<close> keep insertion order and are association lists with distinct keys
and distinct lists; \<open>shift_remove\<close> keeps the order of the rest. Every cell carries the counter that
\<open>TraverseGuard\<close> raises, and every mutating operation refuses to run while it is positive.

The other implementations of the collection traits (files, JSON, SQLite) are not modelled. A
\<open>Visitor\<close> stands for a Rust trait object: its \<open>get\<close> and \<open>set\<close> are functions over an opaque world.\<close>

section \<open>Values\<close>

type_synonym addr = nat

datatype NumberValue = IntNum "64 word" | FloatNum "64 word"

datatype TypedValue =
    Null
  | Bool bool
  | Number NumberValue
  | String string
  | List addr
  | Set addr
  | Map addr
  | MultiMap addr
  | Visitor nat
  | AnyRef nat

text \<open>\<open>PartialEq\<close> of values: collections, visitors and opaque values are never equal; numbers are equal
within one variant only, floats by their bits.\<close>

fun number_eq :: "NumberValue \<Rightarrow> NumberValue \<Rightarrow> bool" where
  "number_eq (IntNum a) (IntNum b) = (a = b)"
| "number_eq (FloatNum a) (FloatNum b) = (a = b)"
| "number_eq _ _ = False"

fun value_eq :: "TypedValue \<Rightarrow> TypedValue \<Rightarrow> bool" where
  "value_eq Null Null = True"
| "value_eq (Bool a) (Bool b) = (a = b)"
| "value_eq (Number a) (Number b) = number_eq a b"
| "value_eq (String a) (String b) = (a = b)"
| "value_eq _ _ = False"

fun compare_string :: "TypedValue \<Rightarrow> TypedValue \<Rightarrow> bool option" where
  "compare_string (String a) (String b) = Some (a = b)"
| "compare_string _ _ = None"

fun get_type :: "TypedValue \<Rightarrow> string" where
  "get_type Null = ''Null''"
| "get_type (Bool _) = ''Bool''"
| "get_type (Number _) = ''Number''"
| "get_type (String _) = ''String''"
| "get_type (List _) = ''List''"
| "get_type (Set _) = ''Set''"
| "get_type (Map _) = ''Map''"
| "get_type (MultiMap _) = ''MultiMap''"
| "get_type (Visitor _) = ''Visitor''"
| "get_type (AnyRef _) = ''Any''"

fun treat_as_str :: "TypedValue \<Rightarrow> string" where
  "treat_as_str Null = ''null''"
| "treat_as_str (Bool _) = ''[Bool]''"
| "treat_as_str (Number _) = ''[Number]''"
| "treat_as_str (String s) = s"
| "treat_as_str (List _) = ''[List]''"
| "treat_as_str (Set _) = ''[Set]''"
| "treat_as_str (Map _) = ''[Map]''"
| "treat_as_str (MultiMap _) = ''[MultiMap]''"
| "treat_as_str (Visitor _) = ''[Visitor]''"
| "treat_as_str (AnyRef _) = ''[Any]''"

fun as_str :: "TypedValue \<Rightarrow> string option" where
  "as_str (String s) = Some s"
| "as_str _ = None"

fun is_collection :: "TypedValue \<Rightarrow> bool" where
  "is_collection (List _) = True"
| "is_collection (Set _) = True"
| "is_collection (Map _) = True"
| "is_collection (MultiMap _) = True"
| "is_collection _ = False"

section \<open>Ordered maps and sets\<close>

type_synonym 'v omap = "(string \<times> 'v) list"

definition om_get :: "'v omap \<Rightarrow> string \<Rightarrow> 'v option" where
  "om_get m k = map_of m k"

fun om_insert :: "string \<Rightarrow> 'v \<Rightarrow> 'v omap \<Rightarrow> 'v omap" where
  "om_insert k v [] = [(k, v)]"
| "om_insert k v ((k', v') # m) = (if k = k' then (k, v) # m else (k', v') # om_insert k v m)"

definition om_remove :: "string \<Rightarrow> 'v omap \<Rightarrow> 'v omap" where
  "om_remove k m = filter (\<lambda>(k', _). k' \<noteq> k) m"

definition om_keys :: "'v omap \<Rightarrow> string list" where
  "om_keys m = map fst m"

definition os_insert :: "string \<Rightarrow> string list \<Rightarrow> string list" where
  "os_insert x xs = (if x \<in> set xs then xs else xs @ [x])"

definition os_remove :: "string \<Rightarrow> string list \<Rightarrow> string list" where
  "os_remove x xs = filter (\<lambda>y. y \<noteq> x) xs"

section \<open>Heap\<close>

datatype coll_data =
    ListData "TypedValue list"
  | SetData "string list"
  | MapData "TypedValue omap"
  | MultiMapData "string list omap"

record cell =
  cell_data :: coll_data
  traversals :: nat

type_synonym heap = "cell list"

datatype coll_error =
    DuringTraversal
  | InsertOutOfBounds nat nat
  | SetOutOfBounds nat nat
  | BadReference addr
  | VisitorError string

type_synonym 'a heap_op = "heap \<Rightarrow> (coll_error, 'a) result \<times> heap"

definition fetch :: "heap \<Rightarrow> addr \<Rightarrow> cell option" where
  "fetch h a = (if a < length h then Some (h ! a) else None)"

definition alloc :: "coll_data \<Rightarrow> heap \<Rightarrow> addr \<times> heap" where
  "alloc d h = (length h, h @ [\<lparr> cell_data = d, traversals = 0 \<rparr>])"

definition store :: "addr \<Rightarrow> coll_data \<Rightarrow> heap \<Rightarrow> heap" where
  "store a d h = h[a := (h ! a)\<lparr> cell_data := d \<rparr>]"

text \<open>\<open>TraverseGuard\<close>: raise the counter on entry, lower it on drop.\<close>

definition begin_traverse :: "addr \<Rightarrow> heap \<Rightarrow> heap" where
  "begin_traverse a h = h[a := (h ! a)\<lparr> traversals := traversals (h ! a) + 1 \<rparr>]"

definition end_traverse :: "addr \<Rightarrow> heap \<Rightarrow> heap" where
  "end_traverse a h = h[a := (h ! a)\<lparr> traversals := traversals (h ! a) - 1 \<rparr>]"

section \<open>Lists\<close>

definition fetch_list :: "heap \<Rightarrow> addr \<Rightarrow> (TypedValue list \<times> nat) option" where
  "fetch_list h a = (case fetch h a of
     Some c \<Rightarrow> (case cell_data c of ListData xs \<Rightarrow> Some (xs, traversals c) | _ \<Rightarrow> None)
   | None \<Rightarrow> None)"

definition list_len :: "addr \<Rightarrow> nat heap_op" where
  "list_len a h = (case fetch_list h a of
     None \<Rightarrow> (Inl (BadReference a), h) | Some (xs, t) \<Rightarrow> (Inr (length xs), h))"

definition list_push :: "addr \<Rightarrow> TypedValue \<Rightarrow> unit heap_op" where
  "list_push a v h = (case fetch_list h a of
     None \<Rightarrow> (Inl (BadReference a), h)
   | Some (xs, t) \<Rightarrow>
       if t > 0 then (Inl DuringTraversal, h) else (Inr (), store a (ListData (xs @ [v])) h))"

definition list_insert :: "addr \<Rightarrow> nat \<Rightarrow> TypedValue \<Rightarrow> unit heap_op" where
  "list_insert a i v h = (case fetch_list h a of
     None \<Rightarrow> (Inl (BadReference a), h)
   | Some (xs, t) \<Rightarrow>
       if t > 0 then (Inl DuringTraversal, h)
       else if i > length xs then (Inl (InsertOutOfBounds i (length xs)), h)
       else (Inr (), store a (ListData (take i xs @ v # drop i xs)) h))"

definition list_set :: "addr \<Rightarrow> nat \<Rightarrow> TypedValue \<Rightarrow> TypedValue option heap_op" where
  "list_set a i v h = (case fetch_list h a of
     None \<Rightarrow> (Inl (BadReference a), h)
   | Some (xs, t) \<Rightarrow>
       if t > 0 then (Inl DuringTraversal, h)
       else if i \<ge> length xs then (Inl (SetOutOfBounds i (length xs)), h)
       else (Inr (Some (xs ! i)), store a (ListData (xs[i := v])) h))"

definition list_get :: "addr \<Rightarrow> nat \<Rightarrow> TypedValue option heap_op" where
  "list_get a i h = (case fetch_list h a of
     None \<Rightarrow> (Inl (BadReference a), h)
   | Some (xs, t) \<Rightarrow> (Inr (if i < length xs then Some (xs ! i) else None), h))"

definition list_remove :: "addr \<Rightarrow> nat \<Rightarrow> TypedValue option heap_op" where
  "list_remove a i h = (case fetch_list h a of
     None \<Rightarrow> (Inl (BadReference a), h)
   | Some (xs, t) \<Rightarrow>
       if t > 0 then (Inl DuringTraversal, h)
       else if i \<ge> length xs then (Inr None, h)
       else (Inr (Some (xs ! i)), store a (ListData (take i xs @ drop (Suc i) xs)) h))"

definition list_pop :: "addr \<Rightarrow> TypedValue option heap_op" where
  "list_pop a h = (case fetch_list h a of
     None \<Rightarrow> (Inl (BadReference a), h)
   | Some (xs, t) \<Rightarrow>
       if t > 0 then (Inl DuringTraversal, h)
       else if xs = [] then (Inr None, h)
       else (Inr (Some (last xs)), store a (ListData (butlast xs)) h))"

definition list_clear :: "addr \<Rightarrow> unit heap_op" where
  "list_clear a h = (case fetch_list h a of
     None \<Rightarrow> (Inl (BadReference a), h)
   | Some (xs, t) \<Rightarrow>
       if t > 0 then (Inl DuringTraversal, h) else (Inr (), store a (ListData []) h))"

definition list_get_all :: "addr \<Rightarrow> TypedValue list heap_op" where
  "list_get_all a h = (case fetch_list h a of
     None \<Rightarrow> (Inl (BadReference a), h) | Some (xs, t) \<Rightarrow> (Inr xs, h))"

fun contains_all :: "string list \<Rightarrow> TypedValue list \<Rightarrow> bool" where
  "contains_all remaining [] = (remaining = [])"
| "contains_all remaining (v # vs) =
     (case v of
        String s \<Rightarrow> (let remaining = os_remove s remaining in
                     if remaining = [] then True else contains_all remaining vs)
      | _ \<Rightarrow> contains_all remaining vs)"

definition list_contains_all_strings :: "addr \<Rightarrow> string list \<Rightarrow> bool heap_op" where
  "list_contains_all_strings a values h =
     (if values = [] then (Inr True, h)
      else case fetch_list h a of
        None \<Rightarrow> (Inl (BadReference a), h)
      | Some (xs, t) \<Rightarrow> (Inr (contains_all (remdups values) xs), h))"

section \<open>Sets\<close>

definition fetch_set :: "heap \<Rightarrow> addr \<Rightarrow> (string list \<times> nat) option" where
  "fetch_set h a = (case fetch h a of
     Some c \<Rightarrow> (case cell_data c of SetData xs \<Rightarrow> Some (xs, traversals c) | _ \<Rightarrow> None)
   | None \<Rightarrow> None)"

definition set_insert :: "addr \<Rightarrow> string \<Rightarrow> bool heap_op" where
  "set_insert a x h = (case fetch_set h a of
     None \<Rightarrow> (Inl (BadReference a), h)
   | Some (xs, t) \<Rightarrow>
       if t > 0 then (Inl DuringTraversal, h)
       else (Inr (x \<notin> set xs), store a (SetData (os_insert x xs)) h))"

definition set_contains :: "addr \<Rightarrow> string \<Rightarrow> bool heap_op" where
  "set_contains a x h = (case fetch_set h a of
     None \<Rightarrow> (Inl (BadReference a), h) | Some (xs, t) \<Rightarrow> (Inr (x \<in> set xs), h))"

definition set_remove :: "addr \<Rightarrow> string \<Rightarrow> bool heap_op" where
  "set_remove a x h = (case fetch_set h a of
     None \<Rightarrow> (Inl (BadReference a), h)
   | Some (xs, t) \<Rightarrow>
       if t > 0 then (Inl DuringTraversal, h)
       else (Inr (x \<in> set xs), store a (SetData (os_remove x xs)) h))"

definition set_get_all :: "addr \<Rightarrow> string list heap_op" where
  "set_get_all a h = (case fetch_set h a of
     None \<Rightarrow> (Inl (BadReference a), h) | Some (xs, t) \<Rightarrow> (Inr xs, h))"

section \<open>Maps\<close>

text \<open>\<open>VariableVisitor\<close>: \<open>vget v key\<close> is the value on which the chain of visitors that starts at \<open>v\<close> ends
(a visitor may answer with another visitor, which is asked in turn).\<close>

record 'w visitors =
  vget :: "nat \<Rightarrow> string \<Rightarrow> 'w \<Rightarrow> (string, TypedValue) result \<times> 'w"
  vset :: "nat \<Rightarrow> string \<Rightarrow> TypedValue \<Rightarrow> 'w \<Rightarrow> (string, TypedValue option) result \<times> 'w"

fun lift_visitor :: "(string, 'a) result \<Rightarrow> (coll_error, 'a) result" where
  "lift_visitor (Inl e) = Inl (VisitorError e)"
| "lift_visitor (Inr x) = Inr x"

definition entry_insert ::
    "'w visitors \<Rightarrow> string \<Rightarrow> TypedValue \<Rightarrow> TypedValue omap \<Rightarrow> 'w \<Rightarrow>
     (coll_error, TypedValue option) result \<times> TypedValue omap \<times> 'w" where
  "entry_insert vs key v m w = (case om_get m key of
     Some (Visitor n) \<Rightarrow> (let (r, w) = vset vs n key v w in (lift_visitor r, m, w))
   | Some prev \<Rightarrow> (Inr (Some prev), om_insert key v m, w)
   | None \<Rightarrow> (Inr None, om_insert key v m, w))"

definition entry_get ::
    "'w visitors \<Rightarrow> string \<Rightarrow> TypedValue omap \<Rightarrow> 'w \<Rightarrow>
     (coll_error, TypedValue option) result \<times> 'w" where
  "entry_get vs key m w = (case om_get m key of
     Some (Visitor n) \<Rightarrow>
       (let (r, w) = vget vs n key w in (and_then (lift_visitor r) (\<lambda>v. Inr (Some v)), w))
   | Some v \<Rightarrow> (Inr (Some v), w)
   | None \<Rightarrow> (Inr None, w))"

definition entry_insert_new ::
    "string \<Rightarrow> TypedValue \<Rightarrow> TypedValue omap \<Rightarrow> bool \<times> TypedValue omap" where
  "entry_insert_new key v m =
     (case om_get m key of Some _ \<Rightarrow> (False, m) | None \<Rightarrow> (True, om_insert key v m))"

definition fetch_map :: "heap \<Rightarrow> addr \<Rightarrow> (TypedValue omap \<times> nat) option" where
  "fetch_map h a = (case fetch h a of
     Some c \<Rightarrow> (case cell_data c of MapData m \<Rightarrow> Some (m, traversals c) | _ \<Rightarrow> None)
   | None \<Rightarrow> None)"

definition map_len :: "addr \<Rightarrow> nat heap_op" where
  "map_len a h = (case fetch_map h a of
     None \<Rightarrow> (Inl (BadReference a), h) | Some (m, t) \<Rightarrow> (Inr (length m), h))"

definition map_insert_new :: "addr \<Rightarrow> string \<Rightarrow> TypedValue \<Rightarrow> bool heap_op" where
  "map_insert_new a key v h = (case fetch_map h a of
     None \<Rightarrow> (Inl (BadReference a), h)
   | Some (m, t) \<Rightarrow>
       if t > 0 then (Inl DuringTraversal, h)
       else (let (new, m) = entry_insert_new key v m in (Inr new, store a (MapData m) h)))"

definition map_insert ::
    "'w visitors \<Rightarrow> addr \<Rightarrow> string \<Rightarrow> TypedValue \<Rightarrow> heap \<Rightarrow> 'w \<Rightarrow>
     (coll_error, TypedValue option) result \<times> heap \<times> 'w" where
  "map_insert vs a key v h w = (case fetch_map h a of
     None \<Rightarrow> (Inl (BadReference a), h, w)
   | Some (m, t) \<Rightarrow>
       if t > 0 then (Inl DuringTraversal, h, w)
       else (let (r, m, w) = entry_insert vs key v m w in (r, store a (MapData m) h, w)))"

definition map_get ::
    "'w visitors \<Rightarrow> addr \<Rightarrow> string \<Rightarrow> heap \<Rightarrow> 'w \<Rightarrow>
     (coll_error, TypedValue option) result \<times> 'w" where
  "map_get vs a key h w = (case fetch_map h a of
     None \<Rightarrow> (Inl (BadReference a), w) | Some (m, t) \<Rightarrow> entry_get vs key m w)"

definition map_contains_key :: "addr \<Rightarrow> string \<Rightarrow> bool heap_op" where
  "map_contains_key a key h = (case fetch_map h a of
     None \<Rightarrow> (Inl (BadReference a), h) | Some (m, t) \<Rightarrow> (Inr (om_get m key \<noteq> None), h))"

definition map_remove :: "addr \<Rightarrow> string \<Rightarrow> TypedValue option heap_op" where
  "map_remove a key h = (case fetch_map h a of
     None \<Rightarrow> (Inl (BadReference a), h)
   | Some (m, t) \<Rightarrow>
       if t > 0 then (Inl DuringTraversal, h)
       else (Inr (om_get m key), store a (MapData (om_remove key m)) h))"

definition map_keys_snapshot :: "addr \<Rightarrow> string list heap_op" where
  "map_keys_snapshot a h = (case fetch_map h a of
     None \<Rightarrow> (Inl (BadReference a), h) | Some (m, t) \<Rightarrow> (Inr (om_keys m), h))"

definition map_dump :: "addr \<Rightarrow> TypedValue omap heap_op" where
  "map_dump a h = (case fetch_map h a of
     None \<Rightarrow> (Inl (BadReference a), h) | Some (m, t) \<Rightarrow> (Inr m, h))"

section \<open>Multi-maps\<close>

definition fetch_multimap :: "heap \<Rightarrow> addr \<Rightarrow> (string list omap \<times> nat) option" where
  "fetch_multimap h a = (case fetch h a of
     Some c \<Rightarrow> (case cell_data c of MultiMapData m \<Rightarrow> Some (m, traversals c) | _ \<Rightarrow> None)
   | None \<Rightarrow> None)"

definition mm_values :: "string list omap \<Rightarrow> string \<Rightarrow> string list" where
  "mm_values m key = (case om_get m key of Some vs \<Rightarrow> vs | None \<Rightarrow> [])"

definition multimap_insert :: "addr \<Rightarrow> string \<Rightarrow> string \<Rightarrow> bool heap_op" where
  "multimap_insert a key v h = (case fetch_multimap h a of
     None \<Rightarrow> (Inl (BadReference a), h)
   | Some (m, t) \<Rightarrow>
       if t > 0 then (Inl DuringTraversal, h)
       else (let vs = mm_values m key in
             (Inr (v \<notin> set vs), store a (MultiMapData (om_insert key (os_insert v vs) m)) h)))"

definition multimap_insert_many :: "addr \<Rightarrow> string \<Rightarrow> string list \<Rightarrow> bool heap_op" where
  "multimap_insert_many a key values h = (case fetch_multimap h a of
     None \<Rightarrow> (Inl (BadReference a), h)
   | Some (m, t) \<Rightarrow>
       if t > 0 then (Inl DuringTraversal, h)
       else (let vs = mm_values m key; vs' = fold os_insert values vs in
             (Inr (length vs' > length vs), store a (MultiMapData (om_insert key vs' m)) h)))"

definition multimap_get :: "addr \<Rightarrow> string \<Rightarrow> string option heap_op" where
  "multimap_get a key h = (case fetch_multimap h a of
     None \<Rightarrow> (Inl (BadReference a), h)
   | Some (m, t) \<Rightarrow> (Inr (case om_get m key of Some (v # _) \<Rightarrow> Some v | _ \<Rightarrow> None), h))"

definition multimap_get_many :: "addr \<Rightarrow> string \<Rightarrow> addr option heap_op" where
  "multimap_get_many a key h = (case fetch_multimap h a of
     None \<Rightarrow> (Inl (BadReference a), h)
   | Some (m, t) \<Rightarrow>
      (case om_get m key of
         Some vs \<Rightarrow> (let (b, h) = alloc (SetData vs) h in (Inr (Some b), h))
       | None \<Rightarrow> (Inr None, h)))"

definition multimap_contains_key :: "addr \<Rightarrow> string \<Rightarrow> bool heap_op" where
  "multimap_contains_key a key h = (case fetch_multimap h a of
     None \<Rightarrow> (Inl (BadReference a), h) | Some (m, t) \<Rightarrow> (Inr (om_get m key \<noteq> None), h))"

fun contains_loop :: "string list \<Rightarrow> bool \<Rightarrow> string list \<Rightarrow> bool" where
  "contains_loop present exists [] = exists"
| "contains_loop present exists (v # vs) = (if v \<notin> set present then False else contains_loop present True vs)"

definition multimap_contains_value :: "addr \<Rightarrow> string \<Rightarrow> string list \<Rightarrow> bool heap_op" where
  "multimap_contains_value a key values h = (case fetch_multimap h a of
     None \<Rightarrow> (Inl (BadReference a), h)
   | Some (m, t) \<Rightarrow>
      (Inr (case om_get m key of Some vs \<Rightarrow> contains_loop vs False values | None \<Rightarrow> False), h))"

definition mm_put :: "string \<Rightarrow> string list \<Rightarrow> string list omap \<Rightarrow> string list omap" where
  "mm_put key vs m = (if vs = [] then om_remove key m else om_insert key vs m)"

definition multimap_remove :: "addr \<Rightarrow> string \<Rightarrow> string \<Rightarrow> bool heap_op" where
  "multimap_remove a key v h = (case fetch_multimap h a of
     None \<Rightarrow> (Inl (BadReference a), h)
   | Some (m, t) \<Rightarrow>
       if t > 0 then (Inl DuringTraversal, h)
       else (case om_get m key of
           Some vs \<Rightarrow> (Inr (v \<in> set vs), store a (MultiMapData (mm_put key (os_remove v vs) m)) h)
         | None \<Rightarrow> (Inr False, h)))"

fun remove_values :: "string list \<Rightarrow> string list \<Rightarrow> string list \<Rightarrow> string list \<times> string list" where
  "remove_values vs removed [] = (vs, removed)"
| "remove_values vs removed (x # xs) =
     (if x \<in> set vs then remove_values (os_remove x vs) (os_insert x removed) xs
      else remove_values vs removed xs)"

definition multimap_remove_many :: "addr \<Rightarrow> string \<Rightarrow> string list \<Rightarrow> addr option heap_op" where
  "multimap_remove_many a key values h = (case fetch_multimap h a of
     None \<Rightarrow> (Inl (BadReference a), h)
   | Some (m, t) \<Rightarrow>
       if t > 0 then (Inl DuringTraversal, h)
       else (case om_get m key of
           Some vs \<Rightarrow>
             (let (vs', removed) = remove_values vs [] values;
                  (b, h) = alloc (SetData removed) (store a (MultiMapData (mm_put key vs' m)) h)
              in (Inr (Some b), h))
         | None \<Rightarrow> (Inr None, h)))"

definition multimap_remove_all :: "addr \<Rightarrow> string \<Rightarrow> addr option heap_op" where
  "multimap_remove_all a key h = (case fetch_multimap h a of
     None \<Rightarrow> (Inl (BadReference a), h)
   | Some (m, t) \<Rightarrow>
       if t > 0 then (Inl DuringTraversal, h)
       else (case om_get m key of
           Some vs \<Rightarrow>
             (let (b, h) = alloc (SetData vs) (store a (MultiMapData (om_remove key m)) h)
              in (Inr (Some b), h))
         | None \<Rightarrow> (Inr None, h)))"

definition multimap_keys_snapshot :: "addr \<Rightarrow> string list heap_op" where
  "multimap_keys_snapshot a h = (case fetch_multimap h a of
     None \<Rightarrow> (Inl (BadReference a), h) | Some (m, t) \<Rightarrow> (Inr (om_keys m), h))"

section \<open>The ordered-map contract\<close>

locale index_map =
  fixes get :: "'m \<Rightarrow> string \<Rightarrow> 'v option"
    and ins :: "string \<Rightarrow> 'v \<Rightarrow> 'm \<Rightarrow> 'm"
    and del :: "string \<Rightarrow> 'm \<Rightarrow> 'm"
    and keys :: "'m \<Rightarrow> string list"
    and wf :: "'m \<Rightarrow> bool"
  assumes wf_distinct: "wf m \<Longrightarrow> distinct (keys m)"
    and get_None_iff: "get m k = None \<longleftrightarrow> k \<notin> set (keys m)"
    and wf_ins: "wf m \<Longrightarrow> wf (ins k v m)"
    and wf_del: "wf m \<Longrightarrow> wf (del k m)"
    and get_ins: "get (ins k v m) k' = (if k = k' then Some v else get m k')"
    and get_del: "get (del k m) k' = (if k = k' then None else get m k')"
    and keys_ins: "keys (ins k v m) = (if k \<in> set (keys m) then keys m else keys m @ [k])"
    and keys_del: "keys (del k m) = filter (\<lambda>k'. k' \<noteq> k) (keys m)"
begin

lemma fresh_insert_then_delete:
  assumes "get m k = None"
  shows "get (del k (ins k v m)) = get m" "keys (del k (ins k v m)) = keys m"
  using assms get_None_iff [of m k]
  by (auto simp: fun_eq_iff get_del get_ins keys_del keys_ins filter_id_conv)

lemma overwrite_keeps_position: "get m k \<noteq> None \<Longrightarrow> keys (ins k v m) = keys m"
  using get_None_iff [of m k] by (simp add: keys_ins)

end

definition om_wf :: "'v omap \<Rightarrow> bool" where
  "om_wf m = distinct (map fst m)"

lemma om_get_insert: "om_get (om_insert k v m) k' = (if k = k' then Some v else om_get m k')"
  by (induction k v m rule: om_insert.induct) (auto simp: om_get_def)

lemma om_keys_insert: "om_keys (om_insert k v m) = (if k \<in> set (om_keys m) then om_keys m else om_keys m @ [k])"
  by (induction k v m rule: om_insert.induct) (auto simp: om_keys_def)

lemma om_get_remove: "om_get (om_remove k m) k' = (if k = k' then None else om_get m k')"
  by (induction m) (auto simp: om_get_def om_remove_def)

lemma om_keys_remove: "om_keys (om_remove k m) = filter (\<lambda>k'. k' \<noteq> k) (om_keys m)"
  by (induction m) (auto simp: om_keys_def om_remove_def)

interpretation om: index_map om_get om_insert om_remove om_keys om_wf
proof
  show "distinct (om_keys m)" if "om_wf m" for m :: "'v omap"
    using that by (simp add: om_wf_def om_keys_def)
  show "om_get m k = None \<longleftrightarrow> k \<notin> set (om_keys m)" for m :: "'v omap" and k
    by (simp add: om_get_def om_keys_def map_of_eq_None_iff)
  show "om_wf (om_insert k v m)" if "om_wf m" for k v and m :: "'v omap"
    using that om_keys_insert [of k v m] by (auto simp: om_wf_def om_keys_def)
  show "om_wf (om_remove k m)" if "om_wf m" for k and m :: "'v omap"
    using that om_keys_remove [of k m] by (auto simp: om_wf_def om_keys_def)
qed (rule om_get_insert om_get_remove om_keys_insert om_keys_remove)+

section \<open>Well-formed heaps\<close>

fun data_ok :: "coll_data \<Rightarrow> bool" where
  "data_ok (ListData xs) = True"
| "data_ok (SetData xs) = distinct xs"
| "data_ok (MapData m) = om_wf m"
| "data_ok (MultiMapData m) = (om_wf m \<and> (\<forall>(k, vs) \<in> set m. distinct vs))"

definition heap_ok :: "heap \<Rightarrow> bool" where
  "heap_ok h = list_all (\<lambda>c. data_ok (cell_data c)) h"

lemma fetch_list_Some:
  "fetch_list h a = Some (xs, t) \<longleftrightarrow> a < length h \<and> cell_data (h ! a) = ListData xs \<and> traversals (h ! a) = t"
  by (auto simp: fetch_list_def fetch_def split: coll_data.splits)

lemma fetch_set_Some:
  "fetch_set h a = Some (xs, t) \<longleftrightarrow> a < length h \<and> cell_data (h ! a) = SetData xs \<and> traversals (h ! a) = t"
  by (auto simp: fetch_set_def fetch_def split: coll_data.splits)

lemma fetch_map_Some:
  "fetch_map h a = Some (m, t) \<longleftrightarrow> a < length h \<and> cell_data (h ! a) = MapData m \<and> traversals (h ! a) = t"
  by (auto simp: fetch_map_def fetch_def split: coll_data.splits)

lemma fetch_multimap_Some:
  "fetch_multimap h a = Some (m, t) \<longleftrightarrow>
     a < length h \<and> cell_data (h ! a) = MultiMapData m \<and> traversals (h ! a) = t"
  by (auto simp: fetch_multimap_def fetch_def split: coll_data.splits)

lemmas fetch_Somes = fetch_list_Some fetch_set_Some fetch_map_Some fetch_multimap_Some

lemma length_store [simp]: "length (store a d h) = length h"
  by (simp add: store_def)

lemma store_nth: "b < length h \<Longrightarrow>
    store a d h ! b = (if a = b then (h ! b)\<lparr> cell_data := d \<rparr> else h ! b)"
  by (simp add: store_def nth_list_update)

lemma heap_ok_nth: "heap_ok h \<Longrightarrow> a < length h \<Longrightarrow> data_ok (cell_data (h ! a))"
  by (simp add: heap_ok_def list_all_length)

lemma heap_ok_store: "heap_ok h \<Longrightarrow> data_ok d \<Longrightarrow> heap_ok (store a d h)"
  by (auto simp: heap_ok_def list_all_length store_nth)

lemma heap_ok_alloc: "heap_ok h \<Longrightarrow> data_ok d \<Longrightarrow> heap_ok (snd (alloc d h))"
  by (simp add: heap_ok_def alloc_def)

lemma distinct_os_insert [simp]: "distinct xs \<Longrightarrow> distinct (os_insert x xs)"
  by (simp add: os_insert_def)

lemma distinct_os_remove [simp]: "distinct xs \<Longrightarrow> distinct (os_remove x xs)"
  by (simp add: os_remove_def)

lemma distinct_fold_os_insert: "distinct vs \<Longrightarrow> distinct (fold os_insert xs vs)"
  by (induction xs arbitrary: vs) auto

lemma distinct_remove_values:
  "distinct vs \<Longrightarrow> distinct r \<Longrightarrow> distinct (fst (remove_values vs r xs)) \<and> distinct (snd (remove_values vs r xs))"
  by (induction vs r xs rule: remove_values.induct) auto

lemma om_get_in: "om_get m k = Some v \<Longrightarrow> (k, v) \<in> set m"
  by (simp add: om_get_def map_of_SomeD)

lemma set_om_insert: "set (om_insert k v m) \<subseteq> insert (k, v) (set m)"
  by (induction k v m rule: om_insert.induct) auto

lemma multimap_data_ok_insert:
  "data_ok (MultiMapData m) \<Longrightarrow> distinct vs \<Longrightarrow> data_ok (MultiMapData (om_insert k vs m))"
  using set_om_insert [of k vs m] by (auto simp: om.wf_ins)

lemma multimap_data_ok_remove:
  "data_ok (MultiMapData m) \<Longrightarrow> data_ok (MultiMapData (om_remove k m))"
  by (auto simp: om.wf_del) (auto simp: om_remove_def)

lemma mm_values_distinct: "data_ok (MultiMapData m) \<Longrightarrow> distinct (mm_values m k)"
  by (auto simp: mm_values_def dest: om_get_in split: option.split)

lemma mm_get_distinct: "data_ok (MultiMapData m) \<Longrightarrow> om_get m k = Some vs \<Longrightarrow> distinct vs"
  by (auto dest: om_get_in)

section \<open>Sequences of operations\<close>

text \<open>One call of a mutating or allocating method, by any holder of a reference.\<close>

datatype coll_op =
    ListPush addr TypedValue | ListInsert addr nat TypedValue | ListSet addr nat TypedValue
  | ListRemove addr nat | ListPop addr | ListClear addr
  | SetInsert addr string | SetRemove addr string
  | MapInsertNew addr string TypedValue | MapInsert addr string TypedValue | MapRemove addr string
  | MultiInsert addr string string | MultiInsertMany addr string "string list"
  | MultiGetMany addr string | MultiRemove addr string string
  | MultiRemoveMany addr string "string list" | MultiRemoveAll addr string

fun exec_op :: "'w visitors \<Rightarrow> coll_op \<Rightarrow> heap \<times> 'w \<Rightarrow> heap \<times> 'w" where
  "exec_op vs (ListPush a v) (h, w) = (snd (list_push a v h), w)"
| "exec_op vs (ListInsert a i v) (h, w) = (snd (list_insert a i v h), w)"
| "exec_op vs (ListSet a i v) (h, w) = (snd (list_set a i v h), w)"
| "exec_op vs (ListRemove a i) (h, w) = (snd (list_remove a i h), w)"
| "exec_op vs (ListPop a) (h, w) = (snd (list_pop a h), w)"
| "exec_op vs (ListClear a) (h, w) = (snd (list_clear a h), w)"
| "exec_op vs (SetInsert a x) (h, w) = (snd (set_insert a x h), w)"
| "exec_op vs (SetRemove a x) (h, w) = (snd (set_remove a x h), w)"
| "exec_op vs (MapInsertNew a k v) (h, w) = (snd (map_insert_new a k v h), w)"
| "exec_op vs (MapInsert a k v) (h, w) = snd (map_insert vs a k v h w)"
| "exec_op vs (MapRemove a k) (h, w) = (snd (map_remove a k h), w)"
| "exec_op vs (MultiInsert a k v) (h, w) = (snd (multimap_insert a k v h), w)"
| "exec_op vs (MultiInsertMany a k xs) (h, w) = (snd (multimap_insert_many a k xs h), w)"
| "exec_op vs (MultiGetMany a k) (h, w) = (snd (multimap_get_many a k h), w)"
| "exec_op vs (MultiRemove a k v) (h, w) = (snd (multimap_remove a k v h), w)"
| "exec_op vs (MultiRemoveMany a k xs) (h, w) = (snd (multimap_remove_many a k xs h), w)"
| "exec_op vs (MultiRemoveAll a k) (h, w) = (snd (multimap_remove_all a k h), w)"

lemmas list_ops = list_push_def list_insert_def list_set_def list_remove_def list_pop_def list_clear_def
lemmas set_ops = set_insert_def set_remove_def
lemmas map_ops = map_insert_new_def map_insert_def map_remove_def
lemmas multimap_ops = multimap_insert_def multimap_insert_many_def multimap_get_many_def
  multimap_remove_def multimap_remove_many_def multimap_remove_all_def

text \<open>An operation may write one cell whose counter is zero, and may add cells at the end.\<close>

definition heap_evolves :: "heap \<Rightarrow> heap \<Rightarrow> bool" where
  "heap_evolves h h' = (length h \<le> length h' \<and>
     (\<forall>a < length h. traversals (h' ! a) = traversals (h ! a) \<and>
                     (traversals (h ! a) > 0 \<longrightarrow> h' ! a = h ! a)))"

lemma heap_evolves_refl [simp]: "heap_evolves h h"
  by (simp add: heap_evolves_def)

lemma heap_evolves_store: "traversals (h ! a) = 0 \<Longrightarrow> heap_evolves h (store a d h)"
  by (auto simp: heap_evolves_def store_nth)

lemma heap_evolves_alloc: "heap_evolves h h' \<Longrightarrow> heap_evolves h (snd (alloc d h'))"
  by (auto simp: heap_evolves_def alloc_def nth_append)

lemma heap_evolves_trans: "heap_evolves h h' \<Longrightarrow> heap_evolves h' h'' \<Longrightarrow> heap_evolves h h''"
  by (auto simp: heap_evolves_def)

lemma exec_op_evolves: "heap_evolves (fst s) (fst (exec_op vs op s))"
proof (cases s)
  case (Pair h w)
  show ?thesis
    unfolding Pair
    by (cases op)
       (auto simp: list_ops set_ops map_ops multimap_ops Let_def fetch_Somes entry_insert_new_def
          intro!: heap_evolves_store heap_evolves_alloc [unfolded alloc_def snd_conv]
          simp: alloc_def split: option.split prod.split)
qed

lemma entry_insert_wf: "om_wf m \<Longrightarrow> om_wf (fst (snd (entry_insert vs k v m w)))"
  by (auto simp: entry_insert_def om.wf_ins split: option.splits TypedValue.splits prod.splits)

lemma entry_insert_new_wf: "om_wf m \<Longrightarrow> om_wf (snd (entry_insert_new k v m))"
  by (auto simp: entry_insert_new_def om.wf_ins split: option.splits)

lemma mm_put_ok: "data_ok (MultiMapData m) \<Longrightarrow> distinct vs \<Longrightarrow> data_ok (MultiMapData (mm_put k vs m))"
  using multimap_data_ok_insert multimap_data_ok_remove by (auto simp: mm_put_def simp del: data_ok.simps)

lemma list_op_ok:
  assumes "heap_ok h"
  shows "heap_ok (snd (list_push a v h))" "heap_ok (snd (list_insert a i v h))"
    "heap_ok (snd (list_set a i v h))" "heap_ok (snd (list_remove a i h))"
    "heap_ok (snd (list_pop a h))" "heap_ok (snd (list_clear a h))"
  using assms by (auto simp: list_ops heap_ok_store split: option.split)

lemma set_op_ok:
  assumes "heap_ok h"
  shows "heap_ok (snd (set_insert a x h))" "heap_ok (snd (set_remove a x h))"
  using assms heap_ok_nth [OF assms, of a]
  by (auto simp: set_ops fetch_Somes heap_ok_store split: option.split)

lemma map_op_ok:
  assumes "heap_ok h"
  shows "heap_ok (snd (map_insert_new a k v h))" "heap_ok (fst (snd (map_insert vs a k v h w)))"
    "heap_ok (snd (map_remove a k h))"
  using assms heap_ok_nth [OF assms, of a]
  by (auto simp: map_ops fetch_Somes heap_ok_store om.wf_del split_beta Let_def
      entry_insert_wf entry_insert_new_wf split: option.split)

lemma multimap_op_ok:
  assumes "heap_ok h"
  shows "heap_ok (snd (multimap_insert a k v h))" "heap_ok (snd (multimap_insert_many a k xs h))"
    "heap_ok (snd (multimap_get_many a k h))" "heap_ok (snd (multimap_remove a k v h))"
    "heap_ok (snd (multimap_remove_many a k xs h))" "heap_ok (snd (multimap_remove_all a k h))"
proof -
  have ok: "data_ok (MultiMapData m)" if "fetch_multimap h a = Some (m, t)" for m t
    using heap_ok_nth [OF assms, of a] that by (auto simp: fetch_Somes)
  have ins: "heap_ok (store a (MultiMapData (om_insert k vs m)) h)"
    if "fetch_multimap h a = Some (m, t)" "distinct vs" for m t vs
    by (intro heap_ok_store assms multimap_data_ok_insert ok [OF that(1)] that(2))
  have put: "heap_ok (store a (MultiMapData (mm_put k vs m)) h)"
    if "fetch_multimap h a = Some (m, t)" "distinct vs" for m t vs
    by (intro heap_ok_store assms mm_put_ok ok [OF that(1)] that(2))
  have del: "heap_ok (store a (MultiMapData (om_remove k m)) h)"
    if "fetch_multimap h a = Some (m, t)" for m t
    by (intro heap_ok_store assms multimap_data_ok_remove ok [OF that])
  have rv: "distinct (fst (remove_values vs [] xs))" "distinct (snd (remove_values vs [] xs))"
    if "distinct vs" for vs
    using distinct_remove_values [OF that, of "[]" xs] by auto
  show "heap_ok (snd (multimap_insert a k v h))"
    using assms ins mm_values_distinct [OF ok]
    by (auto simp: multimap_insert_def Let_def split: option.split)
  show "heap_ok (snd (multimap_insert_many a k xs h))"
    using assms ins distinct_fold_os_insert [OF mm_values_distinct [OF ok]]
    by (auto simp: multimap_insert_many_def Let_def split: option.split)
  show "heap_ok (snd (multimap_get_many a k h))"
    using assms mm_get_distinct [OF ok] heap_ok_alloc [OF assms]
    by (auto simp: multimap_get_many_def split_beta split: option.split)
  show "heap_ok (snd (multimap_remove a k v h))"
    using assms put mm_get_distinct [OF ok]
    by (auto simp: multimap_remove_def split: option.split)
  show "heap_ok (snd (multimap_remove_many a k xs h))"
    using assms put [OF _ rv(1)] mm_get_distinct [OF ok] rv(2) heap_ok_alloc
    by (auto simp: multimap_remove_many_def split_beta split: option.split)
  show "heap_ok (snd (multimap_remove_all a k h))"
    using assms del mm_get_distinct [OF ok] heap_ok_alloc
    by (auto simp: multimap_remove_all_def split_beta split: option.split)
qed

lemma exec_op_ok: "heap_ok (fst s) \<Longrightarrow> heap_ok (fst (exec_op vs op s))"
  by (cases s; cases op) (simp_all add: list_op_ok set_op_ok map_op_ok multimap_op_ok)

section \<open>Membership queries\<close>

lemma contains_all_iff: "contains_all rem vs \<longleftrightarrow> (\<forall>s \<in> set rem. String s \<in> set vs)"
proof (induction vs arbitrary: rem)
  case Nil
  then show ?case by (cases rem) auto
next
  case (Cons v vs)
  show ?case
  proof (cases v)
    case (String s)
    have rest: "set (os_remove s rem) = set rem - {s}" by (auto simp: os_remove_def)
    have "contains_all rem (v # vs) \<longleftrightarrow> os_remove s rem = [] \<or> contains_all (os_remove s rem) vs"
      by (simp add: String Let_def)
    also have "\<dots> \<longleftrightarrow> (\<forall>x \<in> set (os_remove s rem). String x \<in> set vs)"
      unfolding Cons by auto
    also have "\<dots> \<longleftrightarrow> (\<forall>x \<in> set rem. String x \<in> set (v # vs))"
      unfolding rest by (auto simp: String)
    finally show ?thesis .
  qed (use Cons in auto)
qed

lemma contains_loop_iff: "contains_loop vs b xs \<longleftrightarrow> (if xs = [] then b else set xs \<subseteq> set vs)"
  by (induction vs b xs rule: contains_loop.induct) auto

section \<open>Properties\<close>

text \<open>C18. A traversed collection is frozen: while the traversal counter of a collection is positive, no
sequence of operations, through whatever references, changes its contents or its counter.\<close>

theorem traversed_collection_frozen:
  assumes "a < length h" "traversals (h ! a) > 0"
  shows "fst (fold (exec_op vs) ops (h, w)) ! a = h ! a"
proof -
  have "heap_evolves h (fst (fold (exec_op vs) ops s))" if "heap_evolves h (fst s)" for s
    using that
  proof (induction ops arbitrary: s)
    case (Cons op ops)
    have "heap_evolves h (fst (exec_op vs op s))"
      by (rule heap_evolves_trans [OF Cons.prems exec_op_evolves])
    then show ?case by (simp add: Cons.IH)
  qed simp
  from this [of "(h, w)"] show ?thesis
    using assms by (simp add: heap_evolves_def)
qed

definition sample_heap :: heap where
  "sample_heap = [\<lparr> cell_data = ListData [Null], traversals = 1 \<rparr>, \<lparr> cell_data = SetData [], traversals = 0 \<rparr>]"

definition no_visitors :: "unit visitors" where
  "no_visitors = \<lparr> vget = (\<lambda>_ _ w. (Inl ''none'', w)), vset = (\<lambda>_ _ _ w. (Inl ''none'', w)) \<rparr>"

theorem traversed_collection_frozen_witness:
  "fst (fold (exec_op no_visitors) [ListPush 0 Null, SetInsert 1 ''x'', ListClear 0] (sample_heap, ())) ! 0
   = \<lparr> cell_data = ListData [Null], traversals = 1 \<rparr>"
  using traversed_collection_frozen [of 0 sample_heap no_visitors "[ListPush 0 Null, SetInsert 1 ''x'', ListClear 0]" "()"]
  by (simp add: sample_heap_def)



text \<open>Map entries behave as an ordered map: after \<open>insert\<close> of a key that holds no visitor, \<open>get\<close>
returns the new value for that key and the old one for every other key, the previous value is
reported, and a key that was already present keeps its place in the order.\<close>

theorem map_insert_get:
  assumes "fetch_map h a = Some (m, 0)" "\<And>n. om_get m k \<noteq> Some (Visitor n)" "\<And>n. v \<noteq> Visitor n"
  shows "\<exists>h'. map_insert vs a k v h w = (Inr (om_get m k), h', w) \<and>
           map_get vs a k h' w = (Inr (Some v), w) \<and>
           (\<forall>k'. k' \<noteq> k \<longrightarrow> map_get vs a k' h' w = map_get vs a k' h w) \<and>
           fst (map_keys_snapshot a h') =
             Inr (if om_get m k = None then om_keys m @ [k] else om_keys m)"
proof -
  let ?h = "store a (MapData (om_insert k v m)) h"
  have "fetch_map ?h a = Some (om_insert k v m, 0)"
    using assms(1) by (auto simp: fetch_map_Some store_nth)
  moreover have "entry_insert vs k v m w = (Inr (om_get m k), om_insert k v m, w)"
    using assms(2) by (cases "om_get m k") (auto simp: entry_insert_def split: TypedValue.split)
  moreover have "entry_get vs k (om_insert k v m) w = (Inr (Some v), w)"
    using assms(3) by (auto simp: entry_get_def om.get_ins split: TypedValue.split)
  moreover have "entry_get vs k' (om_insert k v m) w = entry_get vs k' m w" if "k' \<noteq> k" for k'
    using that by (simp add: entry_get_def om.get_ins)
  ultimately show ?thesis
    using assms(1) om.get_None_iff [of m k]
    by (intro exI [of _ ?h]) (simp add: map_insert_def map_get_def map_keys_snapshot_def om.keys_ins)
qed

theorem map_insert_get_witness:
  "\<exists>h'. map_insert no_visitors 0 ''k'' (Bool True) [\<lparr> cell_data = MapData [(''k'', Null)], traversals = 0 \<rparr>] ()
          = (Inr (Some Null), h', ()) \<and> map_get no_visitors 0 ''k'' h' () = (Inr (Some (Bool True)), ())"
  using map_insert_get [of "[\<lparr> cell_data = MapData [(''k'', Null)], traversals = 0 \<rparr>]" 0 "[(''k'', Null)]" "''k''"
      "Bool True" no_visitors "()"]
  by (auto simp: fetch_map_Some om_get_def)

text \<open>Multi-map membership: \<open>contains_value\<close> holds exactly when at least one value is asked for and
all of them are stored under the key. For an empty list of values the answer is false, although all
of them are present.\<close>

theorem multimap_contains_value_exact:
  assumes "fetch_multimap h a = Some (m, t)"
  shows "multimap_contains_value a k values h =
     (Inr (values \<noteq> [] \<and> (\<exists>vs. om_get m k = Some vs \<and> set values \<subseteq> set vs)), h)"
  using assms by (auto simp: multimap_contains_value_def contains_loop_iff split: option.split)

theorem multimap_contains_value_exact_witness:
  "multimap_contains_value 0 ''k'' [] [\<lparr> cell_data = MultiMapData [(''k'', [''x''])], traversals = 0 \<rparr>]
   = (Inr False, [\<lparr> cell_data = MultiMapData [(''k'', [''x''])], traversals = 0 \<rparr>])"
  using multimap_contains_value_exact [of "[\<lparr> cell_data = MultiMapData [(''k'', [''x''])], traversals = 0 \<rparr>]" 0
      "[(''k'', [''x''])]" 0 "''k''" "[]"]
  by (simp add: fetch_multimap_Some)

end
