(* ===== verification/Env.thy ===== *)
theory Env
  imports Coll
begin

text \<open>Variables of the process-chain interpreter (\<open>cyfs-process-chain/src/chain/env.rs\<close>, \<open>external.rs\<close>
and \<open>env_manager.rs\<close>).

The four environments of a running block form a chain block, chain, global, hook point; a lookup that
fails in one continues in the next. They live in the record \<open>pc\<close> together with the collection heap, the
tracker of variable levels and the execution policy. An operation is a function from the state to a
result and a state, so that an error keeps the changes made before it. External environments and
visitors are trait objects that act on an opaque world \<open>'w\<close>.\<close>

section \<open>State-error operations\<close>

datatype pc_error =
    CollErr coll_error
  | ExternalErr string
  | DuplicateExternal string
  | InvalidListIndex string
  | CreateIndexOutOfBounds nat nat
  | SetIndexOutOfBounds nat nat
  | ExpectedString string
  | CannotInsertNew string
  | ExpectedMap string TypedValue
  | ParentNotFound "string list"
  | Failed string string
  | Runtime string pc_error
  | RuntimeBoth string pc_error pc_error
  | StackDepthExceeded nat
  | Panic string
  | OutOfFuel

text \<open>\<open>Failed\<close> stands for a formatted message: its fixed text and the name it mentions. \<open>Runtime\<close> is a
message wrapped around a cause, \<open>RuntimeBoth\<close> one around two. \<open>Panic\<close> is a failed assertion of the code,
and \<open>OutOfFuel\<close> belongs to the model alone.\<close>

fun out_of_fuel :: "pc_error \<Rightarrow> bool" where
  "out_of_fuel OutOfFuel = True"
| "out_of_fuel (Runtime m e) = out_of_fuel e"
| "out_of_fuel (RuntimeBoth m e e') = (out_of_fuel e \<or> out_of_fuel e')"
| "out_of_fuel _ = False"

fun fuel_result :: "(pc_error, 'a) result \<Rightarrow> bool" where
  "fuel_result (Inl e) = (\<not> out_of_fuel e)"
| "fuel_result (Inr x) = True"

type_synonym ('e, 's, 'a) eop = "'s \<Rightarrow> ('e, 'a) result \<times> 's"

type_synonym ('s, 'a) op = "(pc_error, 's, 'a) eop"

definition ret :: "'a \<Rightarrow> ('e, 's, 'a) eop" where
  "ret x s = (Inr x, s)"

definition fail :: "'e \<Rightarrow> ('e, 's, 'a) eop" where
  "fail e s = (Inl e, s)"

definition bind :: "('e, 's, 'a) eop \<Rightarrow> ('a \<Rightarrow> ('e, 's, 'b) eop) \<Rightarrow> ('e, 's, 'b) eop" where
  "bind m f s = (case m s of (Inl e, s) \<Rightarrow> (Inl e, s) | (Inr x, s) \<Rightarrow> f x s)"

lemma bind_cong [fundef_cong]:
  assumes "s = s'" "m s' = m' s'" "\<And>x t. m' s' = (Inr x, t) \<Longrightarrow> f x t = f' x t"
  shows "bind m f s = bind m' f' s'"
  using assms by (auto simp: bind_def split: prod.split sum.split)

lemma bind_simps [simp]:
  "m s = (Inl e, t) \<Longrightarrow> bind m f s = (Inl e, t)"
  "m s = (Inr x, t) \<Longrightarrow> bind m f s = f x t"
  by (simp_all add: bind_def)

lemma ret_apply [simp]: "ret x s = (Inr x, s)" and fail_apply [simp]: "fail e s = (Inl e, s)"
  by (simp_all add: ret_def fail_def)

section \<open>External environments\<close>

record 'w external =
  ext_contains :: "string \<Rightarrow> (string, 'w, bool) eop"
  ext_get_existing :: "string \<Rightarrow> (string, 'w, bool \<times> TypedValue option) eop"
  ext_set_existing :: "string \<Rightarrow> TypedValue \<Rightarrow> (string, 'w, bool \<times> TypedValue option) eop"
  ext_remove_existing :: "string \<Rightarrow> (string, 'w, bool \<times> TypedValue option) eop"

text \<open>The trait's default methods, in terms of the four required ones.\<close>

definition default_external ::
    "(string \<Rightarrow> (string, 'w, bool) eop) \<Rightarrow> (string \<Rightarrow> (string, 'w, TypedValue option) eop) \<Rightarrow>
     (string \<Rightarrow> TypedValue \<Rightarrow> (string, 'w, TypedValue option) eop) \<Rightarrow> (string \<Rightarrow> (string, 'w, TypedValue option) eop) \<Rightarrow>
     'w external" where
  "default_external contains fetch_value assign delete = \<lparr>
     ext_contains = contains,
     ext_get_existing = (\<lambda>key. bind (contains key) (\<lambda>c.
        if c then bind (fetch_value key) (\<lambda>v. ret (True, v)) else ret (False, None))),
     ext_set_existing = (\<lambda>key value. bind (contains key) (\<lambda>c.
        if c then bind (assign key value) (\<lambda>v. ret (True, v)) else ret (False, None))),
     ext_remove_existing = (\<lambda>key. bind (contains key) (\<lambda>c.
        if c then bind (delete key) (\<lambda>v. ret (True, v)) else ret (False, None))) \<rparr>"

type_synonym 'w externals = "(string \<times> 'w external) list"

definition has_external :: "'w externals \<Rightarrow> bool" where
  "has_external es = (length es > 0)"

definition add_external :: "string \<Rightarrow> 'w external \<Rightarrow> ('w externals, unit) op" where
  "add_external name value es =
     (if list_ex (\<lambda>(i, _). i = name) es then (Inl (DuplicateExternal name), es)
      else (Inr (), es @ [(name, value)]))"

fun remove_external :: "string \<Rightarrow> 'w externals \<Rightarrow> 'w external option \<times> 'w externals" where
  "remove_external name [] = (None, [])"
| "remove_external name ((i, e) # es) =
     (if i = name then (Some e, es)
      else (let (r, es') = remove_external name es in (r, (i, e) # es')))"

fun get_external :: "string \<Rightarrow> 'w externals \<Rightarrow> 'w external option" where
  "get_external name [] = None"
| "get_external name ((i, e) # es) = (if i = name then Some e else get_external name es)"

fun externals_contains :: "'w externals \<Rightarrow> string \<Rightarrow> (string, 'w, bool) eop" where
  "externals_contains [] key = ret False"
| "externals_contains ((_, e) # es) key =
     bind (ext_contains e key) (\<lambda>c. if c then ret True else externals_contains es key)"

fun externals_get :: "'w externals \<Rightarrow> string \<Rightarrow> (string, 'w, bool \<times> TypedValue option) eop" where
  "externals_get [] key = ret (False, None)"
| "externals_get ((_, e) # es) key =
     bind (ext_get_existing e key) (\<lambda>(handled, value).
       if handled then ret (True, value) else externals_get es key)"

fun externals_set :: "'w externals \<Rightarrow> string \<Rightarrow> TypedValue \<Rightarrow> (string, 'w, bool \<times> TypedValue option) eop" where
  "externals_set [] key v = ret (False, None)"
| "externals_set ((_, e) # es) key v =
     bind (ext_set_existing e key v) (\<lambda>(handled, old).
       if handled then ret (True, old) else externals_set es key v)"

fun externals_remove :: "'w externals \<Rightarrow> string \<Rightarrow> (string, 'w, bool \<times> TypedValue option) eop" where
  "externals_remove [] key = ret (False, None)"
| "externals_remove ((_, e) # es) key =
     bind (ext_remove_existing e key) (\<lambda>(handled, old).
       if handled then ret (True, old) else externals_remove es key)"

section \<open>Environments\<close>

datatype EnvLevel = Global | Chain | Block

definition default_level :: EnvLevel where
  "default_level = Chain"

fun level_as_str :: "EnvLevel \<Rightarrow> string" where
  "level_as_str Global = ''global''"
| "level_as_str Chain = ''chain''"
| "level_as_str Block = ''block''"

definition level_from_str :: "string \<Rightarrow> EnvLevel option" where
  "level_from_str s = (if s = ''global'' then Some Global else if s = ''chain'' then Some Chain
     else if s = ''block'' then Some Block else None)"

record 'w env =
  env_values :: "TypedValue omap"
  env_external :: "'w externals"

definition new_env :: "'w env" where
  "new_env = \<lparr> env_values = [], env_external = [] \<rparr>"

datatype MissingVarPolicy = MissingLenient | MissingStrict

datatype CoercionPolicy = CoercionLegacy | CoercionWarn | CoercionStrict

record ExecutionPolicy =
  missing_var :: MissingVarPolicy
  coercion :: CoercionPolicy

definition default_policy :: ExecutionPolicy where
  "default_policy = \<lparr> missing_var = MissingLenient, coercion = CoercionLegacy \<rparr>"

text \<open>\<open>hook_env\<close> is the parent of the global environment, absent when the chain runs without a hook point.\<close>

record 'w pc =
  pc_heap :: heap
  pc_world :: 'w
  hook_env :: "'w env option"
  global_env :: "'w env"
  chain_env :: "'w env"
  block_env :: "'w env"
  tracker :: "string \<rightharpoonup> EnvLevel"
  policy :: ExecutionPolicy

fun get_env :: "EnvLevel \<Rightarrow> 'w pc \<Rightarrow> 'w env" where
  "get_env Global s = global_env s"
| "get_env Chain s = chain_env s"
| "get_env Block s = block_env s"

fun put_env :: "EnvLevel \<Rightarrow> 'w env \<Rightarrow> 'w pc \<Rightarrow> 'w pc" where
  "put_env Global e s = s\<lparr> global_env := e \<rparr>"
| "put_env Chain e s = s\<lparr> chain_env := e \<rparr>"
| "put_env Block e s = s\<lparr> block_env := e \<rparr>"

definition in_world :: "(string, 'w, 'a) eop \<Rightarrow> ('w pc, 'a) op" where
  "in_world f s = (let (r, w) = f (pc_world s) in
     (case r of Inl e \<Rightarrow> Inl (ExternalErr e) | Inr x \<Rightarrow> Inr x, s\<lparr> pc_world := w \<rparr>))"

definition in_heap :: "'a heap_op \<Rightarrow> ('w pc, 'a) op" where
  "in_heap f s = (let (r, h) = f (pc_heap s) in
     (case r of Inl e \<Rightarrow> Inl (CollErr e) | Inr x \<Rightarrow> Inr x, s\<lparr> pc_heap := h \<rparr>))"

fun lift_coll :: "(coll_error, 'a) result \<Rightarrow> (pc_error, 'a) result" where
  "lift_coll (Inl e) = Inl (CollErr e)"
| "lift_coll (Inr x) = Inr x"

definition env_values_get :: "'w visitors \<Rightarrow> 'w env \<Rightarrow> string \<Rightarrow> ('w pc, TypedValue option) op" where
  "env_values_get vs e key s =
     (let (r, w) = entry_get vs key (env_values e) (pc_world s) in (lift_coll r, s\<lparr> pc_world := w \<rparr>))"

definition env_values_insert ::
    "'w visitors \<Rightarrow> EnvLevel \<Rightarrow> string \<Rightarrow> TypedValue \<Rightarrow> ('w pc, TypedValue option) op" where
  "env_values_insert vs l key v s =
     (let e = get_env l s; (r, m, w) = entry_insert vs key v (env_values e) (pc_world s)
      in (lift_coll r, put_env l (e\<lparr> env_values := m \<rparr>) (s\<lparr> pc_world := w \<rparr>)))"

definition env_contains :: "EnvLevel \<Rightarrow> string \<Rightarrow> ('w pc, bool) op" where
  "env_contains l key s =
     (let e = get_env l s in
      if om_get (env_values e) key \<noteq> None then (Inr True, s)
      else if \<not> has_external (env_external e) then (Inr False, s)
      else in_world (externals_contains (env_external e) key) s)"

definition env_create :: "EnvLevel \<Rightarrow> string \<Rightarrow> TypedValue \<Rightarrow> ('w pc, bool) op" where
  "env_create l key v s =
     (let e = get_env l s; (new, m) = entry_insert_new key v (env_values e)
      in (Inr new, put_env l (e\<lparr> env_values := m \<rparr>) s))"

definition env_set :: "'w visitors \<Rightarrow> EnvLevel \<Rightarrow> string \<Rightarrow> TypedValue \<Rightarrow> ('w pc, TypedValue option) op" where
  "env_set vs l key v s =
     (let e = get_env l s in
      if \<not> has_external (env_external e) then env_values_insert vs l key v s
      else if om_get (env_values e) key \<noteq> None then env_values_insert vs l key v s
      else bind (in_world (externals_set (env_external e) key v)) (\<lambda>(handled, old).
             if handled then ret old else env_values_insert vs l key v) s)"

text \<open>\<open>env_walk\<close> follows the parent links from one environment upwards.\<close>

fun env_walk :: "'w visitors \<Rightarrow> 'w env list \<Rightarrow> string \<Rightarrow> ('w pc, TypedValue option) op" where
  "env_walk vs [] key = ret None"
| "env_walk vs (e # parents) key =
     bind (env_values_get vs e key) (\<lambda>local. case local of
       Some v \<Rightarrow> ret (Some v)
     | None \<Rightarrow>
         if has_external (env_external e) then
           bind (in_world (externals_get (env_external e) key)) (\<lambda>(handled, v).
             if handled then ret v else env_walk vs parents key)
         else env_walk vs parents key)"

definition hook_envs :: "'w pc \<Rightarrow> 'w env list" where
  "hook_envs s = (case hook_env s of Some e \<Rightarrow> [e] | None \<Rightarrow> [])"

fun parents :: "EnvLevel \<Rightarrow> 'w pc \<Rightarrow> 'w env list" where
  "parents Global s = hook_envs s"
| "parents Chain s = global_env s # hook_envs s"
| "parents Block s = chain_env s # global_env s # hook_envs s"

definition env_get :: "'w visitors \<Rightarrow> EnvLevel \<Rightarrow> string \<Rightarrow> ('w pc, TypedValue option) op" where
  "env_get vs l key s = env_walk vs (get_env l s # parents l s) key s"

definition env_remove :: "EnvLevel \<Rightarrow> string \<Rightarrow> ('w pc, TypedValue option) op" where
  "env_remove l key s =
     (let e = get_env l s in
      case om_get (env_values e) key of
        Some v \<Rightarrow> (Inr (Some v), put_env l (e\<lparr> env_values := om_remove key (env_values e) \<rparr>) s)
      | None \<Rightarrow>
          if \<not> has_external (env_external e) then (Inr None, s)
          else bind (in_world (externals_remove (env_external e) key)) (\<lambda>(handled, old).
                 if handled then ret old else ret None) s)"

section \<open>Variable paths\<close>

definition is_simple_root_key :: "string \<Rightarrow> bool" where
  "is_simple_root_key key = (key \<noteq> [] \<and>
     list_all (\<lambda>ch. ch \<notin> set ''.[]()'' \<and> ch \<noteq> CHR 0x5C \<and> \<not> is_whitespace ch) key)"

definition normalize_path_part :: "string \<Rightarrow> string" where
  "normalize_path_part p = (let part = trim p in
     if length part \<ge> 2 \<and> hd part = CHR ''('' \<and> last part = CHR '')''
     then trim (butlast (tl part)) else part)"

text \<open>\<open>parse_bracket_part\<close> on the text behind the opening bracket: the content of the segment and the text
behind it, or \<open>None\<close> for an unclosed or malformed segment.\<close>

fun quoted_content :: "char \<Rightarrow> bool \<Rightarrow> string \<Rightarrow> string \<Rightarrow> (string \<times> string) option" where
  "quoted_content quote escaped content [] = None"
| "quoted_content quote escaped content (ch # rest) =
     (if escaped then quoted_content quote False (content @ [ch]) rest
      else if ch = CHR 0x5C then quoted_content quote True content rest
      else if ch = quote then Some (content, rest)
      else quoted_content quote False (content @ [ch]) rest)"

fun nested_content :: "nat \<Rightarrow> string \<Rightarrow> string \<Rightarrow> (string \<times> string) option" where
  "nested_content depth content [] = None"
| "nested_content depth content (ch # rest) =
     (if ch = CHR ''['' then nested_content (depth + 1) (content @ [ch]) rest
      else if ch = CHR '']'' then
        (if depth - 1 = 0 then Some (trim content, rest)
         else nested_content (depth - 1) (content @ [ch]) rest)
      else nested_content depth (content @ [ch]) rest)"

definition parse_bracket_part :: "string \<Rightarrow> (string \<times> string) option" where
  "parse_bracket_part key =
     (case trim_start key of
        [] \<Rightarrow> None
      | first # rest \<Rightarrow>
          if first = CHR 0x22 \<or> first = CHR 0x27 then
            (case quoted_content first False [] rest of
               None \<Rightarrow> None
             | Some (content, rest) \<Rightarrow>
                 (case trim_start rest of
                    ch # rest \<Rightarrow> if ch = CHR '']'' then Some (content, rest) else None
                  | [] \<Rightarrow> None))
          else nested_content 1 [] (first # rest))"

lemma quoted_content_shorter:
  "quoted_content q b c s = Some (c', r) \<Longrightarrow> length r < length s"
  by (induction q b c s rule: quoted_content.induct) (fastforce split: if_splits)+

lemma nested_content_shorter:
  "nested_content d c s = Some (c', r) \<Longrightarrow> length r < length s"
  by (induction d c s rule: nested_content.induct) (fastforce split: if_splits)+

lemma length_trim_start: "length (trim_start s) \<le> length s"
  by (simp add: trim_start_def length_dropWhile_le)

lemma parse_bracket_part_shorter:
  assumes "parse_bracket_part s = Some (c, r)"
  shows "length r < length s"
proof (cases "trim_start s")
  case (Cons f t)
  have "length t < length s" using length_trim_start [of s] Cons by simp
  moreover have "length r < length (f # t)"
  proof (cases "f = CHR 0x22 \<or> f = CHR 0x27")
    case True
    then obtain c' u ch v where "quoted_content f False [] t = Some (c', u)" "trim_start u = ch # v" "r = v"
      using assms Cons by (auto simp: parse_bracket_part_def split: option.splits list.splits if_splits)
    then show ?thesis
      using quoted_content_shorter [of f False "[]" t c' u] length_trim_start [of u] by simp
  next
    case False
    then show ?thesis
      using assms Cons nested_content_shorter [of 1 "[]" "f # t" c r] by (simp add: parse_bracket_part_def)
  qed
  ultimately show ?thesis by simp
qed (use assms in \<open>simp add: parse_bracket_part_def\<close>)

definition push_part :: "string list \<Rightarrow> string \<Rightarrow> string list" where
  "push_part parts current = (if current \<noteq> [] then parts @ [normalize_path_part current] else parts)"

function parse_var_loop :: "string list \<Rightarrow> string \<Rightarrow> string \<Rightarrow> string list" where
  "parse_var_loop parts current [] =
     (if current \<noteq> [] \<or> parts = [] then parts @ [normalize_path_part current] else parts)"
| "parse_var_loop parts current (ch # rest) =
     (if ch = CHR 0x5C then
        (case rest of
           escaped # rest \<Rightarrow> parse_var_loop parts (current @ [escaped]) rest
         | [] \<Rightarrow> parse_var_loop parts (current @ [CHR 0x5C]) [])
      else if ch = CHR ''.'' then parse_var_loop (push_part parts current) [] rest
      else if ch = CHR ''['' then
        (case parse_bracket_part rest of
           Some (part, after) \<Rightarrow>
             parse_var_loop (push_part parts current @ [normalize_path_part part]) [] after
         | None \<Rightarrow> parse_var_loop (push_part parts current) [ch] rest)
      else parse_var_loop parts (current @ [ch]) rest)"
  by pat_completeness auto
termination
  by (relation "measure (\<lambda>(parts, current, s). length s)")
     (auto dest: parse_bracket_part_shorter)

definition parse_var :: "string \<Rightarrow> string list" where
  "parse_var key = parse_var_loop [] [] key"

section \<open>The level tracker\<close>

definition root_of :: "string \<Rightarrow> string" where
  "root_of key = (if is_simple_root_key key then key else hd (parse_var key))"

definition get_var_level_for_root :: "string \<Rightarrow> 'w pc \<Rightarrow> EnvLevel" where
  "get_var_level_for_root key s = (case tracker s key of Some l \<Rightarrow> l | None \<Rightarrow> default_level)"

definition get_var_level :: "string \<Rightarrow> 'w pc \<Rightarrow> EnvLevel" where
  "get_var_level key s = get_var_level_for_root (root_of key) s"

definition var_level_entry :: "string \<Rightarrow> 'w pc \<Rightarrow> EnvLevel option" where
  "var_level_entry key s = tracker s (root_of key)"

definition restore_var_level_entry :: "string \<Rightarrow> EnvLevel option \<Rightarrow> 'w pc \<Rightarrow> 'w pc" where
  "restore_var_level_entry key level s = s\<lparr> tracker := (tracker s)(root_of key := level) \<rparr>"

definition change_var_level_for_root :: "string \<Rightarrow> EnvLevel option \<Rightarrow> 'w pc \<Rightarrow> 'w pc" where
  "change_var_level_for_root key level s =
     (let level = (case level of Some l \<Rightarrow> l | None \<Rightarrow> default_level) in
      case tracker s key of
        Some cur \<Rightarrow> if cur \<noteq> level then s\<lparr> tracker := (tracker s)(key \<mapsto> level) \<rparr> else s
      | None \<Rightarrow> if level \<noteq> default_level then s\<lparr> tracker := (tracker s)(key \<mapsto> level) \<rparr> else s)"

definition change_var_level :: "string \<Rightarrow> EnvLevel option \<Rightarrow> 'w pc \<Rightarrow> 'w pc" where
  "change_var_level key level s = change_var_level_for_root (root_of key) level s"

definition should_change_var_level_for_root :: "string \<Rightarrow> EnvLevel \<Rightarrow> 'w pc \<Rightarrow> bool" where
  "should_change_var_level_for_root key level s =
     (case tracker s key of Some cur \<Rightarrow> cur \<noteq> level | None \<Rightarrow> level \<noteq> default_level)"

definition resolve_level :: "string \<Rightarrow> EnvLevel option \<Rightarrow> 'w pc \<Rightarrow> EnvLevel" where
  "resolve_level key level s = (case level of Some l \<Rightarrow> l | None \<Rightarrow> get_var_level_for_root key s)"

definition track :: "string \<Rightarrow> EnvLevel \<Rightarrow> 'w pc \<Rightarrow> 'w pc" where
  "track key level s =
     (if should_change_var_level_for_root key level s then change_var_level_for_root key (Some level) s
      else s)"

section \<open>Collections on a path\<close>

datatype PathCollection =
    Root EnvLevel
  | PList addr
  | PMap addr
  | PSet addr
  | PMultiMap addr

text \<open>\<open>str::parse::<usize>\<close>: an optional plus sign, at least one digit, and a value below \<open>2^64\<close>.\<close>

definition digits_value :: "string \<Rightarrow> nat" where
  "digits_value ds = foldl (\<lambda>n c. 10 * n + (of_char c - 48)) 0 ds"

definition parse_usize :: "string \<Rightarrow> nat option" where
  "parse_usize s =
     (let ds = (case s of c # cs \<Rightarrow> if c = CHR ''+'' then cs else s | [] \<Rightarrow> []) in
      if ds \<noteq> [] \<and> list_all is_ascii_digit ds \<and> digits_value ds < 2 ^ 64 then Some (digits_value ds)
      else None)"

definition parse_list_index :: "string \<Rightarrow> ('s, nat) op" where
  "parse_list_index key =
     (case parse_usize key of Some i \<Rightarrow> ret i | None \<Rightarrow> fail (InvalidListIndex key))"

definition pc_map_get :: "'w visitors \<Rightarrow> addr \<Rightarrow> string \<Rightarrow> ('w pc, TypedValue option) op" where
  "pc_map_get vs a key s =
     (let (r, w) = map_get vs a key (pc_heap s) (pc_world s) in (lift_coll r, s\<lparr> pc_world := w \<rparr>))"

definition pc_map_insert ::
    "'w visitors \<Rightarrow> addr \<Rightarrow> string \<Rightarrow> TypedValue \<Rightarrow> ('w pc, TypedValue option) op" where
  "pc_map_insert vs a key v s =
     (let (r, h, w) = map_insert vs a key v (pc_heap s) (pc_world s)
      in (lift_coll r, s\<lparr> pc_heap := h, pc_world := w \<rparr>))"

fun path_get :: "'w visitors \<Rightarrow> PathCollection \<Rightarrow> string \<Rightarrow> ('w pc, TypedValue option) op" where
  "path_get vs (Root l) key = env_get vs l key"
| "path_get vs (PList a) key = bind (parse_list_index key) (\<lambda>i. in_heap (list_get a i))"
| "path_get vs (PMap a) key = pc_map_get vs a key"
| "path_get vs (PSet a) key =
     bind (in_heap (set_contains a key)) (\<lambda>c. ret (if c then Some (String key) else None))"
| "path_get vs (PMultiMap a) key =
     bind (in_heap (multimap_get_many a key)) (\<lambda>r. ret (map_option Set r))"

fun path_insert_new :: "PathCollection \<Rightarrow> string \<Rightarrow> TypedValue \<Rightarrow> ('w pc, bool) op" where
  "path_insert_new (Root l) key v = env_create l key v"
| "path_insert_new (PList a) key v =
     bind (parse_list_index key) (\<lambda>i. bind (in_heap (list_len a)) (\<lambda>len.
       if i > len then fail (CreateIndexOutOfBounds i len)
       else if i = len then bind (in_heap (list_insert a i v)) (\<lambda>_. ret True)
       else ret False))"
| "path_insert_new (PMap a) key v = in_heap (map_insert_new a key v)"
| "path_insert_new (PSet a) key v =
     (case v of String str \<Rightarrow> in_heap (set_insert a str) | _ \<Rightarrow> fail (ExpectedString key))"
| "path_insert_new (PMultiMap a) key v = fail (CannotInsertNew key)"

fun path_insert :: "'w visitors \<Rightarrow> PathCollection \<Rightarrow> string \<Rightarrow> TypedValue \<Rightarrow> ('w pc, TypedValue option) op" where
  "path_insert vs (Root l) key v = env_set vs l key v"
| "path_insert vs (PList a) key v =
     bind (parse_list_index key) (\<lambda>i. bind (in_heap (list_len a)) (\<lambda>len.
       if i < len then in_heap (list_set a i v)
       else if i = len then bind (in_heap (list_insert a i v)) (\<lambda>_. ret None)
       else fail (SetIndexOutOfBounds i len)))"
| "path_insert vs (PMap a) key v = pc_map_insert vs a key v"
| "path_insert vs (PSet a) key v =
     (case v of
        String str \<Rightarrow> bind (in_heap (set_insert a str)) (\<lambda>new. ret (if new then None else Some (String str)))
      | _ \<Rightarrow> fail (ExpectedString key))"
| "path_insert vs (PMultiMap a) key v =
     (case v of
        String str \<Rightarrow>
          bind (in_heap (multimap_insert a key str)) (\<lambda>new. ret (if new then None else Some (String str)))
      | _ \<Rightarrow> fail (ExpectedString key))"

fun path_remove :: "PathCollection \<Rightarrow> string \<Rightarrow> ('w pc, TypedValue option) op" where
  "path_remove (Root l) key = env_remove l key"
| "path_remove (PList a) key = bind (parse_list_index key) (\<lambda>i. in_heap (list_remove a i))"
| "path_remove (PMap a) key = in_heap (map_remove a key)"
| "path_remove (PSet a) key =
     bind (in_heap (set_contains a key)) (\<lambda>c.
       if c then bind (in_heap (set_remove a key)) (\<lambda>_. ret (Some (String key))) else ret None)"
| "path_remove (PMultiMap a) key =
     bind (in_heap (multimap_remove_all a key)) (\<lambda>r. ret (map_option Set r))"

text \<open>\<open>get_parent_collection_by_path\<close>: resolve all parts of the path but the last. A set or a multi-map may
only stand in front of the last part.\<close>

fun parent_collection :: "'w visitors \<Rightarrow> PathCollection \<Rightarrow> string list \<Rightarrow> ('w pc, PathCollection option) op" where
  "parent_collection vs current [] = ret (Some current)"
| "parent_collection vs current (part # rest) =
     bind (path_get vs current part) (\<lambda>found. case found of
       None \<Rightarrow> ret None
     | Some (Map a) \<Rightarrow> parent_collection vs (PMap a) rest
     | Some (List a) \<Rightarrow> parent_collection vs (PList a) rest
     | Some (MultiMap a) \<Rightarrow> if rest = [] then ret (Some (PMultiMap a)) else fail (ExpectedMap part (MultiMap a))
     | Some (Set a) \<Rightarrow> if rest = [] then ret (Some (PSet a)) else fail (ExpectedMap part (Set a))
     | Some v \<Rightarrow> fail (ExpectedMap part v))"

definition get_parent_collection_by_path ::
    "'w visitors \<Rightarrow> string list \<Rightarrow> EnvLevel \<Rightarrow> ('w pc, PathCollection option) op" where
  "get_parent_collection_by_path vs key_list level =
     parent_collection vs (Root level) (butlast key_list)"

section \<open>The environment manager\<close>

definition create_inner :: "'w visitors \<Rightarrow> EnvLevel \<Rightarrow> string list \<Rightarrow> TypedValue \<Rightarrow> ('w pc, bool) op" where
  "create_inner vs level key_list v =
     bind (get_parent_collection_by_path vs key_list level) (\<lambda>p. case p of
       None \<Rightarrow> fail (ParentNotFound key_list)
     | Some coll \<Rightarrow> path_insert_new coll (last key_list) v)"

definition create :: "'w visitors \<Rightarrow> string \<Rightarrow> TypedValue \<Rightarrow> EnvLevel \<Rightarrow> ('w pc, bool) op" where
  "create vs key v level =
     (if is_simple_root_key key then
        bind (env_create level key v) (\<lambda>new s. (Inr new, if new then track key level s else s))
      else
        (let key_list = parse_var key in
         bind (create_inner vs level key_list v)
              (\<lambda>new s. (Inr new, if new then track (hd key_list) level s else s))))"

datatype CollectionType = ListType | SetType | MapType | MultiMapType

fun empty_collection :: "CollectionType \<Rightarrow> coll_data" where
  "empty_collection ListType = ListData []"
| "empty_collection SetType = SetData []"
| "empty_collection MapType = MapData []"
| "empty_collection MultiMapType = MultiMapData []"

fun collection_value :: "CollectionType \<Rightarrow> addr \<Rightarrow> TypedValue" where
  "collection_value ListType a = List a"
| "collection_value SetType a = Set a"
| "collection_value MapType a = Map a"
| "collection_value MultiMapType a = MultiMap a"

definition create_collection ::
    "'w visitors \<Rightarrow> string \<Rightarrow> CollectionType \<Rightarrow> EnvLevel \<Rightarrow> ('w pc, TypedValue option) op" where
  "create_collection vs key t level s =
     (let (a, h) = alloc (empty_collection t) (pc_heap s); value = collection_value t a in
      bind (create vs key value level) (\<lambda>new. ret (if new then Some value else None)) (s\<lparr> pc_heap := h \<rparr>))"

definition set_simple_root_at_level ::
    "'w visitors \<Rightarrow> string \<Rightarrow> TypedValue \<Rightarrow> EnvLevel \<Rightarrow> ('w pc, TypedValue option) op" where
  "set_simple_root_at_level vs key v level =
     bind (env_set vs level key v) (\<lambda>old s. (Inr old, track key level s))"

definition set_simple_root_at_explicit_level ::
    "'w visitors \<Rightarrow> string \<Rightarrow> TypedValue \<Rightarrow> EnvLevel \<Rightarrow> ('w pc, TypedValue option) op" where
  "set_simple_root_at_explicit_level vs key v level =
     bind (env_set vs level key v) (\<lambda>old s. (Inr old, change_var_level_for_root key (Some level) s))"

definition set_inner ::
    "'w visitors \<Rightarrow> EnvLevel \<Rightarrow> string list \<Rightarrow> TypedValue \<Rightarrow> ('w pc, TypedValue option) op" where
  "set_inner vs level key_list v =
     bind (get_parent_collection_by_path vs key_list level) (\<lambda>p. case p of
       None \<Rightarrow> fail (ParentNotFound key_list)
     | Some coll \<Rightarrow> path_insert vs coll (last key_list) v)"

definition set_var :: "'w visitors \<Rightarrow> string \<Rightarrow> TypedValue \<Rightarrow> EnvLevel option \<Rightarrow> ('w pc, TypedValue option) op" where
  "set_var vs key v level s =
     (if is_simple_root_key key then set_simple_root_at_level vs key v (resolve_level key level s) s
      else
        (let key_list = parse_var key; root_key = hd key_list; level = resolve_level root_key level s in
         bind (set_inner vs level key_list v) (\<lambda>old s. (Inr old, track root_key level s)) s))"

definition get_inner :: "'w visitors \<Rightarrow> EnvLevel \<Rightarrow> string list \<Rightarrow> ('w pc, TypedValue option) op" where
  "get_inner vs level key_list =
     bind (get_parent_collection_by_path vs key_list level) (\<lambda>p. case p of
       None \<Rightarrow> ret None
     | Some coll \<Rightarrow> path_get vs coll (last key_list))"

definition get_var :: "'w visitors \<Rightarrow> string \<Rightarrow> EnvLevel option \<Rightarrow> ('w pc, TypedValue option) op" where
  "get_var vs key level s =
     (if is_simple_root_key key then env_get vs (resolve_level key level s) key s
      else (let key_list = parse_var key in
            get_inner vs (resolve_level (hd key_list) level s) key_list s))"

definition remove_inner :: "'w visitors \<Rightarrow> EnvLevel \<Rightarrow> string list \<Rightarrow> ('w pc, TypedValue option) op" where
  "remove_inner vs level key_list =
     bind (get_parent_collection_by_path vs key_list level) (\<lambda>p. case p of
       None \<Rightarrow> fail (ParentNotFound key_list)
     | Some coll \<Rightarrow> path_remove coll (last key_list))"

definition remove_var :: "'w visitors \<Rightarrow> string \<Rightarrow> EnvLevel option \<Rightarrow> ('w pc, TypedValue option) op" where
  "remove_var vs key level s =
     (if is_simple_root_key key then env_remove (resolve_level key level s) key s
      else (let key_list = parse_var key in
            remove_inner vs (resolve_level (hd key_list) level s) key_list s))"

section \<open>Forking\<close>

text \<open>\<open>Context::fork_block\<close> and \<open>fork_chain\<close>: a fresh block environment (and chain environment), an empty
tracker and a copy of the policy; \<open>leave_block\<close> and \<open>leave_chain\<close> give the caller its own ones back.\<close>

definition fork_block :: "'w pc \<Rightarrow> 'w pc" where
  "fork_block s = s\<lparr> block_env := new_env, tracker := Map.empty \<rparr>"

definition fork_chain :: "'w pc \<Rightarrow> 'w pc" where
  "fork_chain s = s\<lparr> chain_env := new_env, block_env := new_env, tracker := Map.empty \<rparr>"

definition leave_block :: "'w pc \<Rightarrow> 'w pc \<Rightarrow> 'w pc" where
  "leave_block caller s = s\<lparr> block_env := block_env caller, tracker := tracker caller, policy := policy caller \<rparr>"

definition leave_chain :: "'w pc \<Rightarrow> 'w pc \<Rightarrow> 'w pc" where
  "leave_chain caller s = leave_block caller (s\<lparr> chain_env := chain_env caller \<rparr>)"

section \<open>What the operations keep\<close>

definition pc_ok :: "'w pc \<Rightarrow> bool" where
  "pc_ok s = (heap_ok (pc_heap s) \<and> om_wf (env_values (global_env s)) \<and> om_wf (env_values (chain_env s)) \<and>
     om_wf (env_values (block_env s)) \<and> list_all (\<lambda>e. om_wf (env_values e)) (hook_envs s))"

text \<open>\<open>keeps b m\<close>: from a well-formed state, \<open>m\<close> reaches a well-formed state, leaves the traversal counter of
every collection as it was, and does not touch a collection that is being traversed; if \<open>b\<close> is set, \<open>m\<close>
does not run out of fuel.\<close>

definition keeps :: "bool \<Rightarrow> ('w pc, 'a) op \<Rightarrow> bool" where
  "keeps b m = (\<forall>s. pc_ok s \<longrightarrow> heap_evolves (pc_heap s) (pc_heap (snd (m s))) \<and> pc_ok (snd (m s)) \<and>
     (b \<longrightarrow> fuel_result (fst (m s))))"

definition heap_keeps :: "'a heap_op \<Rightarrow> bool" where
  "heap_keeps f = (\<forall>h. heap_evolves h (snd (f h)) \<and> (heap_ok h \<longrightarrow> heap_ok (snd (f h))))"

named_theorems keeps_intros

lemma keepsI:
  assumes "\<And>s. pc_ok s \<Longrightarrow> heap_evolves (pc_heap s) (pc_heap (snd (m s)))"
    "\<And>s. pc_ok s \<Longrightarrow> pc_ok (snd (m s))" "\<And>s. pc_ok s \<Longrightarrow> b \<Longrightarrow> fuel_result (fst (m s))"
  shows "keeps b m"
  using assms by (simp add: keeps_def)

lemma keeps_ret [keeps_intros]: "keeps b (ret x)"
  and keeps_fail [keeps_intros]: "\<not> out_of_fuel e \<Longrightarrow> keeps b (fail e)"
  and keeps_Pair [keeps_intros]: "fuel_result r \<Longrightarrow> keeps b (Pair r)"
  by (simp_all add: keeps_def)

lemma keeps_bind [keeps_intros]:
  assumes "keeps b m" "\<And>x. keeps b (f x)"
  shows "keeps b (bind m f)"
proof (rule keepsI)
  fix s
  obtain r t where m: "m s = (r, t)" by fastforce
  assume s: "pc_ok s"
  have e: "heap_evolves (pc_heap s) (pc_heap t)" and o: "pc_ok t" and u: "b \<Longrightarrow> fuel_result r"
    using assms(1) m s by (auto simp: keeps_def dest!: spec [of _ s])
  have e': "heap_evolves (pc_heap t) (pc_heap (snd (f x t)))" "pc_ok (snd (f x t))"
    "b \<Longrightarrow> fuel_result (fst (f x t))" for x
    using assms(2) o by (auto simp: keeps_def)
  show "heap_evolves (pc_heap s) (pc_heap (snd (bind m f s)))"
    using m e heap_evolves_trans [OF e e'(1)] by (cases r) auto
  show "pc_ok (snd (bind m f s))"
    using m o e'(2) by (cases r) auto
  show "b \<Longrightarrow> fuel_result (fst (bind m f s))"
    using m u e'(3) by (cases r) auto
qed

lemma keeps_if [keeps_intros]: "(c \<Longrightarrow> keeps b m) \<Longrightarrow> (\<not> c \<Longrightarrow> keeps b m') \<Longrightarrow> keeps b (if c then m else m')"
  by simp

lemma keeps_pure: "(\<And>s. pc_heap (g s) = pc_heap s) \<Longrightarrow> (\<And>s. pc_ok s \<Longrightarrow> pc_ok (g s)) \<Longrightarrow>
    (\<And>s. fuel_result (r s)) \<Longrightarrow> keeps b (\<lambda>s. (r s, g s))"
  by (auto simp: keeps_def)

text \<open>An operation that first reads the state and then continues with one of several operations.\<close>

lemma keeps_pointwise:
  assumes "\<And>s. pc_ok s \<Longrightarrow> f s = m s s" "\<And>s. pc_ok s \<Longrightarrow> keeps b (m s)"
  shows "keeps b f"
  using assms by (simp add: keeps_def)

lemma keeps_in_world [keeps_intros]: "keeps b (in_world f)"
  by (auto simp: keeps_def in_world_def split_beta Let_def pc_ok_def hook_envs_def split: sum.split)

lemma keeps_in_heap [keeps_intros]: "heap_keeps f \<Longrightarrow> keeps b (in_heap f)"
  by (auto simp: keeps_def heap_keeps_def in_heap_def split_beta Let_def pc_ok_def hook_envs_def
      split: sum.split)

lemma heap_keeps_exec_op:
  assumes "\<And>h. snd (f h) = fst (exec_op vs op (h, w))"
  shows "heap_keeps f"
  using assms exec_op_evolves [of _ vs op] exec_op_ok [of _ vs op]
  by (auto simp: heap_keeps_def)

lemma heap_keeps_read: "(\<And>h. snd (f h) = h) \<Longrightarrow> heap_keeps f"
  by (simp add: heap_keeps_def)

lemma heap_keeps_list_insert [keeps_intros]: "heap_keeps (list_insert a i v)"
  by (rule heap_keeps_exec_op [where op = "ListInsert a i v"]) simp

lemma heap_keeps_list_set [keeps_intros]: "heap_keeps (list_set a i v)"
  by (rule heap_keeps_exec_op [where op = "ListSet a i v"]) simp

lemma heap_keeps_list_remove [keeps_intros]: "heap_keeps (list_remove a i)"
  by (rule heap_keeps_exec_op [where op = "ListRemove a i"]) simp

lemma heap_keeps_list_push [keeps_intros]: "heap_keeps (list_push a v)"
  by (rule heap_keeps_exec_op [where op = "ListPush a v"]) simp

lemma heap_keeps_set_insert [keeps_intros]: "heap_keeps (set_insert a x)"
  by (rule heap_keeps_exec_op [where op = "SetInsert a x"]) simp

lemma heap_keeps_set_remove [keeps_intros]: "heap_keeps (set_remove a x)"
  by (rule heap_keeps_exec_op [where op = "SetRemove a x"]) simp

lemma heap_keeps_map_insert_new [keeps_intros]: "heap_keeps (map_insert_new a x v)"
  by (rule heap_keeps_exec_op [where op = "MapInsertNew a x v"]) simp

lemma heap_keeps_map_remove [keeps_intros]: "heap_keeps (map_remove a x)"
  by (rule heap_keeps_exec_op [where op = "MapRemove a x"]) simp

lemma heap_keeps_multimap_insert [keeps_intros]: "heap_keeps (multimap_insert a x y)"
  by (rule heap_keeps_exec_op [where op = "MultiInsert a x y"]) simp

lemma heap_keeps_multimap_get_many [keeps_intros]: "heap_keeps (multimap_get_many a x)"
  by (rule heap_keeps_exec_op [where op = "MultiGetMany a x"]) simp

lemma heap_keeps_multimap_remove_all [keeps_intros]: "heap_keeps (multimap_remove_all a x)"
  by (rule heap_keeps_exec_op [where op = "MultiRemoveAll a x"]) simp

lemma heap_keeps_reads [keeps_intros]:
  "heap_keeps (list_len a)" "heap_keeps (list_get a i)" "heap_keeps (list_get_all a)"
  "heap_keeps (set_contains a x)" "heap_keeps (set_get_all a)" "heap_keeps (map_dump a)"
  by (rule heap_keeps_read,
      auto simp: list_len_def list_get_def list_get_all_def set_contains_def set_get_all_def map_dump_def
           split: option.split)+

lemma fuel_result_lift_coll [simp]: "fuel_result (lift_coll r)"
  by (cases r) auto

lemma pc_ok_world [simp]: "pc_ok (s\<lparr> pc_world := w \<rparr>) = pc_ok s"
  by (simp add: pc_ok_def hook_envs_def)

lemma pc_ok_tracker [simp]: "pc_ok (s\<lparr> tracker := t \<rparr>) = pc_ok s"
  by (simp add: pc_ok_def hook_envs_def)

lemma pc_ok_put_env: "pc_ok s \<Longrightarrow> om_wf (env_values e) \<Longrightarrow> pc_ok (put_env l e s)"
  by (cases l) (auto simp: pc_ok_def hook_envs_def)

lemma pc_ok_get_env: "pc_ok s \<Longrightarrow> om_wf (env_values (get_env l s))"
  by (cases l) (auto simp: pc_ok_def)

lemma pc_heap_put_env [simp]: "pc_heap (put_env l e s) = pc_heap s"
  by (cases l) auto

lemma keeps_env_values_get [keeps_intros]: "keeps b (env_values_get vs e key)"
  by (auto simp: keeps_def env_values_get_def split_beta Let_def)

lemma keeps_env_values_insert [keeps_intros]: "keeps b (env_values_insert vs l key v)"
  by (auto simp: keeps_def env_values_insert_def split_beta Let_def
      intro!: pc_ok_put_env entry_insert_wf pc_ok_get_env)

lemma keeps_pc_map_get [keeps_intros]: "keeps b (pc_map_get vs a key)"
  by (auto simp: keeps_def pc_map_get_def split_beta Let_def)

lemma keeps_pc_map_insert [keeps_intros]: "keeps b (pc_map_insert vs a key v)"
proof (rule keepsI)
  fix s :: "'a pc"
  assume ok: "pc_ok s"
  have *: "pc_heap (snd (pc_map_insert vs a key v s)) =
      fst (exec_op vs (MapInsert a key v) (pc_heap s, pc_world s))"
    by (simp add: pc_map_insert_def split_beta Let_def)
  show "heap_evolves (pc_heap s) (pc_heap (snd (pc_map_insert vs a key v s)))"
    unfolding * by (metis exec_op_evolves fst_conv)
  have "heap_ok (pc_heap (snd (pc_map_insert vs a key v s)))"
    unfolding * using ok by (intro exec_op_ok) (simp add: pc_ok_def)
  then show "pc_ok (snd (pc_map_insert vs a key v s))"
    using ok by (simp add: pc_ok_def hook_envs_def pc_map_insert_def split_beta Let_def)
qed (simp add: pc_map_insert_def split_beta Let_def)

lemma keeps_env_contains [keeps_intros]: "keeps b (env_contains l key)"
  using keeps_in_world by (auto simp: keeps_def env_contains_def Let_def)

lemma keeps_env_create [keeps_intros]: "keeps b (env_create l key v)"
  by (auto simp: keeps_def env_create_def split_beta Let_def
      intro!: pc_ok_put_env entry_insert_new_wf pc_ok_get_env)

lemma keeps_env_set [keeps_intros]: "keeps b (env_set vs l key v)"
  by (rule keeps_pointwise [where m = "\<lambda>s. let e = get_env l s in
        if \<not> has_external (env_external e) \<or> om_get (env_values e) key \<noteq> None then env_values_insert vs l key v
        else bind (in_world (externals_set (env_external e) key v))
               (\<lambda>(handled, old). if handled then ret old else env_values_insert vs l key v)"])
     (auto simp: env_set_def Let_def intro!: keeps_intros split: prod.split)

lemma keeps_env_walk [keeps_intros]: "keeps b (env_walk vs es key)"
  by (induction es) (auto intro!: keeps_intros split: option.split prod.split)

lemma keeps_env_get [keeps_intros]: "keeps b (env_get vs l key)"
  by (rule keeps_pointwise [OF env_get_def keeps_env_walk])

lemma keeps_env_remove [keeps_intros]: "keeps b (env_remove l key)"
proof -
  let ?ext = "\<lambda>e. bind (in_world (externals_remove (env_external e) key))
      (\<lambda>(handled, old). if handled then ret old else ret None) :: ('b pc, TypedValue option) op"
  have "keeps b (?ext e)" for e :: "'b env"
    by (auto intro!: keeps_intros split: prod.split)
  then show ?thesis
    by (auto simp: keeps_def env_remove_def Let_def split: option.split
        intro!: pc_ok_put_env om.wf_del pc_ok_get_env)
qed

lemma keeps_parse_list_index [keeps_intros]: "keeps b (parse_list_index key)"
  by (auto simp: parse_list_index_def split: option.split intro: keeps_intros)

lemma keeps_path_get [keeps_intros]: "keeps b (path_get vs p key)"
  by (cases p) (auto intro!: keeps_intros)

lemma keeps_path_insert_new [keeps_intros]: "keeps b (path_insert_new p key v)"
  by (cases p) (auto intro!: keeps_intros split: TypedValue.split)

lemma keeps_path_insert [keeps_intros]: "keeps b (path_insert vs p key v)"
  by (cases p) (auto intro!: keeps_intros split: TypedValue.split)

lemma keeps_path_remove [keeps_intros]: "keeps b (path_remove p key)"
  by (cases p) (auto intro!: keeps_intros)

lemma keeps_parent_collection [keeps_intros]: "keeps b (parent_collection vs p parts)"
  by (induction parts arbitrary: p) (auto intro!: keeps_intros split: option.split TypedValue.split)

lemma pc_heap_track [simp]: "pc_heap (track key l s) = pc_heap s"
  and pc_ok_track [simp]: "pc_ok (track key l s) = pc_ok s"
  and pc_ok_change_var_level [simp]: "pc_ok (change_var_level_for_root key l' s) = pc_ok s"
  and pc_heap_change_var_level [simp]: "pc_heap (change_var_level_for_root key l' s) = pc_heap s"
  by (auto simp: track_def change_var_level_for_root_def Let_def split: option.split)

lemma keeps_create_inner [keeps_intros]: "keeps b (create_inner vs l ks v)"
  by (auto simp: create_inner_def get_parent_collection_by_path_def intro!: keeps_intros split: option.split)

lemma keeps_set_inner [keeps_intros]: "keeps b (set_inner vs l ks v)"
  by (auto simp: set_inner_def get_parent_collection_by_path_def intro!: keeps_intros split: option.split)

lemma keeps_get_inner [keeps_intros]: "keeps b (get_inner vs l ks)"
  by (auto simp: get_inner_def get_parent_collection_by_path_def intro!: keeps_intros split: option.split)

lemma keeps_remove_inner [keeps_intros]: "keeps b (remove_inner vs l ks)"
  by (auto simp: remove_inner_def get_parent_collection_by_path_def intro!: keeps_intros split: option.split)

lemma keeps_create [keeps_intros]: "keeps b (create vs key v l)"
  by (auto simp: create_def Let_def intro!: keeps_intros keeps_pure)

lemma keeps_set_simple [keeps_intros]:
  "keeps b (set_simple_root_at_level vs key v l)" "keeps b (set_simple_root_at_explicit_level vs key v l)"
  by (auto simp: set_simple_root_at_level_def set_simple_root_at_explicit_level_def
      intro!: keeps_intros keeps_pure)

lemma keeps_set_var [keeps_intros]: "keeps b (set_var vs key v l)"
  by (rule keeps_pointwise [where m = "\<lambda>s. let ks = parse_var key; l' = resolve_level (hd ks) l s in
        if is_simple_root_key key then set_simple_root_at_level vs key v (resolve_level key l s)
        else bind (set_inner vs l' ks v) (\<lambda>old s. (Inr old, track (hd ks) l' s))"])
     (auto simp: set_var_def Let_def intro!: keeps_intros keeps_pure)

lemma keeps_get_var [keeps_intros]: "keeps b (get_var vs key l)"
  by (rule keeps_pointwise [where m = "\<lambda>s.
        if is_simple_root_key key then env_get vs (resolve_level key l s) key
        else get_inner vs (resolve_level (hd (parse_var key)) l s) (parse_var key)"])
     (auto simp: get_var_def Let_def intro!: keeps_intros)

lemma keeps_remove_var [keeps_intros]: "keeps b (remove_var vs key l)"
  by (rule keeps_pointwise [where m = "\<lambda>s.
        if is_simple_root_key key then env_remove (resolve_level key l s) key
        else remove_inner vs (resolve_level (hd (parse_var key)) l s) (parse_var key)"])
     (auto simp: remove_var_def Let_def intro!: keeps_intros)
section \<open>Scopes as maps\<close>

text \<open>The abstract view: the variables visible from a level form one map, the bindings of the level over
those of its parents. \<open>plain\<close> says that no external environment and no visitor is involved.\<close>

definition visible_in :: "'w env list \<Rightarrow> string \<rightharpoonup> TypedValue" where
  "visible_in es = foldr (\<lambda>e m. m ++ om_get (env_values e)) es Map.empty"

definition visible :: "EnvLevel \<Rightarrow> 'w pc \<Rightarrow> string \<rightharpoonup> TypedValue" where
  "visible l s = visible_in (get_env l s # parents l s)"

definition outer_visible :: "EnvLevel \<Rightarrow> 'w pc \<Rightarrow> string \<rightharpoonup> TypedValue" where
  "outer_visible l s = visible_in (parents l s)"

fun is_visitor :: "TypedValue \<Rightarrow> bool" where
  "is_visitor (Visitor _) = True"
| "is_visitor _ = False"

definition plain_env :: "'w env \<Rightarrow> bool" where
  "plain_env e = (env_external e = [] \<and> list_all (\<lambda>(k, v). \<not> is_visitor v) (env_values e))"

definition plain :: "'w pc \<Rightarrow> bool" where
  "plain s = (plain_env (global_env s) \<and> plain_env (chain_env s) \<and> plain_env (block_env s) \<and>
     list_all plain_env (hook_envs s))"

lemma plain_get_env: "plain s \<Longrightarrow> plain_env (get_env l s)"
  by (cases l) (auto simp: plain_def)

lemma plain_parents: "plain s \<Longrightarrow> list_all plain_env (get_env l s # parents l s)"
  by (cases l) (auto simp: plain_def)

lemma plain_put_env: "plain s \<Longrightarrow> plain_env e \<Longrightarrow> plain (put_env l e s)"
  by (cases l) (auto simp: plain_def hook_envs_def)

lemma plain_tracker [simp]: "plain (s\<lparr> tracker := t \<rparr>) = plain s"
  by (simp add: plain_def hook_envs_def)

lemma plain_get_not_visitor: "plain_env e \<Longrightarrow> om_get (env_values e) k = Some v \<Longrightarrow> \<not> is_visitor v"
  by (auto simp: plain_env_def list_all_iff dest: om_get_in)

lemma plain_env_insert: "plain_env e \<Longrightarrow> \<not> is_visitor v \<Longrightarrow> plain_env (e\<lparr> env_values := om_insert k v (env_values e) \<rparr>)"
  using set_om_insert [of k v "env_values e"] by (auto simp: plain_env_def list_all_iff)

lemma plain_env_remove: "plain_env e \<Longrightarrow> plain_env (e\<lparr> env_values := om_remove k (env_values e) \<rparr>)"
  by (auto simp: plain_env_def list_all_iff om_remove_def)

lemma plain_values_get: "plain_env e \<Longrightarrow> env_values_get vs e k s = (Inr (om_get (env_values e) k), s)"
  using plain_get_not_visitor [of e k]
  by (auto simp: env_values_get_def entry_get_def Let_def split: option.split TypedValue.split)

lemma plain_values_insert:
  assumes "plain_env (get_env l s)"
  shows "env_values_insert vs l k v s =
    (Inr (om_get (env_values (get_env l s)) k),
     put_env l ((get_env l s)\<lparr> env_values := om_insert k v (env_values (get_env l s)) \<rparr>) s)"
  using plain_get_not_visitor [OF assms, of k]
  by (auto simp: env_values_insert_def entry_insert_def Let_def split: option.split TypedValue.split)

lemma plain_walk: "list_all plain_env es \<Longrightarrow> env_walk vs es k s = (Inr (visible_in es k), s)"
proof (induction es)
  case (Cons e es)
  then show ?case
    by (cases "om_get (env_values e) k")
       (auto simp: plain_values_get visible_in_def plain_env_def has_external_def map_add_def)
qed (simp add: visible_in_def)

lemma get_put_env [simp]: "get_env l (put_env l e s) = e"
  by (cases l) auto

lemma parents_put_env [simp]: "parents l (put_env l e s) = parents l s"
  by (cases l) (auto simp: hook_envs_def)

lemma get_env_tracker [simp]: "get_env l (s\<lparr> tracker := t \<rparr>) = get_env l s"
  by (cases l) auto

lemma parents_tracker [simp]: "parents l (s\<lparr> tracker := t \<rparr>) = parents l s"
  by (cases l) (auto simp: hook_envs_def)

lemma track_eq: "track k l s = s\<lparr> tracker := tracker (track k l s) \<rparr>"
  by (simp add: track_def change_var_level_for_root_def Let_def split: option.split)

lemma resolve_after_track: "resolve_level k None (track k l s) = l"
  by (auto simp: resolve_level_def get_var_level_for_root_def track_def change_var_level_for_root_def
      should_change_var_level_for_root_def Let_def split: option.split)

lemma visible_cons: "visible l s = outer_visible l s ++ om_get (env_values (get_env l s))"
  by (simp add: visible_def outer_visible_def visible_in_def)

lemma plain_env_get: "plain s \<Longrightarrow> env_get vs l k s = (Inr (visible l s k), s)"
  unfolding env_get_def visible_def by (rule plain_walk [OF plain_parents])

lemma om_get_insert_upd: "om_get (om_insert k v m) = (om_get m)(k \<mapsto> v)"
  by (auto simp: om.get_ins)

lemma om_get_remove_upd: "om_get (om_remove k m) = (om_get m)(k := None)"
  by (auto simp: om.get_del)

section \<open>Round trip of variable paths\<close>

text \<open>A path as a script author writes it: a root, then segments behind a dot or in quoted brackets, with
the special characters escaped by a backslash.\<close>

datatype path_segment = Dotted string | Quoted string

fun segment_key :: "path_segment \<Rightarrow> string" where
  "segment_key (Dotted p) = p"
| "segment_key (Quoted p) = p"

definition escape_chars :: "string \<Rightarrow> string \<Rightarrow> string" where
  "escape_chars special p = concat (map (\<lambda>c. if c \<in> set special then [CHR 0x5C, c] else [c]) p)"

fun write_segment :: "path_segment \<Rightarrow> string" where
  "write_segment (Dotted p) = CHR ''.'' # escape_chars [CHR ''.'', CHR ''['', CHR 0x5C] p"
| "write_segment (Quoted p) = CHR ''['' # CHR 0x22 # escape_chars [CHR 0x22, CHR 0x5C] p @ [CHR 0x22, CHR '']'']"

definition write_path :: "string \<Rightarrow> path_segment list \<Rightarrow> string" where
  "write_path root segs = escape_chars [CHR ''.'', CHR ''['', CHR 0x5C] root @ concat (map write_segment segs)"

fun segment_ok :: "path_segment \<Rightarrow> bool" where
  "segment_ok (Dotted p) = (p \<noteq> [] \<and> normalize_path_part p = p)"
| "segment_ok (Quoted p) = (normalize_path_part p = p)"

lemma loop_escaped:
  "parse_var_loop parts cur (escape_chars [CHR ''.'', CHR ''['', CHR 0x5C] p @ rest) = parse_var_loop parts (cur @ p) rest"
  by (induction p arbitrary: cur) (auto simp: escape_chars_def)

lemma quoted_escaped:
  "quoted_content (CHR 0x22) False c (escape_chars [CHR 0x22, CHR 0x5C] p @ CHR 0x22 # rest) = Some (c @ p, rest)"
  by (induction p arbitrary: c) (auto simp: escape_chars_def)

lemma not_whitespace [simp]: "\<not> is_whitespace (CHR 0x22)" "\<not> is_whitespace (CHR '']'')"
  by (simp_all add: is_whitespace_def)

lemma bracket_escaped:
  "parse_bracket_part (CHR 0x22 # escape_chars [CHR 0x22, CHR 0x5C] p @ CHR 0x22 # CHR '']'' # rest) = Some (p, rest)"
  by (simp add: parse_bracket_part_def trim_start_def quoted_escaped)

lemma loop_segments:
  assumes "list_all segment_ok segs" "cur \<noteq> [] \<or> parts \<noteq> []"
  shows "parse_var_loop parts cur (concat (map write_segment segs)) = push_part parts cur @ map segment_key segs"
  using assms
proof (induction segs arbitrary: parts cur)
  case (Cons g segs)
  show ?case
  proof (cases g)
    case (Dotted p)
    have "parse_var_loop (push_part parts cur) p (concat (map write_segment segs))
        = push_part (push_part parts cur) p @ map segment_key segs"
      using Cons Dotted by simp
    then show ?thesis using Cons.prems Dotted by (simp add: loop_escaped) (simp add: push_part_def)
  next
    case (Quoted p)
    let ?parts = "push_part parts cur @ [normalize_path_part p]"
    have "parse_var_loop ?parts [] (concat (map write_segment segs)) = push_part ?parts [] @ map segment_key segs"
      using Cons by simp
    then show ?thesis using Cons.prems Quoted by (simp add: bracket_escaped) (simp add: push_part_def)
  qed
qed (auto simp: push_part_def)

section \<open>Properties\<close>


definition sample_pc :: "unit pc" where
  "sample_pc = \<lparr> pc_heap = [], pc_world = (), hook_env = None, global_env = new_env,
     chain_env = \<lparr> env_values = [(''x'', Null)], env_external = [] \<rparr>, block_env = new_env,
     tracker = Map.empty, policy = default_policy \<rparr>"


text \<open>C35. Variable paths round-trip: \<open>parse_var\<close> of a path written with a root, escaped dotted segments and
quoted bracket segments returns exactly the root and the segment keys, whatever characters they contain,
as long as no key is changed by the trimming of \<open>normalize_path_part\<close>.\<close>

theorem parse_var_roundtrip:
  assumes "root \<noteq> []" "normalize_path_part root = root" "list_all segment_ok segs"
  shows "parse_var (write_path root segs) = root # map segment_key segs"
  using assms loop_segments [of segs root "[]"]
  by (simp add: parse_var_def write_path_def loop_escaped push_part_def)

theorem parse_var_roundtrip_witness:
  "parse_var (write_path ''REQ'' [Dotted ''a.b'', Quoted ''x]y'']) = [''REQ'', ''a.b'', ''x]y'']"
proof -
  have "normalize_path_part ''REQ'' = ''REQ''" "normalize_path_part ''a.b'' = ''a.b''"
    "normalize_path_part ''x]y'' = ''x]y''"
    by (simp_all add: normalize_path_part_def trim_def trim_start_def trim_end_def is_whitespace_def Let_def)
  then show ?thesis using parse_var_roundtrip [of "''REQ''" "[Dotted ''a.b'', Quoted ''x]y'']"] by simp
qed

lemma loop_simple:
  assumes "list_all (\<lambda>ch. ch \<noteq> CHR ''.'' \<and> ch \<noteq> CHR ''['' \<and> ch \<noteq> CHR 0x5C) key"
  shows "parse_var_loop parts cur key = parse_var_loop parts (cur @ key) []"
  using assms
proof (induction key arbitrary: cur)
  case (Cons c key)
  then show ?case using Cons.IH [of "cur @ [c]"] by simp
qed simp

lemma normalize_simple:
  assumes "is_simple_root_key key"
  shows "normalize_path_part key = key"
proof -
  have all: "\<forall>c \<in> set key. \<not> is_whitespace c \<and> c \<noteq> CHR ''(''" and ne: "key \<noteq> []"
    using assms by (auto simp: is_simple_root_key_def list_all_iff)
  then have "trim key = key" by (intro trim_id) auto
  moreover have "hd key \<noteq> CHR ''(''" using all ne by auto
  ultimately show ?thesis by (simp add: normalize_path_part_def)
qed

lemma parse_var_simple: "is_simple_root_key key \<Longrightarrow> parse_var key = [key]"
  using loop_simple [of key "[]" "[]"] normalize_simple [of key]
  by (auto simp: parse_var_def is_simple_root_key_def list_all_iff)

text \<open>The fast path for simple keys is an optimisation only: for a key without path syntax, create,
set, get and remove compute exactly what the general path over the parsed key computes.\<close>

theorem simple_key_fast_path:
  assumes "is_simple_root_key key"
  shows "create vs key v l s =
           bind (create_inner vs l (parse_var key) v)
                (\<lambda>new s. (Inr new, if new then track (hd (parse_var key)) l s else s)) s \<and>
         set_var vs key v lo s =
           (let l = resolve_level (hd (parse_var key)) lo s in
            bind (set_inner vs l (parse_var key) v) (\<lambda>old s. (Inr old, track (hd (parse_var key)) l s)) s) \<and>
         get_var vs key lo s = get_inner vs (resolve_level (hd (parse_var key)) lo s) (parse_var key) s \<and>
         remove_var vs key lo s = remove_inner vs (resolve_level (hd (parse_var key)) lo s) (parse_var key) s"
  unfolding parse_var_simple [OF assms] list.sel
  using assms
  by (simp add: create_def create_inner_def set_var_def set_simple_root_at_level_def
      set_inner_def get_var_def get_inner_def remove_var_def remove_inner_def
      get_parent_collection_by_path_def bind_def Let_def)

theorem simple_key_fast_path_witness:
  "get_var no_visitors ''x'' None sample_pc = get_inner no_visitors Chain [''x''] sample_pc"
proof -
  have k: "is_simple_root_key ''x''" by (simp add: is_simple_root_key_def is_whitespace_def)
  have "get_var no_visitors ''x'' None sample_pc =
      get_inner no_visitors (resolve_level (hd (parse_var ''x'')) None sample_pc) (parse_var ''x'') sample_pc"
    using simple_key_fast_path [OF k] by blast
  moreover have "resolve_level ''x'' None sample_pc = Chain"
    by (simp add: resolve_level_def get_var_level_for_root_def sample_pc_def default_level_def)
  ultimately show ?thesis using parse_var_simple [OF k] by simp
qed

end
