(* ===== verification/Block_Types.thy ===== *)
theory Block_Types
  imports Env
begin

text \<open>Syntax of process-chain blocks and results of commands (\<open>cyfs-process-chain/src/block/block.rs\<close>,
\<open>cmd/cmd.rs\<close>, the executor structs of \<open>cmd/var.rs\<close>, \<open>cmd/control.rs\<close>, \<open>cmd/exec.rs\<close>, \<open>cmd/action.rs\<close> and
\<open>cmd/external.rs\<close>), and the linker of \<open>block/linker.rs\<close>.

The trait object \<open>CommandExecutorRef\<close> of a linked command is a value of the datatype \<open>Executor\<close>. A \<open>Statement\<close>
of the source is a struct of which exactly one part is set by its constructors; here it is a datatype.\<close>

section \<open>Results\<close>

datatype CommandAction = Drop | Accept | Reject

fun action_as_str :: "CommandAction \<Rightarrow> string" where
  "action_as_str Drop = ''drop''"
| "action_as_str Accept = ''accept''"
| "action_as_str Reject = ''reject''"

datatype CommandControlLevel = CtlBlock | CtlChain | CtlLib

fun ctl_as_str :: "CommandControlLevel \<Rightarrow> string" where
  "ctl_as_str CtlBlock = ''block''"
| "ctl_as_str CtlChain = ''chain''"
| "ctl_as_str CtlLib = ''lib''"

definition ctl_from_str :: "string \<Rightarrow> CommandControlLevel option" where
  "ctl_from_str s = (if s = ''block'' then Some CtlBlock else if s = ''chain'' then Some CtlChain
     else if s = ''lib'' then Some CtlLib else None)"

datatype CommandControl =
    Break TypedValue
  | Return CommandControlLevel TypedValue
  | ErrorReturn CommandControlLevel TypedValue
  | Exit TypedValue

fun control_value :: "CommandControl \<Rightarrow> TypedValue" where
  "control_value (Return l v) = v"
| "control_value (ErrorReturn l v) = v"
| "control_value (Exit v) = v"
| "control_value (Break v) = v"

datatype CommandResult =
    Success TypedValue
  | Error TypedValue
  | Control CommandControl

definition success :: CommandResult where
  "success = Success (String [])"

definition error_result :: CommandResult where
  "error_result = Error (String [])"

definition action_result :: "CommandAction \<Rightarrow> CommandResult" where
  "action_result a = Control (Exit (String (action_as_str a)))"

fun is_success :: "CommandResult \<Rightarrow> bool" where
  "is_success (Success _) = True"
| "is_success _ = False"

fun is_error :: "CommandResult \<Rightarrow> bool" where
  "is_error (Error _) = True"
| "is_error _ = False"

fun is_control :: "CommandResult \<Rightarrow> bool" where
  "is_control (Control _) = True"
| "is_control _ = False"

fun value_ref :: "CommandResult \<Rightarrow> TypedValue" where
  "value_ref (Success v) = v"
| "value_ref (Error v) = v"
| "value_ref (Control c) = control_value c"

fun try_not :: "CommandResult \<Rightarrow> (pc_error, CommandResult) result" where
  "try_not (Success v) = Inr (Error v)"
| "try_not (Error v) = Inr (Success v)"
| "try_not (Control c) = Inl (Failed ''Cannot negate action result'' [])"

definition is_action :: "CommandAction \<Rightarrow> CommandResult \<Rightarrow> bool" where
  "is_action a r = (case r of
     Control (Exit v) \<Rightarrow> as_str v = Some (action_as_str a) | _ \<Rightarrow> False)"

fun into_substitution_value :: "CommandResult \<Rightarrow> TypedValue option" where
  "into_substitution_value (Success v) = Some v"
| "into_substitution_value (Error v) = Some v"
| "into_substitution_value (Control _) = None"

section \<open>Syntax\<close>

datatype Operator = OpAnd | OpOr | OpNot

datatype AssignKind = AssignChain | AssignBlock | AssignGlobal

datatype ExecScope = ScopeBlock | ScopeChain | ScopeLib

datatype CommandArg =
    Literal string
  | StringLiteral string
  | TypedLiteral string TypedValue
  | ListLiteral "CommandArg list"
  | MapLiteral "(string \<times> CommandArg) list"
  | Var string
  | CommandSubstitution Expression
and Expression =
    Command string "CommandArg list" "Executor option"
  | Group "(Operator option \<times> Expression \<times> Operator option) list"
and Executor =
    AssignCommand AssignKind string "CommandArg option"
  | DeleteCommand "EnvLevel option" string
  | FirstOkCommand "Expression list"
  | ExecCommand ExecScope CommandArg
  | InvokeCommand ExecScope CommandArg "(string \<times> CommandArg) list"
  | GotoCommand ExecScope CommandArg "(string \<times> CommandArg) list" CommandControlLevel CommandControlLevel
  | ReturnCommand CommandControlLevel "CommandArg option"
  | ErrorCommand CommandControlLevel "CommandArg option"
  | ExitCommand "CommandArg option"
  | BreakCommand "CommandArg option"
  | ActionCommand CommandAction
  | ExternalCommand string "CommandArg list"

type_synonym ExpressionChain = "(Operator option \<times> Expression \<times> Operator option) list"

datatype Line = Line string "Statement list"
and Statement =
    Expressions ExpressionChain
  | IfStatement "(ExpressionChain \<times> Line list) list" "Line list option"
  | CaseStatement "CommandArg option" "string option" "(ExpressionChain \<times> Line list) list" "Line list option"
  | ForStatement string "string option" CommandArg "Line list"
  | MatchResultStatement Expression "(string \<times> Line list) option" "(string \<times> Line list) option"
      "(string \<times> string \<times> string \<times> Line list) option"

record Block =
  block_id :: string
  lines :: "Line list"

fun as_literal_str :: "CommandArg \<Rightarrow> string option" where
  "as_literal_str (Literal s) = Some s"
| "as_literal_str (StringLiteral s) = Some s"
| "as_literal_str (TypedLiteral s v) = Some s"
| "as_literal_str _ = None"

section \<open>Coercions\<close>

definition i64_to_string :: "64 word \<Rightarrow> string" where
  "i64_to_string w = (if sint w < 0 then CHR ''-'' # nat_to_string (nat (- sint w)) else nat_to_string (nat (sint w)))"

text \<open>\<open>fmt\<close> renders an \<open>f64\<close>, given by its bits.\<close>

fun number_to_string :: "(64 word \<Rightarrow> string) \<Rightarrow> NumberValue \<Rightarrow> string" where
  "number_to_string fmt (IntNum w) = i64_to_string w"
| "number_to_string fmt (FloatNum w) = fmt w"

text \<open>\<open>v.as_f64() != 0.0\<close>: both zeros compare equal to zero, a NaN does not.\<close>

fun number_nonzero :: "NumberValue \<Rightarrow> bool" where
  "number_nonzero (IntNum w) = (w \<noteq> 0)"
| "number_nonzero (FloatNum w) = (take_bit 63 w \<noteq> 0)"

definition parse_bool_literal :: "string \<Rightarrow> bool option" where
  "parse_bool_literal raw = (let s = to_ascii_lowercase (trim raw) in
     if s \<in> set [''true'', ''1'', ''yes'', ''on''] then Some True
     else if s \<in> set [''false'', ''0'', ''no'', ''off''] then Some False else None)"

fun coerce_to_string :: "(64 word \<Rightarrow> string) \<Rightarrow> TypedValue \<Rightarrow> CoercionPolicy \<Rightarrow> (pc_error, string) result" where
  "coerce_to_string fmt (String s) p = Inr s"
| "coerce_to_string fmt Null p =
     (if p = CoercionStrict then Inl (Failed ''Expected string value'' ''Null'') else Inr [])"
| "coerce_to_string fmt (Bool b) p =
     (if p = CoercionStrict then Inl (Failed ''Expected string value'' ''Bool'')
      else Inr (if b then ''true'' else ''false''))"
| "coerce_to_string fmt (Number n) p =
     (if p = CoercionStrict then Inl (Failed ''Expected string value'' ''Number'')
      else Inr (number_to_string fmt n))"
| "coerce_to_string fmt v p = Inl (Failed ''Expected string value'' (get_type v))"

fun coerce_to_bool :: "TypedValue \<Rightarrow> CoercionPolicy \<Rightarrow> (pc_error, bool) result" where
  "coerce_to_bool (Bool b) p = Inr b"
| "coerce_to_bool (String s) p =
     (case parse_bool_literal s of Some b \<Rightarrow> Inr b | None \<Rightarrow> Inl (Failed ''Cannot convert string to bool'' s))"
| "coerce_to_bool (Number n) p =
     (if p = CoercionStrict then Inl (Failed ''Expected bool value'' ''Number'') else Inr (number_nonzero n))"
| "coerce_to_bool Null p =
     (if p = CoercionStrict then Inl (Failed ''Expected bool value'' ''Null'') else Inr False)"
| "coerce_to_bool v p = Inl (Failed ''Expected bool value'' (get_type v))"

section \<open>Linking\<close>

text \<open>\<open>get_parser\<close> stands for the parser factory: whether a command has a built-in parser and what the parser
makes of its arguments. \<open>external\<close> is the table of registered external commands with their
\<open>overrides_builtin\<close> answer.\<close>

type_synonym command_parser = "CommandArg list \<Rightarrow> (pc_error, Executor) result"

record linker =
  get_parser :: "string \<Rightarrow> command_parser option"
  get_external_command :: "string \<Rightarrow> (CommandArg list \<Rightarrow> bool) option"

definition choose_parser ::
    "linker \<Rightarrow> string \<Rightarrow> CommandArg list \<Rightarrow> (pc_error, string \<times> CommandArg list \<times> command_parser) result" where
  "choose_parser lk name args =
     (let external = get_external_command lk name;
          overridden = (case external of Some ov \<Rightarrow> ov args | None \<Rightarrow> False);
          parser = (if overridden then None else get_parser lk name)
      in case parser of
           Some p \<Rightarrow> Inr (name, args, p)
         | None \<Rightarrow>
             (case external of
                Some _ \<Rightarrow>
                  (case get_parser lk ''call'' of
                     Some p \<Rightarrow> Inr (''call'', Literal ''call'' # args, p)
                   | None \<Rightarrow> Inl (Failed ''No parser for command'' ''call''))
              | None \<Rightarrow> Inl (Failed ''No parser for command'' name)))"

lemma choose_parser_args:
  "choose_parser lk name args = Inr (n, as, p) \<Longrightarrow> as = args \<or> as = Literal ''call'' # args"
  by (auto simp: choose_parser_def Let_def split: option.splits if_splits)

fun link_arg :: "linker \<Rightarrow> CommandArg \<Rightarrow> (pc_error, CommandArg) result"
  and link_args :: "linker \<Rightarrow> CommandArg list \<Rightarrow> (pc_error, CommandArg list) result"
  and link_expression :: "linker \<Rightarrow> Expression \<Rightarrow> (pc_error, Expression) result"
  and link_chain :: "linker \<Rightarrow> ExpressionChain \<Rightarrow> (pc_error, ExpressionChain) result" where
  "link_arg lk (CommandSubstitution e) = and_then (link_expression lk e) (\<lambda>e. Inr (CommandSubstitution e))"
| "link_arg lk arg = Inr arg"
| "link_args lk [] = Inr []"
| "link_args lk (a # as) = and_then (link_arg lk a) (\<lambda>a. and_then (link_args lk as) (\<lambda>as. Inr (a # as)))"
| "link_expression lk (Command name args ex) =
     and_then (choose_parser lk name args) (\<lambda>(name', args', parser).
       and_then (link_args lk args) (\<lambda>linked.
         let linked = (if length args' = length args then linked else Literal ''call'' # linked)
         in case parser linked of
              Inr executor \<Rightarrow> Inr (Command name' linked (Some executor))
            | Inl e \<Rightarrow> Inl (Runtime ''Failed to parse command'' e)))"
| "link_expression lk (Group es) = and_then (link_chain lk es) (\<lambda>es. Inr (Group es))"
| "link_chain lk [] = Inr []"
| "link_chain lk ((pre, e, post) # es) =
     and_then (link_expression lk e) (\<lambda>e. and_then (link_chain lk es) (\<lambda>es. Inr ((pre, e, post) # es)))"

fun link_line :: "linker \<Rightarrow> Line \<Rightarrow> (pc_error, Line) result"
  and link_statement :: "linker \<Rightarrow> Statement \<Rightarrow> (pc_error, Statement) result" where
  "link_line lk (Line src sts) = and_then (mapM (link_statement lk) sts) (\<lambda>sts. Inr (Line src sts))"
| "link_statement lk (Expressions es) = and_then (link_chain lk es) (\<lambda>es. Inr (Expressions es))"
| "link_statement lk (IfStatement bs els) =
     and_then (mapM (\<lambda>(c, ls). and_then (link_chain lk c) (\<lambda>c.
                 and_then (mapM (link_line lk) ls) (\<lambda>ls. Inr (c, ls)))) bs) (\<lambda>bs.
       and_then (mapOpt (mapM (link_line lk)) els) (\<lambda>els. Inr (IfStatement bs els)))"
| "link_statement lk (CaseStatement sub bnd bs els) =
     and_then (mapOpt (link_arg lk) sub) (\<lambda>sub.
       and_then (mapM (\<lambda>(c, ls). and_then (link_chain lk c) (\<lambda>c.
                   and_then (mapM (link_line lk) ls) (\<lambda>ls. Inr (c, ls)))) bs) (\<lambda>bs.
         and_then (mapOpt (mapM (link_line lk)) els) (\<lambda>els. Inr (CaseStatement sub bnd bs els))))"
| "link_statement lk (ForStatement k v it ls) =
     and_then (link_arg lk it) (\<lambda>it.
       and_then (mapM (link_line lk) ls) (\<lambda>ls. Inr (ForStatement k v it ls)))"
| "link_statement lk (MatchResultStatement e ok er ct) =
     and_then (link_expression lk e) (\<lambda>e.
       and_then (mapOpt (\<lambda>(b, ls). and_then (mapM (link_line lk) ls) (\<lambda>ls. Inr (b, ls))) ok) (\<lambda>ok.
         and_then (mapOpt (\<lambda>(b, ls). and_then (mapM (link_line lk) ls) (\<lambda>ls. Inr (b, ls))) er) (\<lambda>er.
           and_then (mapOpt (\<lambda>(a, f, v, ls). and_then (mapM (link_line lk) ls) (\<lambda>ls. Inr (a, f, v, ls))) ct)
             (\<lambda>ct. Inr (MatchResultStatement e ok er ct)))))"

definition link_block :: "linker \<Rightarrow> Block \<Rightarrow> (pc_error, Block) result" where
  "link_block lk b = and_then (mapM (link_line lk) (lines b)) (\<lambda>ls. Inr (b\<lparr> lines := ls \<rparr>))"

section \<open>What linking guarantees\<close>

text \<open>Every command that stands in an expression, or in a command substitution that is itself an argument,
a case subject or a loop iterable, has its executor.\<close>

fun linked_arg :: "CommandArg \<Rightarrow> bool"
  and linked_expression :: "Expression \<Rightarrow> bool" where
  "linked_arg (CommandSubstitution e) = linked_expression e"
| "linked_arg _ = True"
| "linked_expression (Command name args ex) = (ex \<noteq> None \<and> list_all linked_arg args)"
| "linked_expression (Group es) = list_all (\<lambda>(pre, e, post). linked_expression e) es"

definition linked_chain :: "ExpressionChain \<Rightarrow> bool" where
  "linked_chain es = list_all (\<lambda>(pre, e, post). linked_expression e) es"

fun linked_line :: "Line \<Rightarrow> bool"
  and linked_statement :: "Statement \<Rightarrow> bool" where
  "linked_line (Line src sts) = list_all linked_statement sts"
| "linked_statement (Expressions es) = linked_chain es"
| "linked_statement (IfStatement bs els) =
     (list_all (\<lambda>(c, ls). linked_chain c \<and> list_all linked_line ls) bs \<and> pred_option (list_all linked_line) els)"
| "linked_statement (CaseStatement sub bnd bs els) =
     (pred_option linked_arg sub \<and>
      list_all (\<lambda>(c, ls). linked_chain c \<and> list_all linked_line ls) bs \<and> pred_option (list_all linked_line) els)"
| "linked_statement (ForStatement k v it ls) = (linked_arg it \<and> list_all linked_line ls)"
| "linked_statement (MatchResultStatement e ok er ct) =
     (linked_expression e \<and> pred_option (\<lambda>(b, ls). list_all linked_line ls) ok \<and>
      pred_option (\<lambda>(b, ls). list_all linked_line ls) er \<and>
      pred_option (\<lambda>(a, f, v, ls). list_all linked_line ls) ct)"

lemma mapM_Inr_all:
  assumes "mapM f xs = Inr ys" "\<And>x y. x \<in> set xs \<Longrightarrow> f x = Inr y \<Longrightarrow> P y"
  shows "list_all P ys"
proof -
  have "list_all2 (\<lambda>x y. f x = Inr y) xs ys" using assms(1) by (simp add: mapM_Inr_list_all2)
  then show ?thesis
    unfolding list_all_length list_all2_conv_all_nth using assms(2) nth_mem by metis
qed

lemma mapOpt_Inr_all:
  assumes "mapOpt f x = Inr y" "\<And>z w. x = Some z \<Longrightarrow> f z = Inr w \<Longrightarrow> P w"
  shows "pred_option P y"
  using assms by (cases x) (auto simp: and_then_Inr_iff)

lemma wrapped_Inr_iff:
  "(case r of Inl e \<Rightarrow> Inl (f e) | Inr x \<Rightarrow> Inr (g x)) = Inr y \<longleftrightarrow> (\<exists>x. r = Inr x \<and> y = g x)"
  by (cases r) auto

lemma link_expression_linked:
  "link_arg lk a = Inr a' \<Longrightarrow> linked_arg a'"
  "link_args lk as = Inr as' \<Longrightarrow> list_all linked_arg as'"
  "link_expression lk e = Inr e' \<Longrightarrow> linked_expression e'"
  "link_chain lk es = Inr es' \<Longrightarrow> linked_chain es'"
proof (induction lk a and lk as and lk e and lk es arbitrary: a' and as' and e' and es'
    rule: link_arg_link_args_link_expression_link_chain.induct)
  case (5 lk name args ex)
  from "5.prems" obtain n as p linked x where
    *: "choose_parser lk name args = Inr (n, as, p)" "link_args lk args = Inr linked"
      "e' = Command n (if length as = length args then linked else Literal ''call'' # linked) (Some x)"
    by (auto simp: and_then_Inr_iff wrapped_Inr_iff Let_def split: prod.splits)
  have "list_all linked_arg linked" by (rule "5.IH" [OF *(1) refl refl *(2)])
  then show ?case by (simp add: *(3))
qed (auto simp: and_then_Inr_iff linked_chain_def)

lemma link_lines_linked:
  "link_line lk l = Inr l' \<Longrightarrow> linked_line l'"
  "link_statement lk t = Inr t' \<Longrightarrow> linked_statement t'"
proof (induction lk l and lk t arbitrary: l' and t' rule: link_line_link_statement.induct)
  case (3 lk bs els)
  then show ?case
    by (auto simp: and_then_Inr_iff link_expression_linked split: prod.splits
        elim!: mapM_Inr_all mapOpt_Inr_all)
next
  case (4 lk sub bnd bs els)
  then show ?case
    by (auto simp: and_then_Inr_iff link_expression_linked split: prod.splits
        elim!: mapM_Inr_all mapOpt_Inr_all)
next
  case (6 lk e ok er ct)
  then show ?case
    by (auto simp: and_then_Inr_iff link_expression_linked split: prod.splits
        elim!: mapM_Inr_all mapOpt_Inr_all)
qed (auto simp: and_then_Inr_iff link_expression_linked elim!: mapM_Inr_all)


section \<open>Properties\<close>

fun line_source :: "Line \<Rightarrow> string" where
  "line_source (Line src sts) = src"

lemma link_line_source: "link_line lk l = Inr l' \<Longrightarrow> line_source l' = line_source l"
  by (cases l) (auto simp: and_then_Inr_iff)

lemma link_block_linked: "link_block lk b = Inr b' \<Longrightarrow> list_all linked_line (lines b')"
  using link_lines_linked(1) by (auto simp: link_block_def and_then_Inr_iff elim!: mapM_Inr_all)

text \<open>A linked block has an executor for every command that stands in an expression, a condition, a case
subject, a loop iterable or an argument substitution, at any nesting depth, and keeps the identifier and the source
lines of the block.\<close>

lemma link_block_links_every_command:
  assumes "link_block lk b = Inr b'"
  shows "list_all linked_line (lines b') \<and> block_id b' = block_id b \<and> map line_source (lines b') = map line_source (lines b)"
proof -
  obtain ls where ls: "mapM (link_line lk) (lines b) = Inr ls" "b' = b\<lparr> lines := ls \<rparr>"
    using assms by (auto simp: link_block_def and_then_Inr_iff)
  then have "list_all2 (\<lambda>l l'. link_line lk l = Inr l') (lines b) ls" by (simp add: mapM_Inr_list_all2)
  then have "map line_source ls = map line_source (lines b)"
    by (induction rule: list_all2_induct) (simp_all add: link_line_source)
  then show ?thesis using ls(2) link_block_linked [OF assms] by simp
qed

definition sample_linker :: linker where
  "sample_linker = \<lparr> get_parser = (\<lambda>name. if name = ''accept'' then Some (\<lambda>_. Inr (ActionCommand Accept)) else None),
     get_external_command = (\<lambda>_. None) \<rparr>"

definition sample_block :: Block where
  "sample_block = \<lparr> block_id = ''b1'', lines = [Line ''if accept; then; accept; end''
     [IfStatement [([(None, Command ''accept'' [] None, None)],
        [Line ''accept'' [Expressions [(None, Command ''accept'' [] None, None)]]])] None]] \<rparr>"

end
