(* ===== verification/Eval.thy ===== *)
theory Eval
  imports Block_Types
begin

text \<open>Evaluation of command arguments (\<open>CommandArgEvaluator\<close> in \<open>cyfs-process-chain/src/block/linker.rs\<close>):
the parser of variable paths, the coalesce operator, path resolution and argument evaluation.

The scanners of the source walk over byte indices; here they consume the text, so that an index becomes
the text behind it. The expression behind a coalesce operator is read by \<open>BlockParser::parse_arg\<close>, a
parameter \<open>parse_arg\<close> here. Evaluation recurses over shorter and shorter texts; the fuel argument of
\<open>evaluate_var_expression\<close> is the length of the text and is shown to be enough.\<close>

section \<open>Scanners\<close>

text \<open>Text up to the matching parenthesis or bracket, and the text behind it; the opening one is consumed.\<close>

fun take_paren :: "nat \<Rightarrow> string \<Rightarrow> string \<Rightarrow> (string \<times> string) option" where
  "take_paren depth acc [] = None"
| "take_paren depth acc (c # cs) =
     (if c = CHR ''('' then take_paren (depth + 1) (acc @ [c]) cs
      else if c = CHR '')'' then
        (if depth - 1 = 0 then Some (acc, cs) else take_paren (depth - 1) (acc @ [c]) cs)
      else take_paren depth (acc @ [c]) cs)"

fun take_bracket :: "nat \<Rightarrow> char option \<Rightarrow> bool \<Rightarrow> string \<Rightarrow> string \<Rightarrow> (string \<times> string) option" where
  "take_bracket depth quote escaped acc [] = None"
| "take_bracket depth (Some q) escaped acc (c # cs) =
     (if escaped then take_bracket depth (Some q) False (acc @ [c]) cs
      else if c = CHR 0x5C then take_bracket depth (Some q) True (acc @ [c]) cs
      else if c = q then take_bracket depth None False (acc @ [c]) cs
      else take_bracket depth (Some q) False (acc @ [c]) cs)"
| "take_bracket depth None escaped acc (c # cs) =
     (if c = CHR 0x22 \<or> c = CHR 0x27 then take_bracket depth (Some c) escaped (acc @ [c]) cs
      else if c = CHR ''['' then take_bracket (depth + 1) None escaped (acc @ [c]) cs
      else if c = CHR '']'' then
        (if depth - 1 = 0 then Some (acc, cs) else take_bracket (depth - 1) None escaped (acc @ [c]) cs)
      else take_bracket depth None escaped (acc @ [c]) cs)"

fun unescape :: "bool \<Rightarrow> string \<Rightarrow> string" where
  "unescape escaped [] = (if escaped then [CHR 0x5C] else [])"
| "unescape escaped (c # cs) =
     (if escaped then c # unescape False cs
      else if c = CHR 0x5C then unescape True cs
      else c # unescape False cs)"

section \<open>Variable paths\<close>

datatype VarPathSegment = Static string | Dynamic string

type_synonym VarPathAccessSegment = "VarPathSegment \<times> bool"

definition parse_dynamic_segment :: "string \<Rightarrow> (pc_error, VarPathSegment) result" where
  "parse_dynamic_segment s = (let inner = trim s in
     case strip_prefix ''${'' inner of
       Some inner_var \<Rightarrow>
         if inner = [] \<or> last inner \<noteq> CHR ''}'' then Inl (Failed ''Invalid braced dynamic segment'' inner)
         else (let inner_var = trim (butlast inner_var) in
               if inner_var = [] then Inl (Failed ''Dynamic segment cannot be empty'' []) else Inr (Dynamic inner_var))
     | None \<Rightarrow>
        (case strip_prefix ''$'' inner of
           Some inner_var \<Rightarrow>
             (let inner_var = trim inner_var in
              if inner_var = [] then Inl (Failed ''Dynamic segment cannot be empty'' []) else Inr (Dynamic inner_var))
         | None \<Rightarrow> Inr (Static inner)))"

text \<open>\<open>parse_bracket_segment\<close> behind the opening bracket. Slicing a lone quote character out of range would
panic.\<close>

definition parse_bracket_segment :: "string \<Rightarrow> (pc_error, VarPathSegment \<times> string) result" where
  "parse_bracket_segment s =
     (case take_bracket 1 None False [] s of
        None \<Rightarrow> Inl (Failed ''Unclosed bracket segment in variable'' [])
      | Some (content, rest) \<Rightarrow>
          (let inner = trim content in
           if inner = [] then Inr (Static [], rest)
           else if (hd inner = CHR 0x22 \<and> last inner = CHR 0x22) \<or> (hd inner = CHR 0x27 \<and> last inner = CHR 0x27)
           then (if length inner < 2 then Inl (Panic ''slice index starts at 1 but ends at 0'')
                 else Inr (Static (unescape False (butlast (tl inner))), rest))
           else and_then (parse_dynamic_segment inner) (\<lambda>seg. Inr (seg, rest))))"

definition parse_paren_segment :: "string \<Rightarrow> (pc_error, VarPathSegment \<times> string) result" where
  "parse_paren_segment s =
     (case take_paren 1 [] s of
        None \<Rightarrow> Inl (Failed ''Unclosed dynamic segment in variable'' [])
      | Some (inner, rest) \<Rightarrow> and_then (parse_dynamic_segment inner) (\<lambda>seg. Inr (seg, rest)))"

definition push_static_segment ::
    "VarPathAccessSegment list \<Rightarrow> string \<Rightarrow> bool \<Rightarrow> VarPathAccessSegment list \<times> bool" where
  "push_static_segment segs current pending =
     (if current \<noteq> [] then (segs @ [(Static current, pending)], False) else (segs, pending))"

lemma take_paren_split: "take_paren d acc s = Some (i, r) \<Longrightarrow> \<exists>c. i = acc @ c \<and> s = c @ CHR '')'' # r"
  by (induction d acc s rule: take_paren.induct) (auto split: if_splits)

lemma take_bracket_split: "take_bracket d q e acc s = Some (i, r) \<Longrightarrow> \<exists>c. i = acc @ c \<and> s = c @ CHR '']'' # r"
  by (induction d q e acc s rule: take_bracket.induct) (auto split: if_splits)

lemma take_shorter:
  "take_paren d acc s = Some (i, r) \<Longrightarrow> length r < length s"
  "take_bracket d q e acc s = Some (i, r) \<Longrightarrow> length r < length s"
  by (auto dest: take_paren_split take_bracket_split)

lemma parse_bracket_segment_shorter: "parse_bracket_segment s = Inr (g, r) \<Longrightarrow> length r < length s"
  by (auto simp: parse_bracket_segment_def Let_def and_then_Inr_iff dest: take_shorter
      split: option.splits if_splits)

lemma parse_paren_segment_shorter: "parse_paren_segment s = Inr (g, r) \<Longrightarrow> length r < length s"
  by (auto simp: parse_paren_segment_def and_then_Inr_iff dest: take_shorter split: option.splits)

lemma tl_eq_Cons_length: "tl xs = y # ys \<Longrightarrow> length xs = Suc (Suc (length ys))"
  by (cases xs) auto

function parse_var_path_loop ::
    "VarPathAccessSegment list \<Rightarrow> string \<Rightarrow> bool \<Rightarrow> string \<Rightarrow> (pc_error, VarPathAccessSegment list) result" where
  "parse_var_path_loop segs current pending [] =
     (if pending \<and> current = [] then Inl (Failed ''Invalid variable path ending with optional access'' [])
      else (let segs = (if current \<noteq> [] then segs @ [(Static current, pending)] else segs) in
            if segs = [] then Inl (Failed ''Variable path is empty'' []) else Inr segs))"
| "parse_var_path_loop segs current pending (ch # rest) =
     (if ch = CHR 0x5C then
        (case rest of
           escaped # rest \<Rightarrow> parse_var_path_loop segs (current @ [escaped]) pending rest
         | [] \<Rightarrow> parse_var_path_loop segs (current @ [CHR 0x5C]) pending [])
      else if ch = CHR ''?'' \<and> rest \<noteq> [] \<and> hd rest = CHR ''.'' then
        (if current = [] \<and> segs = [] then Inl (Failed ''Invalid optional access at beginning of variable path'' [])
         else (let (segs, _) = push_static_segment segs current pending in
           case tl rest of
             [] \<Rightarrow> parse_var_path_loop segs [] True []
           | c # cs \<Rightarrow>
               if c = CHR ''('' then
                 and_then (parse_paren_segment cs) (\<lambda>(seg, after).
                   parse_var_path_loop (segs @ [(seg, True)]) [] False after)
               else parse_var_path_loop segs [] True (c # cs)))
      else if ch = CHR ''?'' \<and> rest \<noteq> [] \<and> hd rest = CHR ''['' then
        (if current = [] \<and> segs = []
         then Inl (Failed ''Invalid optional bracket access at beginning of variable path'' [])
         else (let (segs, _) = push_static_segment segs current pending in
               and_then (parse_bracket_segment (tl rest)) (\<lambda>(seg, after).
                 parse_var_path_loop (segs @ [(seg, True)]) [] False after)))
      else if ch = CHR ''.'' then
        (let (segs, pending) = push_static_segment segs current pending in
         case rest of
           [] \<Rightarrow> parse_var_path_loop segs [] pending []
         | c # cs \<Rightarrow>
             if c = CHR ''('' then
               and_then (parse_paren_segment cs) (\<lambda>(seg, after).
                 parse_var_path_loop (segs @ [(seg, pending)]) [] False after)
             else parse_var_path_loop segs [] pending (c # cs))
      else if ch = CHR ''['' then
        (let (segs, pending) = push_static_segment segs current pending in
         and_then (parse_bracket_segment rest) (\<lambda>(seg, after).
           parse_var_path_loop (segs @ [(seg, pending)]) [] False after))
      else parse_var_path_loop segs (current @ [ch]) pending rest)"
  by pat_completeness auto
termination
  by (relation "measure (\<lambda>(segs, current, pending, s). length s)")
     (auto dest!: parse_paren_segment_shorter parse_bracket_segment_shorter tl_eq_Cons_length)

definition parse_var_path :: "string \<Rightarrow> (pc_error, VarPathAccessSegment list) result" where
  "parse_var_path var = parse_var_path_loop [] [] False var"

section \<open>The coalesce operator\<close>

text \<open>\<open>find_top_level_coalesce\<close>: the text in front of the first \<open>??\<close> outside quotes, brackets and
parentheses, and the text behind it.\<close>

fun split_coalesce :: "char option \<Rightarrow> bool \<Rightarrow> nat \<Rightarrow> nat \<Rightarrow> string \<Rightarrow> string \<Rightarrow> (string \<times> string) option" where
  "split_coalesce quote escaped paren bracket acc [] = None"
| "split_coalesce (Some q) escaped paren bracket acc (c # cs) =
     (if escaped then split_coalesce (Some q) False paren bracket (acc @ [c]) cs
      else if c = CHR 0x5C then split_coalesce (Some q) True paren bracket (acc @ [c]) cs
      else if c = q then split_coalesce None False paren bracket (acc @ [c]) cs
      else split_coalesce (Some q) False paren bracket (acc @ [c]) cs)"
| "split_coalesce None escaped paren bracket acc (c # cs) =
     (if c = CHR 0x22 \<or> c = CHR 0x27 then split_coalesce (Some c) escaped paren bracket (acc @ [c]) cs
      else if c = CHR ''['' then split_coalesce None escaped paren (bracket + 1) (acc @ [c]) cs
      else if c = CHR '']'' then split_coalesce None escaped paren (bracket - 1) (acc @ [c]) cs
      else if c = CHR ''('' then split_coalesce None escaped (paren + 1) bracket (acc @ [c]) cs
      else if c = CHR '')'' then split_coalesce None escaped (paren - 1) bracket (acc @ [c]) cs
      else if c = CHR ''?'' \<and> bracket = 0 \<and> paren = 0 \<and> cs \<noteq> [] \<and> hd cs = CHR ''?'' then Some (acc, tl cs)
      else split_coalesce None escaped paren bracket (acc @ [c]) cs)"

definition find_top_level_coalesce :: "string \<Rightarrow> (string \<times> string) option" where
  "find_top_level_coalesce expr = split_coalesce None False 0 0 [] expr"

definition should_parse_default_as_arg :: "string \<Rightarrow> bool" where
  "should_parse_default_as_arg expr =
     (case trim_start expr of c # _ \<Rightarrow> c = CHR ''$'' \<or> c = CHR 0x22 \<or> c = CHR 0x27 | [] \<Rightarrow> False)"

section \<open>Path resolution\<close>

datatype VarEvalResult =
    Value TypedValue
  | Missing string bool

definition escape_path_segment :: "string \<Rightarrow> string" where
  "escape_path_segment segment =
     concat (map (\<lambda>ch. if ch = CHR 0x5C \<or> ch = CHR ''.'' then [CHR 0x5C, ch] else [ch]) segment)"

definition normalize_segment_list :: "string list \<Rightarrow> string" where
  "normalize_segment_list segments = join ''.'' (map escape_path_segment segments)"

definition try_as_str :: "TypedValue \<Rightarrow> ('s, string) op" where
  "try_as_str v = (case v of String s \<Rightarrow> ret s | _ \<Rightarrow> fail (Failed ''Expected TypedValue::String'' (get_type v)))"

definition get_policy :: "('w pc, ExecutionPolicy) op" where
  "get_policy s = (Inr (policy s), s)"

type_synonym 'w var_eval = "string \<Rightarrow> ('w pc, VarEvalResult) op"

definition resolve_segment_key :: "'w var_eval \<Rightarrow> VarPathSegment \<Rightarrow> ('w pc, string) op" where
  "resolve_segment_key evalv segment =
     bind get_policy (\<lambda>pol.
       case segment of
         Static value \<Rightarrow> ret value
       | Dynamic expr \<Rightarrow>
           bind (evalv expr) (\<lambda>r. case r of
             Value v \<Rightarrow> try_as_str v
           | Missing key explicit \<Rightarrow>
               if explicit \<or> missing_var pol = MissingLenient then ret []
               else fail (Failed ''Dynamic segment variable not found'' (if key = [] then expr else key))))"

text \<open>One access on the current value: the next value, or an answer that ends the walk.\<close>

datatype access_step = Next "TypedValue option" | Done VarEvalResult

definition access_value ::
    "'w visitors \<Rightarrow> string \<Rightarrow> string list \<Rightarrow> string \<Rightarrow> bool \<Rightarrow> bool \<Rightarrow> TypedValue option \<Rightarrow>
     ('w pc, access_step) op" where
  "access_value vs current_key resolved seg_key optional is_last current_value =
     (let missing = Done (Missing (normalize_segment_list resolved) True);
          expected = Failed ''Expected a map'' current_key
      in case current_value of
           None \<Rightarrow> ret (Done (Missing (normalize_segment_list resolved) optional))
         | Some (List a) \<Rightarrow>
             (case parse_usize seg_key of
                Some i \<Rightarrow> bind (in_heap (list_get a i)) (\<lambda>v. ret (Next v))
              | None \<Rightarrow> if optional then ret missing else fail (InvalidListIndex seg_key))
         | Some (Map a) \<Rightarrow> bind (pc_map_get vs a seg_key) (\<lambda>v. ret (Next v))
         | Some (Set a) \<Rightarrow>
             if is_last then
               bind (in_heap (set_contains a seg_key)) (\<lambda>c.
                 ret (Next (if c then Some (String seg_key) else None)))
             else if optional then ret missing else fail expected
         | Some (MultiMap a) \<Rightarrow>
             if is_last then bind (in_heap (multimap_get_many a seg_key)) (\<lambda>r. ret (Next (map_option Set r)))
             else if optional then ret missing else fail expected
         | Some v \<Rightarrow> if optional then ret missing else fail expected)"

fun walk_segments ::
    "'w visitors \<Rightarrow> 'w var_eval \<Rightarrow> string \<Rightarrow> string list \<Rightarrow> bool \<Rightarrow> TypedValue option \<Rightarrow>
     VarPathAccessSegment list \<Rightarrow> ('w pc, VarEvalResult) op" where
  "walk_segments vs evalv current_key resolved last_optional current_value [] =
     ret (case current_value of
            Some v \<Rightarrow> Value v
          | None \<Rightarrow> Missing (normalize_segment_list resolved) last_optional)"
| "walk_segments vs evalv current_key resolved last_optional current_value ((segment, optional) # rest) =
     bind (resolve_segment_key evalv segment) (\<lambda>seg_key.
       let resolved = resolved @ [seg_key] in
       bind (access_value vs current_key resolved seg_key optional (rest = []) current_value) (\<lambda>r. case r of
         Done answer \<Rightarrow> ret answer
       | Next next_value \<Rightarrow> walk_segments vs evalv seg_key resolved optional next_value rest))"

definition evaluate_var_path :: "'w visitors \<Rightarrow> 'w var_eval \<Rightarrow> 'w var_eval" where
  "evaluate_var_path vs evalv var =
     (case parse_var_path var of
        Inl e \<Rightarrow> fail e
      | Inr [] \<Rightarrow> fail (Failed ''Variable path is empty'' var)
      | Inr ((segment, optional) # rest) \<Rightarrow>
          if optional then fail (Failed ''Invalid optional access for root segment'' var)
          else bind (resolve_segment_key evalv segment) (\<lambda>root_key.
            bind (get_var vs root_key None) (\<lambda>current_value.
              if rest = [] then
                ret (case current_value of
                       Some v \<Rightarrow> Value v
                     | None \<Rightarrow> Missing (normalize_segment_list [root_key]) False)
              else walk_segments vs evalv root_key [root_key] False current_value rest)))"

section \<open>Arguments\<close>

text \<open>\<open>subst\<close> runs the expression of a command substitution, \<open>evalv\<close> evaluates the text of a variable.\<close>

definition missing_value :: "VarEvalResult \<Rightarrow> ExecutionPolicy \<Rightarrow> ('s, TypedValue) op" where
  "missing_value r pol = (case r of
     Value v \<Rightarrow> ret v
   | Missing key explicit \<Rightarrow>
       if explicit then ret (String [])
       else if missing_var pol = MissingLenient then ret (String [])
       else fail (Failed ''Variable not found in context'' key))"

definition alloc_op :: "coll_data \<Rightarrow> ('w pc, addr) op" where
  "alloc_op d s = (let (a, h) = alloc d (pc_heap s) in (Inr a, s\<lparr> pc_heap := h \<rparr>))"

fun evaluate :: "'w visitors \<Rightarrow> 'w var_eval \<Rightarrow> (Expression \<Rightarrow> ('w pc, CommandResult) op) \<Rightarrow> CommandArg \<Rightarrow>
      ('w pc, TypedValue) op"
  and push_items :: "'w visitors \<Rightarrow> 'w var_eval \<Rightarrow> (Expression \<Rightarrow> ('w pc, CommandResult) op) \<Rightarrow> addr \<Rightarrow>
      CommandArg list \<Rightarrow> ('w pc, unit) op"
  and insert_entries :: "'w visitors \<Rightarrow> 'w var_eval \<Rightarrow> (Expression \<Rightarrow> ('w pc, CommandResult) op) \<Rightarrow> addr \<Rightarrow>
      (string \<times> CommandArg) list \<Rightarrow> ('w pc, unit) op" where
  "evaluate vs evalv subst (Literal v) = ret (String v)"
| "evaluate vs evalv subst (StringLiteral v) = ret (String v)"
| "evaluate vs evalv subst (TypedLiteral _ v) = ret v"
| "evaluate vs evalv subst (ListLiteral items) =
     bind (alloc_op (ListData [])) (\<lambda>a. bind (push_items vs evalv subst a items) (\<lambda>_. ret (List a)))"
| "evaluate vs evalv subst (MapLiteral entries) =
     bind (alloc_op (MapData [])) (\<lambda>a. bind (insert_entries vs evalv subst a entries) (\<lambda>_. ret (Map a)))"
| "evaluate vs evalv subst (Var var) =
     bind get_policy (\<lambda>pol. bind (evalv var) (\<lambda>r. missing_value r pol))"
| "evaluate vs evalv subst (CommandSubstitution cmd) =
     bind (subst cmd) (\<lambda>r. case into_substitution_value r of
       Some v \<Rightarrow> ret v
     | None \<Rightarrow> fail (Failed ''Command substitution did not return a value'' []))"
| "push_items vs evalv subst a [] = ret ()"
| "push_items vs evalv subst a (item # items) =
     bind (evaluate vs evalv subst item) (\<lambda>v. bind (in_heap (list_push a v)) (\<lambda>_.
       push_items vs evalv subst a items))"
| "insert_entries vs evalv subst a [] = ret ()"
| "insert_entries vs evalv subst a ((key, item) # entries) =
     bind (evaluate vs evalv subst item) (\<lambda>v. bind (pc_map_insert vs a key v) (\<lambda>_.
       insert_entries vs evalv subst a entries))"

type_synonym arg_parser = "string \<Rightarrow> (string \<times> CommandArg) option"

definition evaluate_default_expression ::
    "'w visitors \<Rightarrow> arg_parser \<Rightarrow> (Expression \<Rightarrow> ('w pc, CommandResult) op) \<Rightarrow> 'w var_eval \<Rightarrow> 'w var_eval" where
  "evaluate_default_expression vs parse_arg subst evalv text =
     (let expr = trim text in
      if expr = [] then fail (Failed ''Default expression is empty'' [])
      else if should_parse_default_as_arg expr then
        (case parse_arg expr of
           None \<Rightarrow> fail (Failed ''Invalid default expression'' expr)
         | Some (rest, arg) \<Rightarrow>
             if trim rest \<noteq> [] then fail (Failed ''Invalid trailing content in default expression'' expr)
             else (case arg of
                     CommandSubstitution _ \<Rightarrow> fail (Failed ''Command substitution is not supported in default expression yet'' expr)
                   | _ \<Rightarrow> bind (evaluate vs evalv subst arg) (\<lambda>v. ret (Value v))))
      else evalv expr)"

fun evaluate_var_expression ::
    "'w visitors \<Rightarrow> arg_parser \<Rightarrow> (Expression \<Rightarrow> ('w pc, CommandResult) op) \<Rightarrow> nat \<Rightarrow> 'w var_eval" where
  "evaluate_var_expression vs parse_arg subst 0 text = fail OutOfFuel"
| "evaluate_var_expression vs parse_arg subst (Suc n) text =
     (let var = trim text; evalv = evaluate_var_expression vs parse_arg subst n in
      if var = [] then fail (Failed ''Variable expression is empty'' [])
      else case find_top_level_coalesce var of
        Some (l, r) \<Rightarrow>
          (let lhs = trim l; rhs = trim r in
           if lhs = [] \<or> rhs = [] then fail (Failed ''Invalid coalesce expression'' var)
           else bind (evalv lhs) (\<lambda>v. case v of
                  Value v \<Rightarrow> ret (Value v)
                | Missing _ _ \<Rightarrow> evaluate_default_expression vs parse_arg subst evalv rhs))
      | None \<Rightarrow> evaluate_var_path vs evalv var)"

definition evaluate_arg ::
    "'w visitors \<Rightarrow> arg_parser \<Rightarrow> (Expression \<Rightarrow> ('w pc, CommandResult) op) \<Rightarrow> CommandArg \<Rightarrow> ('w pc, TypedValue) op" where
  "evaluate_arg vs parse_arg subst =
     evaluate vs (\<lambda>var. evaluate_var_expression vs parse_arg subst (Suc (length var)) var) subst"

fun evaluate_list ::
    "'w visitors \<Rightarrow> arg_parser \<Rightarrow> (Expression \<Rightarrow> ('w pc, CommandResult) op) \<Rightarrow> CommandArg list \<Rightarrow>
     ('w pc, TypedValue list) op" where
  "evaluate_list vs parse_arg subst [] = ret []"
| "evaluate_list vs parse_arg subst (a # as) =
     bind (evaluate_arg vs parse_arg subst a) (\<lambda>v.
       bind (evaluate_list vs parse_arg subst as) (\<lambda>vs. ret (v # vs)))"

definition evaluate_string ::
    "(64 word \<Rightarrow> string) \<Rightarrow> 'w visitors \<Rightarrow> arg_parser \<Rightarrow> (Expression \<Rightarrow> ('w pc, CommandResult) op) \<Rightarrow> CommandArg \<Rightarrow>
     ('w pc, string) op" where
  "evaluate_string fmt vs parse_arg subst a =
     bind (evaluate_arg vs parse_arg subst a) (\<lambda>v s. (coerce_to_string fmt v (coercion (policy s)), s))"

section \<open>Texts get shorter\<close>

lemma length_trim: "length (trim s) \<le> length s"
proof -
  have "length (trim_end t) \<le> length t" for t
    using length_dropWhile_le [of is_whitespace "rev t"] by (simp add: trim_end_def)
  then show ?thesis using length_trim_start [of s] by (auto simp: trim_def intro: order_trans)
qed

lemma parse_dynamic_segment_shorter:
  assumes "parse_dynamic_segment s = Inr (Dynamic x)"
  shows "length x < length s"
proof -
  have 1: "length (trim (butlast v)) < length s" if "strip_prefix ''${'' (trim s) = Some v" for v
    using that length_trim [of s] length_trim [of "butlast v"] by (auto simp: strip_prefix_Some_iff)
  have 2: "length (trim v) < length s" if "strip_prefix ''$'' (trim s) = Some v" for v
    using that length_trim [of s] length_trim [of v] by (auto simp: strip_prefix_Some_iff)
  show ?thesis
    using assms unfolding parse_dynamic_segment_def Let_def
    by (auto split: option.splits if_splits intro: 1 2)
qed

lemma parse_paren_segment_dynamic: "parse_paren_segment s = Inr (Dynamic x, r) \<Longrightarrow> length x < length s"
  by (auto simp: parse_paren_segment_def and_then_Inr_iff split: option.splits
      dest!: take_paren_split parse_dynamic_segment_shorter)

lemma parse_bracket_segment_dynamic: "parse_bracket_segment s = Inr (Dynamic x, r) \<Longrightarrow> length x < length s"
proof -
  assume a: "parse_bracket_segment s = Inr (Dynamic x, r)"
  then obtain c where "take_bracket 1 None False [] s = Some (c, r)" "parse_dynamic_segment (trim c) = Inr (Dynamic x)"
    by (auto simp: parse_bracket_segment_def Let_def and_then_Inr_iff split: option.splits if_splits)
  then show ?thesis
    using length_trim [of c] by (auto dest!: take_bracket_split parse_dynamic_segment_shorter)
qed

definition dynamics_below :: "nat \<Rightarrow> VarPathAccessSegment list \<Rightarrow> bool" where
  "dynamics_below n segs = (\<forall>x opt. (Dynamic x, opt) \<in> set segs \<longrightarrow> length x < n)"

lemma dynamics_below_simps [simp]:
  "dynamics_below n []" "dynamics_below n (xs @ ys) \<longleftrightarrow> dynamics_below n xs \<and> dynamics_below n ys"
  "dynamics_below n [(Static k, opt)]" "dynamics_below n [(Dynamic x, opt)] \<longleftrightarrow> length x < n"
  by (auto simp: dynamics_below_def)

lemma dynamics_below_paren:
  "parse_paren_segment s = Inr (g, r) \<Longrightarrow> length s \<le> n \<Longrightarrow> dynamics_below n [(g, opt)]"
  by (cases g) (auto dest: parse_paren_segment_dynamic)

lemma dynamics_below_bracket:
  "parse_bracket_segment s = Inr (g, r) \<Longrightarrow> length s \<le> n \<Longrightarrow> dynamics_below n [(g, opt)]"
  by (cases g) (auto dest: parse_bracket_segment_dynamic)

lemma dynamics_below_push: "dynamics_below n segs \<Longrightarrow> dynamics_below n (fst (push_static_segment segs cur p))"
  by (simp add: push_static_segment_def)

lemma parse_dynamic_segment_error: "parse_dynamic_segment s = Inl e \<Longrightarrow> \<exists>m x. e = Failed m x"
  by (auto simp: parse_dynamic_segment_def Let_def split: option.splits if_splits)

lemma parse_paren_segment_error: "parse_paren_segment s = Inl e \<Longrightarrow> \<exists>m x. e = Failed m x"
  by (auto simp: parse_paren_segment_def and_then_Inl_iff split: option.splits dest: parse_dynamic_segment_error)

text \<open>A bracket segment cannot consist of one quote character: the quote would be open at the closing bracket,
so the bracket would not match.\<close>

lemma take_bracket_skip:
  "\<forall>c \<in> set w. is_whitespace c \<Longrightarrow> take_bracket d None e acc (w @ s) = take_bracket d None e (acc @ w) s"
  by (induction w arbitrary: acc) (auto simp: is_whitespace_def)

lemma take_bracket_skip_quoted:
  "\<forall>c \<in> set w. is_whitespace c \<Longrightarrow> is_whitespace q \<or> q = CHR 0x22 \<or> q = CHR 0x27 \<Longrightarrow> \<not> is_whitespace q \<Longrightarrow>
   take_bracket d (Some q) False acc (w @ s) = take_bracket d (Some q) False (acc @ w) s"
  by (induction w arbitrary: acc) (auto simp: is_whitespace_def)

lemma trim_singleton:
  assumes "trim c = [q]"
  shows "\<exists>w w'. c = w @ q # w' \<and> (\<forall>x \<in> set w. is_whitespace x) \<and> (\<forall>x \<in> set w'. is_whitespace x)"
proof -
  have c: "c = takeWhile is_whitespace c @ trim_start c" by (simp add: trim_start_def)
  let ?t = "trim_start c"
  have "rev ?t = takeWhile is_whitespace (rev ?t) @ rev (trim_end ?t)" by (simp add: trim_end_def)
  then have "?t = trim_end ?t @ rev (takeWhile is_whitespace (rev ?t))"
    by (metis rev_append rev_rev_ident)
  then have "c = takeWhile is_whitespace c @ q # rev (takeWhile is_whitespace (rev ?t))"
    using c assms by (simp add: trim_def)
  moreover have "\<forall>x \<in> set (takeWhile is_whitespace c). is_whitespace x"
    "\<forall>x \<in> set (rev (takeWhile is_whitespace (rev ?t))). is_whitespace x"
    using set_takeWhileD by (fastforce, fastforce)
  ultimately show ?thesis by blast
qed

lemma take_bracket_not_lone_quote:
  assumes "take_bracket 1 None False [] s = Some (content, rest)" "q = CHR 0x22 \<or> q = CHR 0x27"
  shows "trim content \<noteq> [q]"
proof
  assume "trim content = [q]"
  then obtain w w' where w: "content = w @ q # w'" "\<forall>x \<in> set w. is_whitespace x" "\<forall>x \<in> set w'. is_whitespace x"
    using trim_singleton by blast
  obtain c where "content = c" "s = c @ CHR '']'' # rest"
    using take_bracket_split [OF assms(1)] by auto
  then have s: "s = w @ (q # (w' @ (CHR '']'' # rest)))" using w(1) by simp
  have q: "\<not> is_whitespace q" using assms(2) by (auto simp: is_whitespace_def)
  have "take_bracket 1 None False [] s = take_bracket 1 (Some q) False (w @ [q]) (w' @ (CHR '']'' # rest))"
    unfolding s using take_bracket_skip [OF w(2), of 1 False "[]"] assms(2) by simp
  also have "\<dots> = take_bracket 1 (Some q) False (w @ [q] @ w') (CHR '']'' # rest)"
    using take_bracket_skip_quoted [OF w(3), of q 1 "w @ [q]"] assms(2) q by simp
  also have "\<dots> = take_bracket 1 (Some q) False (content @ [CHR '']'']) rest"
    using assms(2) w(1) by auto
  finally have "take_bracket 1 (Some q) False (content @ [CHR '']'']) rest = Some (content, rest)"
    using assms(1) by simp
  then show False using take_bracket_split by fastforce
qed

lemma parse_bracket_segment_error: "parse_bracket_segment s = Inl e \<Longrightarrow> \<exists>m x. e = Failed m x"
proof -
  assume a: "parse_bracket_segment s = Inl e"
  show ?thesis
  proof (cases "take_bracket 1 None False [] s")
    case None
    then show ?thesis using a by (auto simp: parse_bracket_segment_def)
  next
    case (Some cr)
    then obtain c r where c: "take_bracket 1 None False [] s = Some (c, r)" by (cases cr) auto
    have "length (trim c) \<ge> 2"
      if "trim c \<noteq> []" "(hd (trim c) = CHR 0x22 \<or> hd (trim c) = CHR 0x27)"
    proof (rule ccontr)
      assume "\<not> length (trim c) \<ge> 2"
      then have "trim c = [hd (trim c)]" using that(1) by (cases "trim c"; cases "tl (trim c)") auto
      then show False using take_bracket_not_lone_quote [OF c] that(2) by metis
    qed
    then show ?thesis
      using a c by (auto simp: parse_bracket_segment_def Let_def and_then_Inl_iff
          dest: parse_dynamic_segment_error split: if_splits)
  qed
qed

declare parse_var_path_loop.simps(2) [simp del]

lemma parse_var_path_loop_step:
  assumes run: "parse_var_path_loop segs cur pend (ch # rest) = res"
    and below: "dynamics_below n segs" "length rest \<le> n"
    and plain_step: "\<And>segs' cur' pend' s'. parse_var_path_loop segs' cur' pend' s' = res \<Longrightarrow>
      dynamics_below n segs' \<Longrightarrow> length s' \<le> length rest \<Longrightarrow> P"
    and failed: "\<And>m x. res = Inl (Failed m x) \<Longrightarrow> P"
  shows P
proof -
  obtain ps pp where ps: "push_static_segment segs cur pend = (ps, pp)" by fastforce
  have dps: "dynamics_below n ps" using dynamics_below_push [OF below(1), of cur pend] ps by simp
  note run = run [unfolded parse_var_path_loop.simps(2) [of segs cur pend ch rest] ps Let_def prod.case]
  have paren: P
    if r: "and_then (parse_paren_segment cs) (\<lambda>(g, r). parse_var_path_loop (ps @ [(g, o')]) [] False r) = res"
      and le: "length cs \<le> length rest" for cs o'
  proof (cases "parse_paren_segment cs")
    case (Inl e)
    then show ?thesis using parse_paren_segment_error [OF Inl] r failed by auto
  next
    case (Inr gr)
    obtain g r where gr: "parse_paren_segment cs = Inr (g, r)" using Inr by (cases gr) auto
    then have "parse_var_path_loop (ps @ [(g, o')]) [] False r = res" using r by simp
    then show ?thesis
      using dps le below(2) parse_paren_segment_shorter [OF gr] dynamics_below_paren [OF gr, of n o']
      by (intro plain_step [of "ps @ [(g, o')]" "[]" False r]) simp_all
  qed
  have bracket: P
    if r: "and_then (parse_bracket_segment cs) (\<lambda>(g, r). parse_var_path_loop (ps @ [(g, o')]) [] False r) = res"
      and le: "length cs \<le> length rest" for cs o'
  proof (cases "parse_bracket_segment cs")
    case (Inl e)
    then show ?thesis using parse_bracket_segment_error [OF Inl] r failed by auto
  next
    case (Inr gr)
    obtain g r where gr: "parse_bracket_segment cs = Inr (g, r)" using Inr by (cases gr) auto
    then have "parse_var_path_loop (ps @ [(g, o')]) [] False r = res" using r by simp
    then show ?thesis
      using dps le below(2) parse_bracket_segment_shorter [OF gr] dynamics_below_bracket [OF gr, of n o']
      by (intro plain_step [of "ps @ [(g, o')]" "[]" False r]) simp_all
  qed
  show ?thesis
  proof (cases "ch = CHR 0x5C")
    case True
    then show ?thesis
      using run below plain_step [of segs "cur @ [CHR 0x5C]" pend "[]"]
        plain_step [of segs "cur @ [hd rest]" pend "tl rest"]
      by (cases rest) auto
  next
    case not_esc: False
    note run = run [unfolded if_not_P [OF not_esc]]
    show ?thesis
    proof (cases "ch = CHR ''?'' \<and> rest \<noteq> [] \<and> hd rest = CHR ''.''")
      case True
      then have "(case tl rest of [] \<Rightarrow> parse_var_path_loop ps [] True []
           | c # cs \<Rightarrow>
               if c = CHR ''('' then
                 and_then (parse_paren_segment cs) (\<lambda>(g, r). parse_var_path_loop (ps @ [(g, True)]) [] False r)
               else parse_var_path_loop ps [] True (c # cs)) = res"
        if "\<not> (cur = [] \<and> segs = [])" using run that by (simp split: if_splits)
      moreover have "P" if "cur = [] \<and> segs = []"
        using run True that failed by (auto split: if_splits)
      moreover have "length (tl rest) \<le> length rest" by simp
      ultimately show ?thesis
        using dps plain_step [of ps "[]" True "tl rest"] paren [of "tl (tl rest)" True]
        by (cases "cur = [] \<and> segs = []") (simp_all split: list.splits if_splits)
    next
      case not_odot: False
      note run = run [unfolded if_not_P [OF not_odot]]
      show ?thesis
      proof (cases "ch = CHR ''?'' \<and> rest \<noteq> [] \<and> hd rest = CHR ''[''")
        case True
        then show ?thesis using run bracket [of "tl rest" True] failed by (auto split: if_splits)
      next
        case not_obr: False
        note run = run [unfolded if_not_P [OF not_obr]]
        show ?thesis
        proof (cases "ch = CHR ''.''")
          case True
          then show ?thesis
            using run dps plain_step [of ps "[]" pp rest] paren [of "tl rest" pp]
            by (simp split: list.splits if_splits)
        next
          case not_dot: False
          note run = run [unfolded if_not_P [OF not_dot]]
          show ?thesis
            using run bracket [of rest pp] below plain_step [of segs "cur @ [ch]" pend rest]
            by (simp split: if_splits)
        qed
      qed
    qed
  qed
qed

lemma parse_var_path_loop_result:
  assumes "parse_var_path_loop segs cur pend s = res" "dynamics_below n segs" "length s \<le> Suc n"
  shows "case res of Inl e \<Rightarrow> (\<exists>m x. e = Failed m x) | Inr out \<Rightarrow> dynamics_below n out"
  using assms
proof (induction "length s" arbitrary: segs cur pend s rule: less_induct)
  case less
  show ?case
  proof (cases s)
    case Nil
    then show ?thesis using less.prems by (auto simp: Let_def split: if_splits)
  next
    case (Cons ch rest)
    have run: "parse_var_path_loop segs cur pend (ch # rest) = res" using less.prems(1) Cons by simp
    have "length rest \<le> n" using less.prems(3) Cons by simp
    from run less.prems(2) this show ?thesis
    proof (rule parse_var_path_loop_step)
      fix segs' cur' pend' s'
      assume *: "parse_var_path_loop segs' cur' pend' s' = res" "dynamics_below n segs'" "length s' \<le> length rest"
      show ?thesis by (rule less.hyps [OF _ *(1,2)]) (use * Cons less.prems(3) in auto)
    qed simp
  qed
qed

lemma parse_var_path_error: "parse_var_path var = Inl e \<Longrightarrow> \<exists>m x. e = Failed m x"
  using parse_var_path_loop_result [of "[]" "[]" False var "Inl e" "length var"]
  by (simp add: parse_var_path_def)

lemma parse_var_path_dynamics:
  "parse_var_path var = Inr segs \<Longrightarrow> (Dynamic x, opt) \<in> set segs \<Longrightarrow> length x < length var"
  using parse_var_path_loop_result [of "[]" "[]" False var "Inr segs" "length var"]
  by (auto simp: parse_var_path_def dynamics_below_def)

lemma split_coalesce_split:
  "split_coalesce q e p b acc s = Some (l, r) \<Longrightarrow> \<exists>c. l = acc @ c \<and> s = c @ ''??'' @ r"
proof (induction q e p b acc s rule: split_coalesce.induct)
  case (3 e p b acc c cs)
  then show ?case by (cases cs) (auto split: if_splits)
qed (auto split: if_splits)

section \<open>What evaluation keeps\<close>

lemma keeps_weaken: "keeps True m \<Longrightarrow> keeps b m"
  by (simp add: keeps_def)

lemma keeps_Pair_False [keeps_intros]: "keeps False (Pair r)"
  by (simp add: keeps_def)

lemma keeps_alloc_op [keeps_intros]: "data_ok d \<Longrightarrow> keeps b (alloc_op d)"
  by (rule keepsI)
     (auto simp: alloc_op_def alloc_def pc_ok_def hook_envs_def heap_ok_def
        intro: heap_evolves_alloc [OF heap_evolves_refl, unfolded alloc_def snd_conv])

lemma keeps_get_policy [keeps_intros]: "keeps b get_policy"
  by (simp add: keeps_def get_policy_def)

lemma keeps_try_as_str [keeps_intros]: "keeps b (try_as_str v)"
  by (auto simp: try_as_str_def intro!: keeps_intros split: TypedValue.split)

lemma keeps_missing_value [keeps_intros]: "keeps b (missing_value r pol)"
  by (auto simp: missing_value_def intro!: keeps_intros split: VarEvalResult.split)

lemma keeps_resolve_segment_key:
  assumes "\<And>x. seg = Dynamic x \<Longrightarrow> keeps b (evalv x)"
  shows "keeps b (resolve_segment_key evalv seg)"
  using assms
  by (auto simp: resolve_segment_key_def intro!: keeps_intros split: VarPathSegment.split VarEvalResult.split)

lemma keeps_access_value [keeps_intros]: "keeps b (access_value vs ck res key opt lst v)"
  by (auto simp: access_value_def Let_def intro!: keeps_intros split: option.split TypedValue.split)

lemma keeps_walk_segments:
  assumes "\<And>x opt. (Dynamic x, opt) \<in> set segs \<Longrightarrow> keeps b (evalv x)"
  shows "keeps b (walk_segments vs evalv ck res lo v segs)"
  using assms
proof (induction segs arbitrary: ck res lo v)
  case (Cons g segs)
  obtain seg opt where g: "g = (seg, opt)" by fastforce
  have "keeps b (resolve_segment_key evalv seg)"
    by (rule keeps_resolve_segment_key) (use Cons.prems g in auto)
  moreover have "keeps b (walk_segments vs evalv ck res lo v segs)" for ck res lo v
    by (rule Cons.IH) (use Cons.prems in auto)
  ultimately show ?case
    by (auto simp: g Let_def intro!: keeps_intros split: access_step.split)
qed (auto intro!: keeps_intros)

lemma keeps_evaluate_var_path:
  assumes "\<And>x. length x < length var \<Longrightarrow> keeps b (evalv x)"
  shows "keeps b (evaluate_var_path vs evalv var)"
proof (cases "parse_var_path var")
  case (Inl e)
  then show ?thesis
    using parse_var_path_error [OF Inl] by (auto simp: evaluate_var_path_def intro!: keeps_intros)
next
  case (Inr segs)
  show ?thesis
  proof (cases segs)
    case Nil
    then show ?thesis using Inr by (auto simp: evaluate_var_path_def intro!: keeps_intros)
  next
    case (Cons g rest)
    obtain seg opt where g: "g = (seg, opt)" by fastforce
    have dyn: "keeps b (evalv x)" if "(Dynamic x, opt') \<in> set segs" for x opt'
      using assms parse_var_path_dynamics [OF Inr that] by blast
    have "keeps b (resolve_segment_key evalv seg)"
      by (rule keeps_resolve_segment_key) (use dyn Cons g in auto)
    moreover have "keeps b (walk_segments vs evalv ck res lo v rest)" for ck res lo v
      by (rule keeps_walk_segments) (use dyn Cons in auto)
    ultimately show ?thesis
      using Inr Cons g by (auto simp: evaluate_var_path_def intro!: keeps_intros)
  qed
qed

text \<open>The variable texts and the command substitutions an argument contains.\<close>

fun arg_vars :: "CommandArg \<Rightarrow> string list" where
  "arg_vars (Var v) = [v]"
| "arg_vars (ListLiteral items) = concat (map arg_vars items)"
| "arg_vars (MapLiteral entries) = concat (map (\<lambda>(k, a). arg_vars a) entries)"
| "arg_vars _ = []"

fun arg_substs :: "CommandArg \<Rightarrow> Expression list" where
  "arg_substs (CommandSubstitution e) = [e]"
| "arg_substs (ListLiteral items) = concat (map arg_substs items)"
| "arg_substs (MapLiteral entries) = concat (map (\<lambda>(k, a). arg_substs a) entries)"
| "arg_substs _ = []"

lemma keeps_evaluate:
  "(\<And>v. v \<in> set (arg_vars a) \<Longrightarrow> keeps b (evalv v)) \<Longrightarrow> (\<And>e. e \<in> set (arg_substs a) \<Longrightarrow> keeps b (subst e)) \<Longrightarrow>
    keeps b (evaluate vs evalv subst a)"
  "(\<And>v. v \<in> set (concat (map arg_vars as)) \<Longrightarrow> keeps b (evalv v)) \<Longrightarrow>
    (\<And>e. e \<in> set (concat (map arg_substs as)) \<Longrightarrow> keeps b (subst e)) \<Longrightarrow>
    keeps b (push_items vs evalv subst adr as)"
  "(\<And>v. v \<in> set (concat (map (\<lambda>(k, a). arg_vars a) es)) \<Longrightarrow> keeps b (evalv v)) \<Longrightarrow>
    (\<And>e. e \<in> set (concat (map (\<lambda>(k, a). arg_substs a) es)) \<Longrightarrow> keeps b (subst e)) \<Longrightarrow>
    keeps b (insert_entries vs evalv subst adr es)"
proof (induction vs evalv subst a and vs evalv subst adr as and vs evalv subst adr es
    rule: evaluate_push_items_insert_entries.induct)
  case (7 vs evalv subst cmd)
  then show ?case by (auto intro!: keeps_intros split: option.split)
qed (auto simp: om_wf_def intro!: keeps_intros)

text \<open>What the code relies on in \<open>parse_arg\<close>: the variables of the parsed argument are parts of the text behind
its first character.\<close>

definition parses_parts :: "arg_parser \<Rightarrow> bool" where
  "parses_parts parse_arg =
     (\<forall>src rest a v. parse_arg src = Some (rest, a) \<longrightarrow> v \<in> set (arg_vars a) \<longrightarrow> length v < length src)"

lemma keeps_evaluate_default_expression:
  assumes "b \<Longrightarrow> parses_parts parse_arg"
    and "\<And>src rest a e. parse_arg src = Some (rest, a) \<Longrightarrow> e \<in> set (arg_substs a) \<Longrightarrow> keeps b (subst e)"
    and "\<And>x. (b \<Longrightarrow> length x \<le> length src) \<Longrightarrow> keeps b (evalv x)"
  shows "keeps b (evaluate_default_expression vs parse_arg subst evalv src)"
proof -
  have "keeps b (evaluate vs evalv subst a)" if p: "parse_arg (trim src) = Some (rest, a)" for rest a
  proof (rule keeps_evaluate(1))
    fix v assume "v \<in> set (arg_vars a)"
    then show "keeps b (evalv v)"
      using p assms(1) length_trim [of src] by (intro assms(3)) (fastforce simp: parses_parts_def)
  qed (use assms(2) p in blast)
  moreover have "keeps b (evalv (trim src))" by (rule assms(3)) (rule length_trim)
  ultimately show ?thesis
    by (auto simp: evaluate_default_expression_def Let_def simp del: evaluate.simps intro!: keeps_intros
        split: option.split CommandArg.split)
qed

lemma keeps_evaluate_var_expression:
  assumes "b \<Longrightarrow> parses_parts parse_arg"
    and "\<And>src rest a e. parse_arg src = Some (rest, a) \<Longrightarrow> e \<in> set (arg_substs a) \<Longrightarrow> keeps b (subst e)"
    and "b \<Longrightarrow> length src < n"
  shows "keeps b (evaluate_var_expression vs parse_arg subst n src)"
  using assms(3)
proof (induction n arbitrary: src)
  case 0
  then show ?case by (cases b) (auto intro: keeps_intros)
next
  case (Suc n)
  let ?evalv = "evaluate_var_expression vs parse_arg subst n"
  have IH: "keeps b (?evalv x)" if "b \<Longrightarrow> length x < length src" for x
    by (rule Suc.IH) (use that Suc.prems in force)
  have "keeps b (evaluate_var_path vs ?evalv (trim src))"
    by (rule keeps_evaluate_var_path) (use IH length_trim [of src] in force)
  moreover have "keeps b (?evalv (trim l))" "keeps b (evaluate_default_expression vs parse_arg subst ?evalv (trim r))"
    if co: "find_top_level_coalesce (trim src) = Some (l, r)" for l r
  proof -
    have "length l + length r + 2 = length (trim src)"
      using split_coalesce_split [OF co [unfolded find_top_level_coalesce_def]] by auto
    then have *: "length (trim l) < length src" "length (trim r) < length src"
      using length_trim [of src] length_trim [of l] length_trim [of r] by simp_all
    show "keeps b (?evalv (trim l))" using * by (intro IH) simp
    show "keeps b (evaluate_default_expression vs parse_arg subst ?evalv (trim r))"
      by (rule keeps_evaluate_default_expression [OF assms(1,2)]) (use IH * in \<open>auto intro: le_less_trans\<close>)
  qed
  ultimately show ?case
    by (auto simp: Let_def intro!: keeps_intros split: option.split VarEvalResult.split)
qed

lemma keeps_evaluate_arg:
  assumes "b \<Longrightarrow> parses_parts parse_arg"
    and "\<And>src rest a e. parse_arg src = Some (rest, a) \<Longrightarrow> e \<in> set (arg_substs a) \<Longrightarrow> keeps b (subst e)"
    and "\<And>e. e \<in> set (arg_substs a) \<Longrightarrow> keeps b (subst e)"
  shows "keeps b (evaluate_arg vs parse_arg subst a)"
  unfolding evaluate_arg_def
proof (rule keeps_evaluate(1))
  fix v
  show "keeps b (evaluate_var_expression vs parse_arg subst (Suc (length v)) v)"
    by (rule keeps_evaluate_var_expression [OF assms(1,2)]) auto
qed (rule assms(3))

section \<open>Properties\<close>

text \<open>Parsing a variable path never panics: every failure of \<open>parse_var_path\<close> is one of its error
messages. In particular the slice that strips the quotes of a bracket segment is always in range, because
a bracket cannot close inside an open quote.\<close>

theorem parse_var_path_never_panics: "\<forall>p. parse_var_path var \<noteq> Inl (Panic p)"
  using parse_var_path_error by fastforce

end
