(* ===== verification/Block_Exec.thy ===== *)
theory Block_Exec
  imports Eval
begin

text \<open>Execution of blocks (\<open>BlockExecuter\<close> in \<open>cyfs-process-chain/src/block/exec.rs\<close>): expression chains, the
statements, and the restoration of the variables that loops, case subjects and match branches bind.

\<open>run\<close> is the dispatch \<open>exec.exec(context)\<close> on the executor of a command; the functions of this theory are
structural in the syntax. \<open>Runtime\<close> errors keep the message of \<open>wrap_runtime_error\<close> and its cause; the line
number and source text it adds are dropped.\<close>

section \<open>Combinators\<close>

record 'w interp =
  ip_visitors :: "'w visitors"
  ip_parse_arg :: arg_parser
  ip_fmt_float :: "64 word \<Rightarrow> string"

type_synonym 'w exec = "('w pc, CommandResult) op"

definition wrap :: "string \<Rightarrow> ('s, 'a) op \<Rightarrow> ('s, 'a) op" where
  "wrap msg m s = (case m s of (Inl e, s) \<Rightarrow> (Inl (Runtime msg e), s) | (Inr x, s) \<Rightarrow> (Inr x, s))"

text \<open>Run the parts in order and stop at the first control result.\<close>

fun until_control :: "('a \<Rightarrow> 'w exec) \<Rightarrow> CommandResult \<Rightarrow> 'a list \<Rightarrow> 'w exec" where
  "until_control f result [] = ret result"
| "until_control f result (x # xs) =
     bind (f x) (\<lambda>r. if is_control r then ret r else until_control f r xs)"

lemma until_control_cong [fundef_cong]:
  "xs = ys \<Longrightarrow> (\<And>x. x \<in> set ys \<Longrightarrow> f x = g x) \<Longrightarrow> r = r' \<Longrightarrow> until_control f r xs = until_control g r' ys"
proof (induction ys arbitrary: xs r r')
  case (Cons y ys)
  have "until_control f x ys = until_control g x ys" for x by (rule Cons.IH) (use Cons.prems in auto)
  then show ?case using Cons.prems by (simp cong: if_cong)
qed simp

text \<open>The first branch whose condition succeeds.\<close>

fun first_branch :: "('c \<Rightarrow> 'w exec) \<Rightarrow> ('b \<Rightarrow> 'w exec) \<Rightarrow> 'w exec \<Rightarrow> ('c \<times> 'b) list \<Rightarrow> 'w exec" where
  "first_branch cond body otherwise [] = otherwise"
| "first_branch cond body otherwise ((c, b) # bs) =
     bind (cond c) (\<lambda>r. if is_success r then body b else first_branch cond body otherwise bs)"

lemma first_branch_cong [fundef_cong]:
  "bs = bs' \<Longrightarrow> (\<And>c b. (c, b) \<in> set bs' \<Longrightarrow> cond c = cond' c) \<Longrightarrow> (\<And>c b. (c, b) \<in> set bs' \<Longrightarrow> body b = body' b) \<Longrightarrow>
   otherwise = otherwise' \<Longrightarrow> first_branch cond body otherwise bs = first_branch cond' body' otherwise' bs'"
proof (induction bs' arbitrary: bs)
  case (Cons x bs')
  obtain c b where x: "x = (c, b)" by fastforce
  have "first_branch cond body otherwise bs' = first_branch cond' body' otherwise' bs'"
    by (rule Cons.IH) (use Cons.prems in auto)
  moreover have "cond c = cond' c" "body b = body' b" using Cons.prems(2,3) [of c b] x by auto
  ultimately show ?case using Cons.prems(1) x by (simp cong: if_cong)
qed (simp_all)

section \<open>Expressions\<close>

definition execute_command :: "(Executor \<Rightarrow> 'w exec) \<Rightarrow> string \<Rightarrow> Executor option \<Rightarrow> 'w exec" where
  "execute_command run name ex =
     (case ex of
        None \<Rightarrow> fail (Runtime ''Command not linked'' (Failed ''Command not linked'' name))
      | Some x \<Rightarrow> wrap ''Command execution failed'' (run x))"

definition apply_prefix :: "Operator option \<Rightarrow> CommandResult \<Rightarrow> 'w exec" where
  "apply_prefix pre r =
     (if pre = Some OpNot then
        (case try_not r of
           Inl e \<Rightarrow> fail (Runtime ''Failed to apply NOT operator'' e)
         | Inr r \<Rightarrow> ret r)
      else ret r)"

definition stops_chain :: "Operator option \<Rightarrow> CommandResult \<Rightarrow> bool" where
  "stops_chain post r = ((post = Some OpAnd \<and> \<not> is_success r) \<or> (post = Some OpOr \<and> is_success r))"

fun execute_expression :: "(Executor \<Rightarrow> 'w exec) \<Rightarrow> Expression \<Rightarrow> 'w exec"
  and execute_expression_chain ::
    "(Executor \<Rightarrow> 'w exec) \<Rightarrow> string option \<Rightarrow> CommandResult \<Rightarrow> ExpressionChain \<Rightarrow> 'w exec" where
  "execute_expression run (Command name args ex) =
     wrap ''Failed to execute command expression'' (execute_command run name ex)"
| "execute_expression run (Group es) = execute_expression_chain run None success es"
| "execute_expression_chain run no_control result [] = ret result"
| "execute_expression_chain run no_control result ((pre, e, post) # es) =
     bind (wrap ''Failed to execute expression'' (execute_expression run e)) (\<lambda>r.
       bind (apply_prefix pre r) (\<lambda>r.
         if is_control r then
           (case no_control of
              None \<Rightarrow> ret r
            | Some msg \<Rightarrow> fail (Runtime msg (Failed ''control'' [])))
         else if stops_chain post r then ret r
         else execute_expression_chain run no_control r es))"

text \<open>\<open>None\<close> allows control results; \<open>Some msg\<close> is a condition, where they are an error.\<close>

definition eval_arg :: "'w interp \<Rightarrow> (Executor \<Rightarrow> 'w exec) \<Rightarrow> CommandArg \<Rightarrow> ('w pc, TypedValue) op" where
  "eval_arg ip run a = evaluate_arg (ip_visitors ip) (ip_parse_arg ip) (execute_expression run) a"

section \<open>Scoped variables\<close>

record LoopVarSnapshot =
  snap_name :: string
  snap_value :: "TypedValue option"
  snap_level :: "EnvLevel option"

definition snapshot_block_var :: "'w interp \<Rightarrow> string \<Rightarrow> ('w pc, LoopVarSnapshot) op" where
  "snapshot_block_var ip name =
     bind (env_contains Block name) (\<lambda>exists.
       bind (if exists then get_var (ip_visitors ip) name (Some Block) else ret None) (\<lambda>value s.
         (Inr \<lparr> snap_name = name, snap_value = value, snap_level = var_level_entry name s \<rparr>, s)))"

fun snapshot_block_vars :: "'w interp \<Rightarrow> string list \<Rightarrow> ('w pc, LoopVarSnapshot list) op" where
  "snapshot_block_vars ip [] = ret []"
| "snapshot_block_vars ip (x # xs) =
     bind (snapshot_block_var ip x) (\<lambda>p. bind (snapshot_block_vars ip xs) (\<lambda>ps. ret (p # ps)))"

fun restore_block_vars :: "'w interp \<Rightarrow> LoopVarSnapshot list \<Rightarrow> ('w pc, unit) op" where
  "restore_block_vars ip [] = ret ()"
| "restore_block_vars ip (p # ps) =
     bind (case snap_value p of
             Some v \<Rightarrow> set_var (ip_visitors ip) (snap_name p) v (Some Block)
           | None \<Rightarrow> remove_var (ip_visitors ip) (snap_name p) (Some Block)) (\<lambda>_ s.
       restore_block_vars ip ps (restore_var_level_entry (snap_name p) (snap_level p) s))"

fun set_block_vars :: "'w interp \<Rightarrow> (string \<times> TypedValue) list \<Rightarrow> ('w pc, unit) op" where
  "set_block_vars ip [] = ret ()"
| "set_block_vars ip ((x, v) # bs) =
     bind (set_var (ip_visitors ip) x v (Some Block)) (\<lambda>_. set_block_vars ip bs)"

text \<open>Run the body, then restore the snapshots whatever its result, and combine the two results; the
messages are for a failed body, a failed restoration and both.\<close>

type_synonym scope_messages = "string \<times> string \<times> string"

definition for_messages :: scope_messages where
  "for_messages = (''Failed to execute for statement'', ''Failed to restore loop variable scope'',
     ''Failed to execute for statement and restore loop variable scope'')"

definition case_messages :: scope_messages where
  "case_messages = (''Failed to execute case statement'', ''Failed to restore case subject binding'',
     ''Failed to execute case statement and restore subject binding'')"

definition match_messages :: scope_messages where
  "match_messages = (''Failed to execute match-result branch'', ''Failed to restore match-result branch scope'',
     ''Failed to execute match-result branch and restore scope'')"

definition with_restore :: "scope_messages \<Rightarrow> 'w interp \<Rightarrow> LoopVarSnapshot list \<Rightarrow> 'w exec \<Rightarrow> 'w exec" where
  "with_restore messages ip snapshots m s =
     (let (exec_failed, restore_failed, both_failed) = messages;
          (exec_result, s) = m s; (restore_result, s) = restore_block_vars ip snapshots s in
      (case exec_result of
         Inr r \<Rightarrow> (case restore_result of Inr _ \<Rightarrow> Inr r | Inl e \<Rightarrow> Inl (Runtime restore_failed e))
       | Inl e \<Rightarrow> (case restore_result of
                     Inr _ \<Rightarrow> Inl (Runtime exec_failed e)
                   | Inl e' \<Rightarrow> Inl (RuntimeBoth both_failed e e')), s))"

definition with_bindings ::
    "scope_messages \<Rightarrow> 'w interp \<Rightarrow> (string \<times> TypedValue) list \<Rightarrow> 'w exec \<Rightarrow> 'w exec" where
  "with_bindings messages ip bindings body =
     bind (snapshot_block_vars ip (map fst bindings)) (\<lambda>snapshots.
       with_restore messages ip snapshots (bind (set_block_vars ip bindings) (\<lambda>_. body)))"

section \<open>Loops\<close>

datatype ForIterationOutcome =
    Continue CommandResult
  | BreakLoop CommandResult
  | Propagate CommandResult

record ForTraverseState =
  for_result :: CommandResult
  for_terminal :: "CommandResult option"

definition new_traverse_state :: ForTraverseState where
  "new_traverse_state = \<lparr> for_result = success, for_terminal = None \<rparr>"

fun iteration_outcome :: "CommandResult \<Rightarrow> ForIterationOutcome" where
  "iteration_outcome (Control (Break v)) = BreakLoop (Success v)"
| "iteration_outcome (Control c) = Propagate (Control c)"
| "iteration_outcome r = Continue r"

definition execute_for_iteration ::
    "'w interp \<Rightarrow> string \<Rightarrow> string option \<Rightarrow> 'w exec \<Rightarrow> TypedValue \<Rightarrow> TypedValue option \<Rightarrow>
     ('w pc, ForIterationOutcome) op" where
  "execute_for_iteration ip key_var value_var body key value =
     bind (set_var (ip_visitors ip) key_var key (Some Block)) (\<lambda>_.
       bind (case value_var of
               Some x \<Rightarrow> set_var (ip_visitors ip) x (case value of Some v \<Rightarrow> v | None \<Rightarrow> Null) (Some Block)
             | None \<Rightarrow> ret None) (\<lambda>_.
         bind body (\<lambda>r. ret (iteration_outcome r))))"

text \<open>The state after an iteration and whether the traversal goes on.\<close>

fun apply_iteration_outcome :: "ForTraverseState \<Rightarrow> ForIterationOutcome \<Rightarrow> bool \<times> ForTraverseState" where
  "apply_iteration_outcome st (Continue r) = (True, st\<lparr> for_result := r \<rparr>)"
| "apply_iteration_outcome st (BreakLoop r) = (False, st\<lparr> for_result := r \<rparr>)"
| "apply_iteration_outcome st (Propagate r) = (False, st\<lparr> for_terminal := Some r \<rparr>)"

definition finalize_for_traverse_state :: "ForTraverseState \<Rightarrow> CommandResult" where
  "finalize_for_traverse_state st = (case for_terminal st of Some r \<Rightarrow> r | None \<Rightarrow> for_result st)"

text \<open>What the callback of a traversal gets per element: the loop key and the loop value; the values of a
multi-map key become a new set.\<close>

datatype loop_value = NoValue | ValueOf TypedValue | FreshSet "string list"

definition list_items :: "bool \<Rightarrow> TypedValue list \<Rightarrow> (TypedValue \<times> loop_value) list" where
  "list_items has_value vs = map (\<lambda>(i, v).
     if has_value then (Number (IntNum (of_nat i)), ValueOf v) else (v, NoValue)) (enumerate 0 vs)"

definition set_items :: "bool \<Rightarrow> string list \<Rightarrow> (TypedValue \<times> loop_value) list" where
  "set_items has_value xs = map (\<lambda>x. (String x, if has_value then ValueOf (String x) else NoValue)) xs"

definition map_items :: "bool \<Rightarrow> TypedValue omap \<Rightarrow> (TypedValue \<times> loop_value) list" where
  "map_items has_value m = map (\<lambda>(k, v). (String k, if has_value then ValueOf v else NoValue)) m"

definition multimap_items :: "bool \<Rightarrow> string list omap \<Rightarrow> (TypedValue \<times> loop_value) list" where
  "multimap_items has_value m = map (\<lambda>(k, vs). (String k, if has_value then FreshSet vs else NoValue)) m"

definition loop_items :: "bool \<Rightarrow> TypedValue \<Rightarrow> heap \<Rightarrow> (pc_error, addr \<times> (TypedValue \<times> loop_value) list) result" where
  "loop_items has_value iterable h =
     (case iterable of
        List a \<Rightarrow> (case fetch_list h a of Some (xs, _) \<Rightarrow> Inr (a, list_items has_value xs)
                   | None \<Rightarrow> Inl (CollErr (BadReference a)))
      | Set a \<Rightarrow> (case fetch_set h a of Some (xs, _) \<Rightarrow> Inr (a, set_items has_value xs)
                  | None \<Rightarrow> Inl (CollErr (BadReference a)))
      | Map a \<Rightarrow> (case fetch_map h a of Some (m, _) \<Rightarrow> Inr (a, map_items has_value m)
                  | None \<Rightarrow> Inl (CollErr (BadReference a)))
      | MultiMap a \<Rightarrow> (case fetch_multimap h a of Some (m, _) \<Rightarrow> Inr (a, multimap_items has_value m)
                  | None \<Rightarrow> Inl (CollErr (BadReference a)))
      | v \<Rightarrow> Inl (Failed ''For-loop iterable must be List/Set/Map/MultiMap'' (get_type v)))"

definition loop_value_of :: "loop_value \<Rightarrow> ('w pc, TypedValue option) op" where
  "loop_value_of v = (case v of
     NoValue \<Rightarrow> ret None
   | ValueOf v \<Rightarrow> ret (Some v)
   | FreshSet xs \<Rightarrow> bind (alloc_op (SetData xs)) (\<lambda>a. ret (Some (Set a))))"

fun traverse_items ::
    "(TypedValue \<Rightarrow> TypedValue option \<Rightarrow> ('w pc, ForIterationOutcome) op) \<Rightarrow> ForTraverseState \<Rightarrow>
     (TypedValue \<times> loop_value) list \<Rightarrow> ('w pc, ForTraverseState) op" where
  "traverse_items iter st [] = ret st"
| "traverse_items iter st ((key, lv) # items) =
     bind (loop_value_of lv) (\<lambda>value. bind (iter key value) (\<lambda>outcome.
       let (go_on, st) = apply_iteration_outcome st outcome in
       if go_on then traverse_items iter st items else ret st))"

text \<open>The traversal guard around an operation: released on every way out.\<close>

definition traversing :: "addr \<Rightarrow> ('w pc, 'a) op \<Rightarrow> ('w pc, 'a) op" where
  "traversing a m s =
     (let (r, s) = m (s\<lparr> pc_heap := begin_traverse a (pc_heap s) \<rparr>)
      in (r, s\<lparr> pc_heap := end_traverse a (pc_heap s) \<rparr>))"

definition for_loop ::
    "'w interp \<Rightarrow> (Executor \<Rightarrow> 'w exec) \<Rightarrow> string \<Rightarrow> string option \<Rightarrow> CommandArg \<Rightarrow> 'w exec \<Rightarrow> 'w exec" where
  "for_loop ip run key_var value_var iterable body =
     bind (eval_arg ip run iterable) (\<lambda>it s.
       case loop_items (value_var \<noteq> None) it (pc_heap s) of
         Inl e \<Rightarrow> (Inl e, s)
       | Inr (a, items) \<Rightarrow>
           bind (traversing a (traverse_items (execute_for_iteration ip key_var value_var body)
                   new_traverse_state items))
                (\<lambda>st. ret (finalize_for_traverse_state st)) s)"

definition loop_names :: "string \<Rightarrow> string option \<Rightarrow> string list" where
  "loop_names key_var value_var = key_var # (case value_var of Some x \<Rightarrow> [x] | None \<Rightarrow> [])"

definition execute_for_statement ::
    "'w interp \<Rightarrow> (Executor \<Rightarrow> 'w exec) \<Rightarrow> string \<Rightarrow> string option \<Rightarrow> CommandArg \<Rightarrow> 'w exec \<Rightarrow> 'w exec" where
  "execute_for_statement ip run key_var value_var iterable body =
     bind (snapshot_block_vars ip (loop_names key_var value_var)) (\<lambda>snapshots.
       with_restore for_messages ip snapshots (for_loop ip run key_var value_var iterable body))"

section \<open>Statements\<close>

fun control_action :: "CommandControl \<Rightarrow> string" where
  "control_action (Return l v) = ''return''"
| "control_action (ErrorReturn l v) = ''error''"
| "control_action (Exit v) = ''exit''"
| "control_action (Break v) = ''break''"

fun control_from :: "CommandControl \<Rightarrow> TypedValue" where
  "control_from (Return l v) = String (ctl_as_str l)"
| "control_from (ErrorReturn l v) = String (ctl_as_str l)"
| "control_from (Exit v) = Null"
| "control_from (Break v) = Null"

fun execute_line :: "'w interp \<Rightarrow> (Executor \<Rightarrow> 'w exec) \<Rightarrow> Line \<Rightarrow> 'w exec"
  and execute_statement :: "'w interp \<Rightarrow> (Executor \<Rightarrow> 'w exec) \<Rightarrow> Statement \<Rightarrow> 'w exec" where
  "execute_line ip run (Line src sts) = until_control (execute_statement ip run) success sts"
| "execute_statement ip run (Expressions es) = execute_expression_chain run None success es"
| "execute_statement ip run (IfStatement bs els) =
     first_branch (execute_expression_chain run (Some ''Control action is not allowed in if condition'') success)
       (until_control (execute_line ip run) success)
       (case els of Some ls \<Rightarrow> until_control (execute_line ip run) success ls | None \<Rightarrow> ret success) bs"
| "execute_statement ip run (CaseStatement sub bnd bs els) =
     (let branches =
        first_branch (execute_expression_chain run (Some ''Control action is not allowed in case condition'') success)
          (until_control (execute_line ip run) success)
          (case els of Some ls \<Rightarrow> until_control (execute_line ip run) success ls | None \<Rightarrow> ret success) bs
      in case (sub, bnd) of
           (Some a, Some x) \<Rightarrow>
             bind (eval_arg ip run a) (\<lambda>v. with_bindings case_messages ip [(x, v)] branches)
         | _ \<Rightarrow> branches)"
| "execute_statement ip run (ForStatement key_var value_var iterable ls) =
     execute_for_statement ip run key_var value_var iterable (until_control (execute_line ip run) success ls)"
| "execute_statement ip run (MatchResultStatement e ok er ct) =
     bind (execute_expression run e) (\<lambda>r. case r of
       Success v \<Rightarrow>
         (case ok of
            Some (x, ls) \<Rightarrow>
              with_bindings match_messages ip [(x, v)] (until_control (execute_line ip run) success ls)
          | None \<Rightarrow> ret r)
     | Error v \<Rightarrow>
         (case er of
            Some (x, ls) \<Rightarrow>
              with_bindings match_messages ip [(x, v)] (until_control (execute_line ip run) success ls)
          | None \<Rightarrow> ret r)
     | Control c \<Rightarrow>
         (case ct of
            Some (xa, xf, xv, ls) \<Rightarrow>
              with_bindings match_messages ip
                [(xa, String (control_action c)), (xf, control_from c), (xv, control_value c)]
                (until_control (execute_line ip run) success ls)
          | None \<Rightarrow> ret r))"

definition execute_block :: "'w interp \<Rightarrow> (Executor \<Rightarrow> 'w exec) \<Rightarrow> Block \<Rightarrow> 'w exec" where
  "execute_block ip run b =
     until_control (\<lambda>line. wrap ''Failed to execute line'' (execute_line ip run line)) success (lines b)"

section \<open>The executors a piece of syntax can run\<close>

fun expr_execs :: "Expression \<Rightarrow> Executor list" where
  "expr_execs (Command name args ex) = (case ex of Some x \<Rightarrow> [x] | None \<Rightarrow> [])"
| "expr_execs (Group es) = concat (map (\<lambda>(pre, e, post). expr_execs e) es)"

definition chain_execs :: "ExpressionChain \<Rightarrow> Executor list" where
  "chain_execs es = concat (map (\<lambda>(pre, e, post). expr_execs e) es)"

definition arg_execs :: "CommandArg \<Rightarrow> Executor list" where
  "arg_execs a = concat (map expr_execs (arg_substs a))"

fun line_execs :: "Line \<Rightarrow> Executor list"
  and stmt_execs :: "Statement \<Rightarrow> Executor list" where
  "line_execs (Line src sts) = concat (map stmt_execs sts)"
| "stmt_execs (Expressions es) = chain_execs es"
| "stmt_execs (IfStatement bs els) =
     concat (map (\<lambda>(c, ls). chain_execs c @ concat (map line_execs ls)) bs) @
     (case els of Some ls \<Rightarrow> concat (map line_execs ls) | None \<Rightarrow> [])"
| "stmt_execs (CaseStatement sub bnd bs els) =
     (case sub of Some a \<Rightarrow> arg_execs a | None \<Rightarrow> []) @
     concat (map (\<lambda>(c, ls). chain_execs c @ concat (map line_execs ls)) bs) @
     (case els of Some ls \<Rightarrow> concat (map line_execs ls) | None \<Rightarrow> [])"
| "stmt_execs (ForStatement k v it ls) = arg_execs it @ concat (map line_execs ls)"
| "stmt_execs (MatchResultStatement e ok er ct) =
     expr_execs e @ (case ok of Some (x, ls) \<Rightarrow> concat (map line_execs ls) | None \<Rightarrow> []) @
     (case er of Some (x, ls) \<Rightarrow> concat (map line_execs ls) | None \<Rightarrow> []) @
     (case ct of Some (x, y, z, ls) \<Rightarrow> concat (map line_execs ls) | None \<Rightarrow> [])"

definition block_execs :: "Block \<Rightarrow> Executor list" where
  "block_execs b = concat (map line_execs (lines b))"

section \<open>What execution keeps\<close>

text \<open>What the code relies on in \<open>parse_arg\<close>: variables are parts of the text, and the commands of a freshly
parsed argument are not linked.\<close>

definition parser_ok :: "arg_parser \<Rightarrow> bool" where
  "parser_ok parse_arg = (parses_parts parse_arg \<and>
     (\<forall>src rest a. parse_arg src = Some (rest, a) \<longrightarrow> arg_execs a = []))"

lemma keeps_wrap [keeps_intros]:
  assumes "keeps b m"
  shows "keeps b (wrap msg m)"
proof (rule keepsI)
  fix s
  obtain r t where m: "m s = (r, t)" by fastforce
  assume s: "pc_ok s"
  have "heap_evolves (pc_heap s) (pc_heap t)" "pc_ok t" "b \<Longrightarrow> fuel_result r"
    using assms m s by (auto simp: keeps_def dest!: spec [of _ s])
  then show "heap_evolves (pc_heap s) (pc_heap (snd (wrap msg m s)))"
    "pc_ok (snd (wrap msg m s))" "b \<Longrightarrow> fuel_result (fst (wrap msg m s))"
    using m by (cases r; simp add: wrap_def)+
qed

lemma keeps_until_control:
  "(\<And>x. x \<in> set xs \<Longrightarrow> keeps b (f x)) \<Longrightarrow> keeps b (until_control f r xs)"
  by (induction xs arbitrary: r) (auto intro!: keeps_intros)

lemma keeps_first_branch:
  "(\<And>c l. (c, l) \<in> set bs \<Longrightarrow> keeps b (cond c) \<and> keeps b (body l)) \<Longrightarrow> keeps b otherwise \<Longrightarrow>
   keeps b (first_branch cond body otherwise bs)"
  by (induction bs) (fastforce intro!: keeps_intros)+

lemma keeps_apply_prefix [keeps_intros]: "keeps b (apply_prefix pre r)"
  by (cases r) (auto simp: apply_prefix_def intro!: keeps_intros)

lemma keeps_execute_expression:
  "(\<And>x. x \<in> set (expr_execs e) \<Longrightarrow> keeps b (run x)) \<Longrightarrow> keeps b (execute_expression run e)"
  "(\<And>x. x \<in> set (chain_execs es) \<Longrightarrow> keeps b (run x)) \<Longrightarrow> keeps b (execute_expression_chain run nc r es)"
proof (induction run e and run nc r es rule: execute_expression_execute_expression_chain.induct)
  case (1 run name args ex)
  then show ?case by (auto simp: execute_command_def intro!: keeps_intros split: option.split)
next
  case (2 run es)
  then show ?case by (auto simp: chain_execs_def)
next
  case (4 run nc r pre e post es)
  have "keeps b (execute_expression run e)" by (rule "4.IH"(1)) (use "4.prems" in \<open>auto simp: chain_execs_def\<close>)
  moreover have "keeps b (execute_expression_chain run nc r' es)" if "\<not> is_control r'" "\<not> stops_chain post r'" for r'
    by (rule "4.IH"(2) [OF that]) (use "4.prems" in \<open>auto simp: chain_execs_def\<close>)
  ultimately show ?case by (auto intro!: keeps_intros split: option.split)
qed (auto intro: keeps_intros)

lemma keeps_eval_arg:
  assumes "parser_ok (ip_parse_arg ip)" "\<And>x. x \<in> set (arg_execs a) \<Longrightarrow> keeps b (run x)"
  shows "keeps b (eval_arg ip run a)"
  unfolding eval_arg_def
proof (rule keeps_evaluate_arg)
  show "parses_parts (ip_parse_arg ip)" using assms(1) by (simp add: parser_ok_def)
next
  fix src rest a e
  assume "ip_parse_arg ip src = Some (rest, a)" "e \<in> set (arg_substs a)"
  then have "set (expr_execs e) \<subseteq> set (arg_execs a)" "arg_execs a = []"
    using assms(1) by (auto simp: parser_ok_def arg_execs_def)
  then show "keeps b (execute_expression run e)" by (intro keeps_execute_expression(1)) auto
next
  fix e assume "e \<in> set (arg_substs a)"
  then show "keeps b (execute_expression run e)"
    by (intro keeps_execute_expression(1) assms(2)) (auto simp: arg_execs_def)
qed

lemma keeps_snapshot_block_var [keeps_intros]: "keeps b (snapshot_block_var ip x)"
  unfolding snapshot_block_var_def by (intro keeps_intros keeps_pure) auto

lemma keeps_snapshot_block_vars [keeps_intros]: "keeps b (snapshot_block_vars ip xs)"
  by (induction xs) (auto intro!: keeps_intros)

lemma keeps_then_pure:
  assumes "keeps b m" "\<And>s. pc_heap (g s) = pc_heap s" "\<And>s. pc_ok (g s) = pc_ok s"
  shows "keeps b (\<lambda>s. m (g s))"
proof (rule keepsI)
  fix s :: "'a pc"
  assume "pc_ok s"
  then show "heap_evolves (pc_heap s) (pc_heap (snd (m (g s))))" "pc_ok (snd (m (g s)))"
    "b \<Longrightarrow> fuel_result (fst (m (g s)))"
    using assms(1) [unfolded keeps_def, rule_format, of "g s"] assms(2,3) by auto
qed

lemma restore_var_level_entry_keeps [simp]:
  "pc_heap (restore_var_level_entry x l s) = pc_heap s" "pc_ok (restore_var_level_entry x l s) = pc_ok s"
  by (simp_all add: restore_var_level_entry_def)

lemma keeps_restore_block_vars [keeps_intros]: "keeps b (restore_block_vars ip ps)"
proof (induction ps)
  case (Cons p ps)
  then have "keeps b (\<lambda>s. restore_block_vars ip ps (restore_var_level_entry (snap_name p) (snap_level p) s))"
    by (rule keeps_then_pure) simp_all
  then show ?case by (auto intro!: keeps_intros split: option.split)
qed (simp add: keeps_intros)

lemma keeps_set_block_vars [keeps_intros]: "keeps b (set_block_vars ip bs)"
  by (induction ip bs rule: set_block_vars.induct) (auto intro!: keeps_intros)

lemma keeps_with_restore [keeps_intros]:
  assumes "keeps b m"
  shows "keeps b (with_restore messages ip ps m)"
proof (rule keepsI)
  fix s
  obtain r t where m: "m s = (r, t)" by fastforce
  assume s: "pc_ok s"
  obtain r' u where u: "restore_block_vars ip ps t = (r', u)" by fastforce
  have 1: "heap_evolves (pc_heap s) (pc_heap t)" "pc_ok t" "b \<Longrightarrow> fuel_result r"
    using assms m s by (auto simp: keeps_def dest!: spec [of _ s])
  have 2: "heap_evolves (pc_heap t) (pc_heap u)" "pc_ok u" "fuel_result r'"
    using keeps_restore_block_vars [of True ip ps] u 1(2) by (auto simp: keeps_def dest!: spec [of _ t])
  show "heap_evolves (pc_heap s) (pc_heap (snd (with_restore messages ip ps m s)))"
    "pc_ok (snd (with_restore messages ip ps m s))"
    "b \<Longrightarrow> fuel_result (fst (with_restore messages ip ps m s))"
    using 1 2 heap_evolves_trans [OF 1(1) 2(1)] m u
    by (auto simp: with_restore_def split: sum.split prod.split)
qed

lemma keeps_with_bindings [keeps_intros]: "keeps b m \<Longrightarrow> keeps b (with_bindings messages ip bs m)"
  unfolding with_bindings_def by (intro keeps_intros)

lemma keeps_execute_for_iteration [keeps_intros]:
  "keeps b body \<Longrightarrow> keeps b (execute_for_iteration ip k v body key value)"
  unfolding execute_for_iteration_def by (auto intro!: keeps_intros split: option.split)

lemma keeps_loop_value_of: "(\<And>xs. lv = FreshSet xs \<Longrightarrow> distinct xs) \<Longrightarrow> keeps b (loop_value_of lv)"
  unfolding loop_value_of_def by (auto intro!: keeps_intros split: loop_value.split)

definition items_ok :: "(TypedValue \<times> loop_value) list \<Rightarrow> bool" where
  "items_ok items = (\<forall>k xs. (k, FreshSet xs) \<in> set items \<longrightarrow> distinct xs)"

lemma keeps_traverse_items:
  assumes "items_ok items" "\<And>k v. keeps b (iter k v)"
  shows "keeps b (traverse_items iter st items)"
  using assms(1)
proof (induction items arbitrary: st)
  case (Cons i items)
  obtain k lv where i: "i = (k, lv)" by fastforce
  have "keeps b (loop_value_of lv)" "items_ok items"
    using Cons.prems i by (auto simp: items_ok_def intro!: keeps_loop_value_of)
  then show ?case using Cons.IH assms(2) by (auto simp: i Let_def intro!: keeps_intros split: prod.split)
qed (simp add: keeps_intros)

lemma heap_evolves_traversing:
  assumes "heap_evolves (begin_traverse a h) h'"
  shows "heap_evolves h (end_traverse a h')"
proof -
  have len: "length h \<le> length h'" using assms by (simp add: heap_evolves_def begin_traverse_def)
  have "traversals (end_traverse a h' ! c) = traversals (h ! c) \<and>
        (traversals (h ! c) > 0 \<longrightarrow> end_traverse a h' ! c = h ! c)" if c: "c < length h" for c
  proof (cases "c = a")
    case True
    have "h' ! a = (h ! a)\<lparr> traversals := traversals (h ! a) + 1 \<rparr>"
      using assms c True by (auto simp: heap_evolves_def begin_traverse_def dest!: spec [of _ a])
    then show ?thesis using True c len by (simp add: end_traverse_def)
  next
    case False
    then show ?thesis
      using assms c by (auto simp: heap_evolves_def begin_traverse_def end_traverse_def dest!: spec [of _ c])
  qed
  then show ?thesis using len by (simp add: heap_evolves_def end_traverse_def)
qed

lemma heap_ok_traverse [simp]: "heap_ok (begin_traverse a h) = heap_ok h" "heap_ok (end_traverse a h) = heap_ok h"
proof -
  have "heap_ok (h[a := (h ! a)\<lparr> traversals := f (h ! a) \<rparr>]) = heap_ok h" for f
    by (cases "a < length h") (auto simp: heap_ok_def list_all_length nth_list_update)
  then show "heap_ok (begin_traverse a h) = heap_ok h" "heap_ok (end_traverse a h) = heap_ok h"
    by (simp_all add: begin_traverse_def end_traverse_def)
qed

lemma keeps_traversing [keeps_intros]:
  assumes "keeps b m"
  shows "keeps b (traversing a m)"
proof (rule keepsI)
  fix s :: "'a pc"
  let ?s = "s\<lparr> pc_heap := begin_traverse a (pc_heap s) \<rparr>"
  obtain r t where m: "m ?s = (r, t)" by fastforce
  assume "pc_ok s"
  then have "pc_ok ?s" by (simp add: pc_ok_def hook_envs_def)
  then have 1: "heap_evolves (begin_traverse a (pc_heap s)) (pc_heap t)" "pc_ok t" "b \<Longrightarrow> fuel_result r"
    using assms m by (auto simp: keeps_def dest!: spec [of _ ?s])
  show "heap_evolves (pc_heap s) (pc_heap (snd (traversing a m s)))"
    using heap_evolves_traversing [OF 1(1)] m by (simp add: traversing_def)
  show "pc_ok (snd (traversing a m s))" "b \<Longrightarrow> fuel_result (fst (traversing a m s))"
    using 1(2,3) m by (auto simp: traversing_def pc_ok_def hook_envs_def)
qed

lemma loop_items_ok:
  assumes "heap_ok h" "loop_items hv v h = Inr (a, items)"
  shows "items_ok items"
proof (cases v)
  case (MultiMap x)
  then obtain m t where m: "fetch_multimap h x = Some (m, t)" "items = multimap_items hv m"
    using assms(2) by (auto simp: loop_items_def split: option.splits)
  then have "data_ok (MultiMapData m)"
    using heap_ok_nth [OF assms(1), of x] by (auto simp: fetch_Somes)
  then show ?thesis using m(2) by (auto simp: items_ok_def multimap_items_def split: if_splits)
qed (use assms(2) in \<open>auto simp: loop_items_def items_ok_def list_items_def set_items_def map_items_def
        split: option.splits if_splits\<close>)

lemma keeps_execute_for_statement:
  assumes "parser_ok (ip_parse_arg ip)" "\<And>x. x \<in> set (arg_execs it) \<Longrightarrow> keeps b (run x)" "keeps b body"
  shows "keeps b (execute_for_statement ip run k v it body)"
proof -
  let ?iter = "execute_for_iteration ip k v body"
  let ?loop = "\<lambda>i s. case loop_items (v \<noteq> None) i (pc_heap s) of
      Inl e \<Rightarrow> (Inl e, s)
    | Inr (a, items) \<Rightarrow> bind (traversing a (traverse_items ?iter new_traverse_state items))
                           (\<lambda>st. ret (finalize_for_traverse_state st)) s"
  have "keeps b (?loop i)" for i
  proof (rule keeps_pointwise [where m = "\<lambda>s. case loop_items (v \<noteq> None) i (pc_heap s) of
      Inl e \<Rightarrow> fail e
    | Inr (a, items) \<Rightarrow> bind (traversing a (traverse_items ?iter new_traverse_state items))
                           (\<lambda>st. ret (finalize_for_traverse_state st))"])
    fix s :: "'a pc"
    assume ok: "pc_ok s"
    have err: "\<not> out_of_fuel e" if "loop_items (v \<noteq> None) i (pc_heap s) = Inl e" for e
      using that by (auto simp: loop_items_def split: TypedValue.splits option.splits)
    have "items_ok items" if "loop_items (v \<noteq> None) i (pc_heap s) = Inr (a, items)" for a items
      using loop_items_ok [OF _ that] ok by (simp add: pc_ok_def)
    then show "keeps b (case loop_items (v \<noteq> None) i (pc_heap s) of
      Inl e \<Rightarrow> fail e
    | Inr (a, items) \<Rightarrow> bind (traversing a (traverse_items ?iter new_traverse_state items))
                           (\<lambda>st. ret (finalize_for_traverse_state st)))"
      using err assms(3) by (auto intro!: keeps_intros keeps_traverse_items split: sum.split)
  qed (auto split: sum.split)
  then show ?thesis
    unfolding execute_for_statement_def for_loop_def
    by (intro keeps_intros keeps_eval_arg assms(1,2)) auto
qed

lemma keeps_execute_line_any:
  "parser_ok (ip_parse_arg ip) \<Longrightarrow> (\<And>x. keeps b (run x)) \<Longrightarrow> keeps b (execute_line ip run l)"
  "parser_ok (ip_parse_arg ip) \<Longrightarrow> (\<And>x. keeps b (run x)) \<Longrightarrow> keeps b (execute_statement ip run t)"
proof (induction ip run l and ip run t rule: execute_line_execute_statement.induct)
  case (6 ip run e ok er ct)
  then show ?case
    by (auto intro!: keeps_intros keeps_execute_expression keeps_until_control split: option.split CommandResult.split)
qed (auto simp: Let_def intro!: keeps_intros keeps_until_control keeps_first_branch keeps_execute_expression
      keeps_execute_for_statement keeps_eval_arg split: option.split)

section \<open>Execution depends on the dispatch only through the commands it contains\<close>

definition agree :: "(Executor \<Rightarrow> 'w exec) \<Rightarrow> (Executor \<Rightarrow> 'w exec) \<Rightarrow> Executor list \<Rightarrow> bool" where
  "agree run run' xs = list_all (\<lambda>x. run x = run' x) xs"

lemma agree_simps [simp]:
  "agree run run' []"
  "agree run run' (x # xs) = (run x = run' x \<and> agree run run' xs)"
  "agree run run' (xs @ ys) = (agree run run' xs \<and> agree run run' ys)"
  "agree run run' (concat xss) = list_all (agree run run') xss"
  by (auto simp: agree_def list_all_iff)

lemma bind_same: "m = m' \<Longrightarrow> (\<And>x. f x = f' x) \<Longrightarrow> bind m f = bind m' f'"
  by presburger

lemma execute_expression_dispatch:
  "agree run run' (expr_execs e) \<Longrightarrow> execute_expression run e = execute_expression run' e"
  "agree run run' (chain_execs es) \<Longrightarrow> execute_expression_chain run nc r es = execute_expression_chain run' nc r es"
proof (induction run e and run nc r es rule: execute_expression_execute_expression_chain.induct)
  case (4 run nc r pre e post es)
  then show ?case by (simp add: chain_execs_def cong: if_cong)
qed (auto simp: execute_command_def chain_execs_def split: option.split)

lemma evaluate_dispatch:
  "list_all (\<lambda>e. subst e = subst' e) (arg_substs a) \<Longrightarrow> evaluate vs evalv subst a = evaluate vs evalv subst' a"
  "list_all (\<lambda>a. list_all (\<lambda>e. subst e = subst' e) (arg_substs a)) as \<Longrightarrow>
    push_items vs evalv subst adr as = push_items vs evalv subst' adr as"
  "list_all (\<lambda>(k, a). list_all (\<lambda>e. subst e = subst' e) (arg_substs a)) es \<Longrightarrow>
    insert_entries vs evalv subst adr es = insert_entries vs evalv subst' adr es"
proof (induction vs evalv subst a and vs evalv subst adr as and vs evalv subst adr es
    rule: evaluate_push_items_insert_entries.induct)
  case (5 vs evalv subst entries)
  have "list_all (\<lambda>(k, a). list_all (\<lambda>e. subst e = subst' e) (arg_substs a)) entries"
    using "5.prems" by (fastforce simp: list_all_iff)
  then show ?case using "5.IH" by simp
qed (auto simp: list_all_iff)

lemma evaluate_var_expression_dispatch:
  assumes "\<And>src rest a e. pa src = Some (rest, a) \<Longrightarrow> e \<in> set (arg_substs a) \<Longrightarrow> subst e = subst' e"
  shows "evaluate_var_expression vs pa subst n v = evaluate_var_expression vs pa subst' n v"
proof (induction n arbitrary: v)
  case (Suc n)
  have IH: "evaluate_var_expression vs pa subst n = evaluate_var_expression vs pa subst' n"
    using Suc by blast
  have "evaluate vs ev subst a = evaluate vs ev subst' a" if "pa src = Some (rest, a)" for ev src rest a
    by (rule evaluate_dispatch(1)) (use assms that in \<open>auto simp: list_all_iff\<close>)
  then have d: "evaluate_default_expression vs pa subst ev w = evaluate_default_expression vs pa subst' ev w" for ev w
    unfolding evaluate_default_expression_def
    by (simp add: Let_def del: evaluate.simps split: option.split CommandArg.split)
  show ?case by (simp only: evaluate_var_expression.simps IH d)
qed simp

lemma eval_arg_dispatch:
  assumes "parser_ok (ip_parse_arg ip)" "agree run run' (arg_execs a)"
  shows "eval_arg ip run a = eval_arg ip run' a"
proof -
  have expr: "execute_expression run e = execute_expression run' e"
    if "e \<in> set (arg_substs a)" "agree run run' (arg_execs a)" for a e
    by (rule execute_expression_dispatch(1)) (use that in \<open>auto simp: arg_execs_def list_all_iff\<close>)
  have v: "evaluate_var_expression (ip_visitors ip) (ip_parse_arg ip) (execute_expression run) n v =
      evaluate_var_expression (ip_visitors ip) (ip_parse_arg ip) (execute_expression run') n v" for n v
    by (rule evaluate_var_expression_dispatch, rule expr) (use assms(1) in \<open>auto simp: parser_ok_def\<close>)
  show ?thesis
    unfolding eval_arg_def evaluate_arg_def v
    by (rule evaluate_dispatch(1)) (use expr assms(2) in \<open>auto simp: list_all_iff\<close>)
qed

lemma lines_dispatch:
  assumes "list_all (\<lambda>l. agree run run' (line_execs l)) ls"
    "\<And>l. l \<in> set ls \<Longrightarrow> agree run run' (line_execs l) \<Longrightarrow> execute_line ip run l = execute_line ip run' l"
  shows "until_control (execute_line ip run) r ls = until_control (execute_line ip run') r ls"
  using assms by (intro until_control_cong) (auto simp: list_all_iff)

lemma execute_line_dispatch:
  "parser_ok (ip_parse_arg ip) \<Longrightarrow> agree run run' (line_execs l) \<Longrightarrow> execute_line ip run l = execute_line ip run' l"
  "parser_ok (ip_parse_arg ip) \<Longrightarrow> agree run run' (stmt_execs t) \<Longrightarrow>
    execute_statement ip run t = execute_statement ip run' t"
proof (induction ip run l and ip run t rule: execute_line_execute_statement.induct)
  case (1 ip run src sts)
  then show ?case by (auto intro!: until_control_cong simp: list_all_iff)
next
  case (2 ip run es)
  then show ?case by (auto intro!: execute_expression_dispatch(2))
next
  case (3 ip run bs els)
  then show ?case
    by (auto intro!: first_branch_cong execute_expression_dispatch(2) lines_dispatch split: option.split
        simp: list_all_iff)
next
  case (4 ip run sub bnd bs els)
  let ?branches = "\<lambda>run. first_branch
    (execute_expression_chain run (Some ''Control action is not allowed in case condition'') success)
    (until_control (execute_line ip run) success)
    (case els of Some ls \<Rightarrow> until_control (execute_line ip run) success ls | None \<Rightarrow> ret success) bs"
  have "?branches run = ?branches run'"
    using 4 by (auto intro!: first_branch_cong execute_expression_dispatch(2) lines_dispatch split: option.split
        simp: list_all_iff)
  moreover have "eval_arg ip run a = eval_arg ip run' a" if "sub = Some a" for a
    by (rule eval_arg_dispatch) (use 4 that in auto)
  ultimately show ?case by (auto simp: Let_def split: option.split)
next
  case (5 ip run k v it ls)
  have "until_control (execute_line ip run) success ls = until_control (execute_line ip run') success ls"
    by (rule lines_dispatch) (use 5 in \<open>auto simp: list_all_iff\<close>)
  moreover have "eval_arg ip run it = eval_arg ip run' it" by (rule eval_arg_dispatch) (use 5 in auto)
  ultimately show ?case by (simp add: execute_for_statement_def for_loop_def)
next
  case (6 ip run e ok er ct)
  have "execute_expression run e = execute_expression run' e"
    by (rule execute_expression_dispatch(1)) (use 6 in auto)
  moreover have "until_control (execute_line ip run) success ls = until_control (execute_line ip run') success ls"
    if "ok = Some (x, ls)" for x ls
    by (rule lines_dispatch) (use that 6 in \<open>auto simp: list_all_iff\<close>)
  moreover have "until_control (execute_line ip run) success ls = until_control (execute_line ip run') success ls"
    if "er = Some (x, ls)" for x ls
    by (rule lines_dispatch) (use that 6 in \<open>auto simp: list_all_iff\<close>)
  moreover have "until_control (execute_line ip run) success ls = until_control (execute_line ip run') success ls"
    if "ct = Some (x, y, z, ls)" for x y z ls
    by (rule lines_dispatch) (use that 6 in \<open>auto simp: list_all_iff\<close>)
  ultimately show ?case
    by (auto intro!: bind_same split: option.split CommandResult.split)
qed

lemma keeps_execute_line:
  assumes "parser_ok (ip_parse_arg ip)" "\<And>x. x \<in> set (line_execs l) \<Longrightarrow> keeps b (run x)"
  shows "keeps b (execute_line ip run l)"
proof -
  let ?run = "\<lambda>x. if x \<in> set (line_execs l) then run x else ret success"
  have "agree run ?run (line_execs l)" by (simp add: agree_def list_all_iff)
  then have *: "execute_line ip run l = execute_line ip ?run l" by (rule execute_line_dispatch(1) [OF assms(1)])
  show ?thesis
    unfolding * by (rule keeps_execute_line_any(1) [OF assms(1)]) (use assms(2) in \<open>simp add: keeps_intros\<close>)
qed

lemma execute_block_dispatch:
  assumes "parser_ok (ip_parse_arg ip)" "agree run run' (block_execs bk)"
  shows "execute_block ip run bk = execute_block ip run' bk"
  unfolding execute_block_def using assms
  by (auto intro!: until_control_cong arg_cong [where f = "wrap _"] execute_line_dispatch(1)
      simp: block_execs_def list_all_iff)

lemma keeps_execute_block:
  assumes "parser_ok (ip_parse_arg ip)" "\<And>x. x \<in> set (block_execs bk) \<Longrightarrow> keeps b (run x)"
  shows "keeps b (execute_block ip run bk)"
  unfolding execute_block_def using assms
  by (intro keeps_until_control keeps_intros keeps_execute_line) (auto simp: block_execs_def)

section \<open>Scoped variables are restored\<close>

definition block_binding :: "'w pc \<Rightarrow> string \<rightharpoonup> TypedValue" where
  "block_binding s = om_get (env_values (block_env s))"

definition snapshot_of :: "'w pc \<Rightarrow> string \<Rightarrow> LoopVarSnapshot" where
  "snapshot_of s x = \<lparr> snap_name = x, snap_value = block_binding s x, snap_level = tracker s x \<rparr>"

lemma root_of_simple [simp]: "is_simple_root_key x \<Longrightarrow> root_of x = x"
  by (simp add: root_of_def)

lemma snapshot_block_var_plain:
  assumes "is_simple_root_key x" "plain_env (block_env s)"
  shows "snapshot_block_var ip x s = (Inr (snapshot_of s x), s)"
proof (cases "om_get (env_values (block_env s)) x")
  case None
  then show ?thesis using assms
    by (simp add: snapshot_block_var_def env_contains_def snapshot_of_def block_binding_def plain_env_def
        has_external_def var_level_entry_def bind_def ret_def)
next
  case (Some v)
  have "get_var (ip_visitors ip) x (Some Block) s = (Inr (Some v), s)"
    using assms Some plain_values_get [OF assms(2), of "ip_visitors ip" x s]
    by (simp add: get_var_def resolve_level_def env_get_def bind_def ret_def)
  then show ?thesis using assms Some
    by (simp add: snapshot_block_var_def env_contains_def snapshot_of_def block_binding_def
        var_level_entry_def bind_def)
qed

lemma snapshot_block_vars_plain:
  assumes "list_all is_simple_root_key xs" "plain_env (block_env s)"
  shows "snapshot_block_vars ip xs s = (Inr (map (snapshot_of s) xs), s)"
  using assms by (induction xs) (simp_all add: snapshot_block_var_plain bind_def ret_def)

text \<open>The state \<open>t\<close> with the block binding and the tracked level of the names \<open>xs\<close> as in \<open>s\<close>.\<close>

definition restored :: "string list \<Rightarrow> 'w pc \<Rightarrow> 'w pc \<Rightarrow> 'w pc \<Rightarrow> bool" where
  "restored xs s t t' \<longleftrightarrow>
     block_binding t' = override_on (block_binding t) (block_binding s) (set xs) \<and>
     tracker t' = override_on (tracker t) (tracker s) (set xs) \<and>
     env_external (block_env t') = env_external (block_env t) \<and>
     t'\<lparr> block_env := block_env t, tracker := tracker t \<rparr> = t"

lemma restore_one:
  assumes x: "is_simple_root_key x" and s: "plain_env (block_env s)" and t: "plain_env (block_env t)"
  obtains t' where "restore_block_vars ip (snapshot_of s x # ps) t = restore_block_vars ip ps t'"
    "restored [x] s t t'" "plain_env (block_env t')"
proof (cases "block_binding s x")
  case None
  let ?e = "(block_env t)\<lparr> env_values := om_remove x (env_values (block_env t)) \<rparr>"
  let ?t = "t\<lparr> block_env := (if block_binding t x = None then block_env t else ?e), tracker := (tracker t)(x := tracker s x) \<rparr>"
  have e: "env_external (block_env t) = []" using t by (simp add: plain_env_def)
  show ?thesis
  proof
    show "restore_block_vars ip (snapshot_of s x # ps) t = restore_block_vars ip ps ?t"
      using None x e
      by (auto simp: snapshot_of_def remove_var_def resolve_level_def env_remove_def has_external_def block_binding_def
          restore_var_level_entry_def bind_def Let_def split: option.split)
    show "restored [x] s t ?t"
      using None by (auto simp: restored_def block_binding_def om_get_remove_upd override_on_def)
    show "plain_env (block_env ?t)" using t plain_env_remove by auto
  qed
next
  case (Some v)
  let ?e = "(block_env t)\<lparr> env_values := om_insert x v (env_values (block_env t)) \<rparr>"
  let ?t = "t\<lparr> block_env := ?e, tracker := (tracker t)(x := tracker s x) \<rparr>"
  have e: "env_external (block_env t) = []" using t by (simp add: plain_env_def)
  have v: "\<not> is_visitor v" using plain_get_not_visitor [OF s] Some by (simp add: block_binding_def)
  show ?thesis
  proof
    have tr: "(tracker (track x l u))(x := y) = (tracker u)(x := y)" for l u y
      by (auto simp: track_def change_var_level_for_root_def Let_def split: option.split)
    have set: "set_var (ip_visitors ip) x v (Some Block) t =
        (Inr (om_get (env_values (block_env t)) x), track x Block (t\<lparr> block_env := ?e \<rparr>))"
      using x e plain_values_insert [of Block t "ip_visitors ip" x v] t
      by (simp add: set_var_def set_simple_root_at_level_def resolve_level_def env_set_def has_external_def bind_def Let_def)
    obtain f where f: "track x Block (t\<lparr> block_env := ?e \<rparr>) = t\<lparr> block_env := ?e, tracker := f \<rparr>"
      using track_eq [of x Block "t\<lparr> block_env := ?e \<rparr>"] by auto
    have "f(x := tracker s x) = (tracker t)(x := tracker s x)"
      using tr [of Block "t\<lparr> block_env := ?e \<rparr>" "tracker s x"] f by simp
    then have "restore_var_level_entry x (tracker s x) (track x Block (t\<lparr> block_env := ?e \<rparr>)) = ?t"
      using x by (simp add: restore_var_level_entry_def f)
    then show "restore_block_vars ip (snapshot_of s x # ps) t = restore_block_vars ip ps ?t"
      using Some set by (simp add: snapshot_of_def bind_def)
    show "restored [x] s t ?t"
      using Some by (auto simp: restored_def block_binding_def om_get_insert_upd override_on_def)
    show "plain_env (block_env ?t)" using plain_env_insert [OF t v] by simp
  qed
qed

lemma restored_trans:
  assumes "restored [x] s t u" "restored xs s u w"
  shows "restored (x # xs) s t w"
proof -
  have "(w\<lparr> block_env := block_env u, tracker := tracker u \<rparr>)\<lparr> block_env := block_env t, tracker := tracker t \<rparr> = t"
    using assms by (simp only: restored_def)
  then show ?thesis using assms by (simp add: restored_def override_on_def fun_eq_iff)
qed

lemma restore_block_vars_plain:
  assumes "list_all is_simple_root_key xs" "plain_env (block_env s)" "plain_env (block_env t)"
  shows "\<exists>t'. restore_block_vars ip (map (snapshot_of s) xs) t = (Inr (), t') \<and> restored xs s t t'"
  using assms(1,3)
proof (induction xs arbitrary: t)
  case Nil
  then show ?case by (auto simp: restored_def ret_def)
next
  case (Cons x xs)
  obtain u where u: "restore_block_vars ip (snapshot_of s x # map (snapshot_of s) xs) t =
      restore_block_vars ip (map (snapshot_of s) xs) u" "restored [x] s t u" "plain_env (block_env u)"
    using restore_one [of x s t] Cons.prems assms(2) by (metis list.pred_inject(2))
  then show ?case using Cons.IH [of u] Cons.prems restored_trans [OF u(2)] by auto
qed
section \<open>Properties\<close>

text \<open>C13. A for statement restores the variables it binds: whatever the loop does (finish, break, return, fail),
after it the loop names have the block binding and the tracked level they had before the statement, every other
variable and the rest of the state is as the loop left it, the restoration never fails, and the result is
that of the loop, with an error wrapped once.\<close>

theorem for_statement_restores_loop_variables:
  assumes "list_all is_simple_root_key (loop_names key_var value_var)" "plain_env (block_env s)"
    "for_loop ip run key_var value_var iterable body s = (r, t)" "plain_env (block_env t)"
  shows "\<exists>t'. execute_for_statement ip run key_var value_var iterable body s =
      (case r of Inl e \<Rightarrow> Inl (Runtime ''Failed to execute for statement'' e) | Inr c \<Rightarrow> Inr c, t') \<and>
    restored (loop_names key_var value_var) s t t'"
proof -
  obtain t' where "restore_block_vars ip (map (snapshot_of s) (loop_names key_var value_var)) t = (Inr (), t')"
    "restored (loop_names key_var value_var) s t t'"
    using restore_block_vars_plain assms(1,2,4) by blast
  then show ?thesis
    using assms(1-3)
    by (auto simp: execute_for_statement_def snapshot_block_vars_plain with_restore_def for_messages_def bind_def
        split: sum.split)
qed

definition sample_interp :: "unit interp" where
  "sample_interp = \<lparr> ip_visitors = no_visitors, ip_parse_arg = (\<lambda>_. None), ip_fmt_float = (\<lambda>_. []) \<rparr>"

definition sample_block_pc :: "unit pc" where
  "sample_block_pc = sample_pc\<lparr> block_env := \<lparr> env_values = [(''k'', Bool True)], env_external = [] \<rparr> \<rparr>"

definition sample_loop :: "(pc_error + CommandResult) \<times> unit pc" where
  "sample_loop = for_loop sample_interp (\<lambda>x. ret success) ''k'' None (ListLiteral [Literal ''a'']) (ret success)
     sample_block_pc"

theorem for_statement_restores_loop_variables_witness:
  "fst (execute_for_statement sample_interp (\<lambda>x. ret success) ''k'' None (ListLiteral [Literal ''a'']) (ret success)
     sample_block_pc) = Inr success \<and>
   block_binding (snd sample_loop) ''k'' = Some (String ''a'') \<and>
   block_binding (snd (execute_for_statement sample_interp (\<lambda>x. ret success) ''k'' None
     (ListLiteral [Literal ''a'']) (ret success) sample_block_pc)) ''k'' = Some (Bool True)"
proof -
  have "fst sample_loop = Inr success" by code_simp
  then obtain t where l: "sample_loop = (Inr success, t)" by (metis prod.collapse)
  have 1: "list_all is_simple_root_key (loop_names ''k'' None)" by code_simp
  have 2: "plain_env (block_env sample_block_pc)" "block_binding sample_block_pc ''k'' = Some (Bool True)" by code_simp+
  have 3: "plain_env (block_env (snd sample_loop))" "block_binding (snd sample_loop) ''k'' = Some (String ''a'')"
    by code_simp+
  have t: "plain_env (block_env t)" using 3(1) unfolding l by simp
  obtain t' where "execute_for_statement sample_interp (\<lambda>x. ret success) ''k'' None (ListLiteral [Literal ''a''])
      (ret success) sample_block_pc = (Inr success, t')" "restored [''k''] sample_block_pc t t'"
    using for_statement_restores_loop_variables [OF 1 2(1) l [unfolded sample_loop_def] t]
    by (auto simp: loop_names_def)
  then show ?thesis using 2(2) 3(2) l by (simp add: restored_def)
qed

text \<open>C36. Chains short-circuit the whole rest of the line: when the first command of \<open>a && b || c\<close> fails, the
statement ends there with its error; neither \<open>b\<close> nor the alternative \<open>c\<close> runs.\<close>

theorem and_or_skips_the_alternative:
  assumes "execute_expression run a s = (Inr (Error v), t)"
  shows "execute_statement ip run (Expressions [(None, a, Some OpAnd), (None, b, Some OpOr), (None, c, None)]) s =
    (Inr (Error v), t)"
  using assms by (simp add: bind_def wrap_def ret_def apply_prefix_def stops_chain_def)

definition sample_run :: "Executor \<Rightarrow> unit exec" where
  "sample_run x = (case x of ActionCommand Reject \<Rightarrow> ret (Error Null) | _ \<Rightarrow> ret success)"

theorem and_or_skips_the_alternative_witness:
  "execute_statement sample_interp sample_run
     (Expressions [(None, Command ''a'' [] (Some (ActionCommand Reject)), Some OpAnd),
       (None, Command ''b'' [] (Some (ActionCommand Accept)), Some OpOr),
       (None, Command ''c'' [] (Some (ActionCommand Accept)), None)]) sample_block_pc = (Inr (Error Null), sample_block_pc)"
  by (rule and_or_skips_the_alternative) (simp add: execute_command_def sample_run_def wrap_def ret_def)

text \<open>A command substitution inside a list literal is never linked: the linker returns the literal unchanged,
so its evaluation fails in every state with \<open>Command not linked\<close>, whatever the command.\<close>

theorem literal_substitution_stays_unlinked:
  "link_arg lk (ListLiteral [CommandSubstitution (Command name args None)]) =
     Inr (ListLiteral [CommandSubstitution (Command name args None)]) \<and>
   (\<exists>t. eval_arg ip run (ListLiteral [CommandSubstitution (Command name args None)]) s =
     (Inl (Runtime ''Failed to execute command expression''
        (Runtime ''Command not linked'' (Failed ''Command not linked'' name))), t))"
  by (simp add: eval_arg_def evaluate_arg_def bind_def wrap_def fail_def execute_command_def alloc_op_def
      split: prod.split)

end
