(* ===== verification/Process_Chain.thy ===== *)
theory Process_Chain
  imports Block_Exec
begin

text \<open>Process chains, their libraries and managers (\<open>chain/chain.rs\<close>, \<open>chain/manager.rs\<close> of \<open>cyfs-process-chain\<close>),
the stack of execution pointers (\<open>chain/stack.rs\<close>) and the lookup of execution targets (\<open>chain/context.rs\<close>).

A library is one of the two implementations of the trait \<open>ProcessChainLib\<close>; they differ in \<open>get_chain\<close>. The stack is
a list with its top first. Its guards push on entry and pop on every way out, so it is an argument of what
runs below a guard rather than a part of the state. A panic is the error \<open>Panic\<close>; a panic inside the
arguments of a log statement happens only when the level is enabled, which the argument \<open>warns\<close> says.\<close>

section \<open>Chains and libraries\<close>

record ProcessChain =
  chain_id :: string
  chain_priority :: int
  chain_blocks :: "Block list"

definition get_block :: "ProcessChain \<Rightarrow> string \<Rightarrow> Block option" where
  "get_block c bid = find (\<lambda>b. block_id b = bid) (chain_blocks c)"

fun position :: "('a \<Rightarrow> bool) \<Rightarrow> 'a list \<Rightarrow> nat option" where
  "position P [] = None"
| "position P (x # xs) = (if P x then Some 0 else map_option Suc (position P xs))"

definition get_block_index :: "ProcessChain \<Rightarrow> string \<Rightarrow> nat option" where
  "get_block_index c bid = position (\<lambda>b. block_id b = bid) (chain_blocks c)"

definition add_block :: "Block \<Rightarrow> ProcessChain \<Rightarrow> (pc_error, ProcessChain) result" where
  "add_block b c =
     (if get_block c (block_id b) \<noteq> None then Inl (Failed ''Block already exists in the chain'' (block_id b))
      else Inr (c\<lparr> chain_blocks := chain_blocks c @ [b] \<rparr>))"

definition link_process_chain :: "linker \<Rightarrow> ProcessChain \<Rightarrow> (pc_error, ProcessChain) result" where
  "link_process_chain lk c =
     and_then (mapM (link_block lk) (chain_blocks c)) (\<lambda>bs. Inr (c\<lparr> chain_blocks := bs \<rparr>))"

datatype lib_kind = ListLib | ConstListLib

record ProcessChainLib =
  lib_kind :: lib_kind
  lib_id :: string
  lib_priority :: int
  lib_chains :: "ProcessChain list"

definition new_lib :: "lib_kind \<Rightarrow> string \<Rightarrow> int \<Rightarrow> ProcessChain list \<Rightarrow> ProcessChainLib" where
  "new_lib kind i priority cs =
     \<lparr> lib_kind = kind, lib_id = i, lib_priority = priority, lib_chains = sort_key chain_priority cs \<rparr>"

definition add_chain :: "ProcessChain \<Rightarrow> ProcessChainLib \<Rightarrow> (pc_error, ProcessChainLib) result" where
  "add_chain c lib =
     (if \<exists>c' \<in> set (lib_chains lib). chain_id c' = chain_id c
      then Inl (Failed ''Process chain already exists'' (chain_id c))
      else Inr (lib\<lparr> lib_chains := sort_key chain_priority (lib_chains lib @ [c]) \<rparr>))"

definition lib_get_chain :: "ProcessChainLib \<Rightarrow> string \<Rightarrow> (pc_error, ProcessChain option) result" where
  "lib_get_chain lib cid =
     (case find (\<lambda>c. chain_id c = cid) (lib_chains lib) of
        Some c \<Rightarrow> Inr (Some c)
      | None \<Rightarrow>
          (case lib_kind lib of
             ListLib \<Rightarrow> Inr None
           | ConstListLib \<Rightarrow> Inl (Failed ''Process chain not found'' cid)))"

definition get_chain_by_index :: "ProcessChainLib \<Rightarrow> nat \<Rightarrow> (pc_error, ProcessChain) result" where
  "get_chain_by_index lib i =
     (if i < length (lib_chains lib) then Inr (lib_chains lib ! i)
      else Inl (Failed ''Index out of bounds for process chain list'' (lib_id lib)))"

section \<open>Managers\<close>

type_synonym manager = "ProcessChainLib list"

definition add_lib :: "ProcessChainLib \<Rightarrow> manager \<Rightarrow> (pc_error, manager) result" where
  "add_lib lib libs =
     (if \<exists>l \<in> set libs. lib_id l = lib_id lib
      then Inl (Failed ''Process chain library already exists'' (lib_id lib))
      else Inr (sort_key lib_priority (libs @ [lib])))"

fun remove_lib :: "string \<Rightarrow> manager \<Rightarrow> ProcessChainLib option \<times> manager" where
  "remove_lib i [] = (None, [])"
| "remove_lib i (l # libs) =
     (if lib_id l = i then (Some l, libs) else (let (r, libs) = remove_lib i libs in (r, l # libs)))"

definition get_lib :: "manager \<Rightarrow> string \<Rightarrow> ProcessChainLib option" where
  "get_lib libs i = find (\<lambda>l. lib_id l = i) libs"

text \<open>\<open>clone_chains\<close> copies the chains by index; \<open>link\<close> links the copies and builds constant libraries.\<close>

definition clone_lib_chains :: "ProcessChainLib \<Rightarrow> (pc_error, ProcessChain list) result" where
  "clone_lib_chains lib = mapM (get_chain_by_index lib) [0..<length (lib_chains lib)]"

definition link_lib :: "linker \<Rightarrow> ProcessChainLib \<Rightarrow> (pc_error, ProcessChainLib) result" where
  "link_lib lk lib =
     and_then (clone_lib_chains lib) (\<lambda>cs.
       and_then (mapM (link_process_chain lk) cs) (\<lambda>linked.
         Inr (new_lib ConstListLib (lib_id lib) (lib_priority lib) linked)))"

definition link_manager :: "linker \<Rightarrow> manager \<Rightarrow> (pc_error, manager) result" where
  "link_manager lk libs = mapM (link_lib lk) libs"

fun first_lib_with_chain ::
    "manager \<Rightarrow> string \<Rightarrow> (ProcessChain \<Rightarrow> bool) \<Rightarrow> (pc_error, (ProcessChainLib \<times> ProcessChain) option) result" where
  "first_lib_with_chain [] cid P = Inr None"
| "first_lib_with_chain (l # libs) cid P =
     (case lib_get_chain l cid of
        Inl e \<Rightarrow> Inl e
      | Inr (Some c) \<Rightarrow> if P c then Inr (Some (l, c)) else first_lib_with_chain libs cid P
      | Inr None \<Rightarrow> first_lib_with_chain libs cid P)"

definition linked_get_chain ::
    "manager \<Rightarrow> string option \<Rightarrow> string \<Rightarrow> (pc_error, (ProcessChainLib \<times> ProcessChain) option) result" where
  "linked_get_chain libs lib cid =
     (case lib of
        Some i \<Rightarrow>
          (case get_lib libs i of
             Some l \<Rightarrow>
               (case lib_get_chain l cid of
                  Inl e \<Rightarrow> Inl e
                | Inr (Some c) \<Rightarrow> Inr (Some (l, c))
                | Inr None \<Rightarrow> Inr None)
           | None \<Rightarrow> Inr None)
      | None \<Rightarrow> first_lib_with_chain libs cid (\<lambda>_. True))"

definition linked_get_block ::
    "manager \<Rightarrow> string option \<Rightarrow> string \<Rightarrow> string \<Rightarrow>
     (pc_error, (ProcessChainLib \<times> ProcessChain) option) result" where
  "linked_get_block libs lib cid bid =
     (case lib of
        Some i \<Rightarrow>
          (case get_lib libs i of
             Some l \<Rightarrow>
               (case lib_get_chain l cid of
                  Inl e \<Rightarrow> Inl e
                | Inr (Some c) \<Rightarrow> Inr (if get_block c bid \<noteq> None then Some (l, c) else None)
                | Inr None \<Rightarrow> Inr None)
           | None \<Rightarrow> Inr None)
      | None \<Rightarrow> first_lib_with_chain libs cid (\<lambda>c. get_block c bid \<noteq> None))"

section \<open>Execution pointers\<close>

datatype ExecPointerInner = PLib ProcessChainLib | PChain ProcessChain | PBlock string

type_synonym exec_stack = "ExecPointerInner list"

definition MAX_STACK_DEPTH :: nat where
  "MAX_STACK_DEPTH = 64"

definition enter :: "ExecPointerInner \<Rightarrow> exec_stack \<Rightarrow> (exec_stack \<Rightarrow> ('s, 'a) op) \<Rightarrow> ('s, 'a) op" where
  "enter p stk body =
     (if MAX_STACK_DEPTH \<le> length stk then fail (StackDepthExceeded (length stk)) else body (p # stk))"

fun current_lib :: "exec_stack \<Rightarrow> ProcessChainLib option" where
  "current_lib [] = None"
| "current_lib (PLib l # stk) = Some l"
| "current_lib (_ # stk) = current_lib stk"

fun current_chain :: "exec_stack \<Rightarrow> ProcessChain option" where
  "current_chain [] = None"
| "current_chain (PChain c # stk) = Some c"
| "current_chain (_ # stk) = current_chain stk"

fun current_block :: "exec_stack \<Rightarrow> string option" where
  "current_block [] = None"
| "current_block (PBlock b # stk) = Some b"
| "current_block (_ # stk) = current_block stk"

section \<open>Lookup of execution targets\<close>

record SearchResult =
  sr_lib :: ProcessChainLib
  same_lib :: bool
  sr_chain :: "ProcessChain option"
  same_chain :: bool

definition found :: "ProcessChainLib \<Rightarrow> bool \<Rightarrow> ProcessChain option \<Rightarrow> bool \<Rightarrow> SearchResult option" where
  "found l sl c sc = Some \<lparr> sr_lib = l, same_lib = sl, sr_chain = c, same_chain = sc \<rparr>"

definition search_lib :: "manager \<Rightarrow> exec_stack \<Rightarrow> string \<Rightarrow> SearchResult option" where
  "search_lib libs stk i =
     (case current_lib stk of
        Some l \<Rightarrow>
          if lib_id l = i then found l True None False
          else (case get_lib libs i of Some l \<Rightarrow> found l False None False | None \<Rightarrow> None)
      | None \<Rightarrow> (case get_lib libs i of Some l \<Rightarrow> found l False None False | None \<Rightarrow> None))"

text \<open>The end of both searches: the manager's answer, and for a miss the warning that unwraps the library name.\<close>

definition search_manager ::
    "bool \<Rightarrow> string option \<Rightarrow> (pc_error, (ProcessChainLib \<times> ProcessChain) option) result \<Rightarrow>
     (pc_error, SearchResult option) result" where
  "search_manager warns lib r =
     (case r of
        Inl e \<Rightarrow> Inl e
      | Inr (Some (l, c)) \<Rightarrow> Inr (found l False (Some c) False)
      | Inr None \<Rightarrow>
          if warns \<and> lib = None then Inl (Panic ''called `Option::unwrap()` on a `None` value'') else Inr None)"

definition in_scope :: "string option \<Rightarrow> string \<Rightarrow> bool" where
  "in_scope wanted actual = (case wanted of None \<Rightarrow> True | Some w \<Rightarrow> actual = w)"

definition search_chain ::
    "bool \<Rightarrow> manager \<Rightarrow> exec_stack \<Rightarrow> string option \<Rightarrow> string \<Rightarrow> (pc_error, SearchResult option) result" where
  "search_chain warns libs stk lib cid =
     (let global = search_manager warns lib (linked_get_chain libs lib cid) in
      case current_lib stk of
        Some l \<Rightarrow>
          if in_scope lib (lib_id l) then
            (let in_lib =
               (case lib_get_chain l cid of
                  Inl e \<Rightarrow> Inl e
                | Inr (Some c) \<Rightarrow> Inr (found l True (Some c) False)
                | Inr None \<Rightarrow> if lib \<noteq> None then Inr None else global)
             in case current_chain stk of
                  Some c \<Rightarrow> if chain_id c = cid then Inr (found l True (Some c) True) else in_lib
                | None \<Rightarrow> in_lib)
          else global
      | None \<Rightarrow> global)"

definition search_block ::
    "bool \<Rightarrow> manager \<Rightarrow> exec_stack \<Rightarrow> string option \<Rightarrow> string option \<Rightarrow> string \<Rightarrow>
     (pc_error, SearchResult option) result" where
  "search_block warns libs stk lib chain bid =
     (let global =
        (case chain of
           None \<Rightarrow> Inr None
         | Some cid \<Rightarrow> search_manager warns lib (linked_get_block libs lib cid bid)) in
      case current_lib stk of
        Some l \<Rightarrow>
          if in_scope lib (lib_id l) then
            (let in_lib =
               (case chain of
                  None \<Rightarrow> global
                | Some cid \<Rightarrow>
                    (case lib_get_chain l cid of
                       Inl e \<Rightarrow> Inl e
                     | Inr (Some c) \<Rightarrow>
                         if get_block c bid \<noteq> None then Inr (found l True (Some c) False)
                         else if lib \<noteq> None then Inr None else global
                     | Inr None \<Rightarrow> if lib \<noteq> None then Inr None else global))
             in case current_chain stk of
                  Some c \<Rightarrow>
                    if in_scope chain (chain_id c) then
                      (if get_block c bid \<noteq> None then Inr (found l True (Some c) True)
                       else if chain = None then Inr None else in_lib)
                    else in_lib
                | None \<Rightarrow> if chain = None then Inr None else in_lib)
          else global
      | None \<Rightarrow> global)"

section \<open>What the lookups return\<close>

lemma find_in: "find P xs = Some x \<Longrightarrow> x \<in> set xs \<and> P x"
  by (auto simp: find_Some_iff)

lemma get_block_in: "get_block c bid = Some b \<Longrightarrow> b \<in> set (chain_blocks c) \<and> block_id b = bid"
  unfolding get_block_def by (drule find_in) simp

lemma lib_get_chain_in: "lib_get_chain l cid = Inr (Some c) \<Longrightarrow> c \<in> set (lib_chains l) \<and> chain_id c = cid"
  unfolding lib_get_chain_def by (auto split: option.splits lib_kind.splits dest!: find_in)

lemma get_lib_in: "get_lib libs i = Some l \<Longrightarrow> l \<in> set libs \<and> lib_id l = i"
  unfolding get_lib_def by (drule find_in) simp

lemma first_lib_with_chain_in:
  "first_lib_with_chain libs cid P = Inr (Some (l, c)) \<Longrightarrow> l \<in> set libs \<and> c \<in> set (lib_chains l) \<and> P c"
  by (induction libs) (auto split: sum.splits option.splits if_splits dest!: lib_get_chain_in)

lemma linked_get_chain_in:
  "linked_get_chain libs lib cid = Inr (Some (l, c)) \<Longrightarrow> l \<in> set libs \<and> c \<in> set (lib_chains l)"
  by (auto simp: linked_get_chain_def split: option.splits sum.splits
      dest!: first_lib_with_chain_in lib_get_chain_in get_lib_in)

lemma linked_get_block_in:
  "linked_get_block libs lib cid bid = Inr (Some (l, c)) \<Longrightarrow>
   l \<in> set libs \<and> c \<in> set (lib_chains l) \<and> get_block c bid \<noteq> None"
  by (auto simp: linked_get_block_def split: option.splits sum.splits if_splits
      dest!: first_lib_with_chain_in lib_get_chain_in get_lib_in)

lemma current_lib_in: "current_lib stk = Some l \<Longrightarrow> PLib l \<in> set stk"
  by (induction stk rule: current_lib.induct) auto

lemma current_chain_in: "current_chain stk = Some c \<Longrightarrow> PChain c \<in> set stk"
  by (induction stk rule: current_chain.induct) auto

text \<open>A found library is on the stack or in the manager; a found chain is on the stack or in the found library;
a search never runs out of fuel.\<close>

definition reachable_lib :: "manager \<Rightarrow> exec_stack \<Rightarrow> ProcessChainLib \<Rightarrow> bool" where
  "reachable_lib libs stk l = (l \<in> set libs \<or> PLib l \<in> set stk)"

definition reachable_result :: "manager \<Rightarrow> exec_stack \<Rightarrow> SearchResult \<Rightarrow> bool" where
  "reachable_result libs stk sr = (reachable_lib libs stk (sr_lib sr) \<and>
     (\<forall>c. sr_chain sr = Some c \<longrightarrow> PChain c \<in> set stk \<or> c \<in> set (lib_chains (sr_lib sr))))"

lemma search_lib_reachable: "search_lib libs stk i = Some sr \<Longrightarrow> reachable_result libs stk sr"
  by (auto simp: search_lib_def found_def reachable_result_def reachable_lib_def split: option.splits if_splits
      dest!: current_lib_in get_lib_in)

lemma search_chain_reachable:
  "search_chain w libs stk lib cid = Inr (Some sr) \<Longrightarrow> reachable_result libs stk sr"
  by (auto simp: search_chain_def search_manager_def found_def reachable_result_def reachable_lib_def Let_def
      split: option.splits if_splits sum.splits
      dest!: current_lib_in current_chain_in lib_get_chain_in linked_get_chain_in)

lemma search_block_reachable:
  "search_block w libs stk lib chain bid = Inr (Some sr) \<Longrightarrow> reachable_result libs stk sr"
  by (auto simp: search_block_def search_manager_def found_def reachable_result_def reachable_lib_def Let_def
      split: option.splits if_splits sum.splits
      dest!: current_lib_in current_chain_in lib_get_chain_in linked_get_block_in)

lemma lib_get_chain_fuel: "lib_get_chain l cid = Inl e \<Longrightarrow> \<not> out_of_fuel e"
  by (auto simp: lib_get_chain_def split: option.splits lib_kind.splits)

lemma first_lib_with_chain_fuel: "first_lib_with_chain libs cid P = Inl e \<Longrightarrow> \<not> out_of_fuel e"
  by (induction libs) (auto split: sum.splits option.splits if_splits dest: lib_get_chain_fuel)

lemma search_fuel:
  "search_chain w libs stk lib cid = Inl e \<Longrightarrow> \<not> out_of_fuel e"
  "search_block w libs stk lib chain bid = Inl e \<Longrightarrow> \<not> out_of_fuel e"
  by (auto simp: search_chain_def search_block_def search_manager_def linked_get_chain_def linked_get_block_def
      Let_def split: option.splits if_splits sum.splits
      dest: lib_get_chain_fuel first_lib_with_chain_fuel)

section \<open>Managers keep their order\<close>

definition lib_ok :: "ProcessChainLib \<Rightarrow> bool" where
  "lib_ok l = (distinct (map chain_id (lib_chains l)) \<and> sorted (map chain_priority (lib_chains l)))"

definition manager_ok :: "manager \<Rightarrow> bool" where
  "manager_ok libs = (distinct (map lib_id libs) \<and> sorted (map lib_priority libs) \<and> list_all lib_ok libs)"

text \<open>The libraries and managers that the public operations build.\<close>

inductive built_lib :: "ProcessChainLib \<Rightarrow> bool" where
  built_new: "distinct (map chain_id cs) \<Longrightarrow> built_lib (new_lib kind i priority cs)"
| built_chain: "built_lib l \<Longrightarrow> add_chain c l = Inr l' \<Longrightarrow> built_lib l'"

inductive built :: "manager \<Rightarrow> bool" where
  built_empty: "built []"
| built_add: "built libs \<Longrightarrow> built_lib l \<Longrightarrow> add_lib l libs = Inr libs' \<Longrightarrow> built libs'"
| built_remove: "built libs \<Longrightarrow> built (snd (remove_lib i libs))"

lemma distinct_sort_key: "distinct (map f (sort_key k xs)) = distinct (map f xs)"
  by (simp add: distinct_map)

lemma built_lib_ok: "built_lib l \<Longrightarrow> lib_ok l"
proof (induction rule: built_lib.induct)
  case (built_chain l c l')
  then have "distinct (map chain_id (lib_chains l @ [c]))" by (auto simp: lib_ok_def add_chain_def split: if_splits)
  then show ?case using built_chain.hyps
    by (auto simp: lib_ok_def add_chain_def distinct_sort_key split: if_splits simp del: map_append)
qed (simp add: new_lib_def lib_ok_def distinct_sort_key)

lemma remove_lib_filter: "distinct (map lib_id libs) \<Longrightarrow> snd (remove_lib i libs) = filter (\<lambda>l. lib_id l \<noteq> i) libs"
proof (induction libs)
  case (Cons l libs)
  have "filter (\<lambda>l'. lib_id l' \<noteq> lib_id l) libs = libs" using Cons.prems by (intro filter_True) (auto simp: image_iff)
  then show ?case using Cons by (auto simp: split_beta Let_def)
qed simp

lemma built_manager_ok: "built libs \<Longrightarrow> manager_ok libs"
proof (induction rule: built.induct)
  case (built_add libs l libs')
  then have "distinct (map lib_id (libs @ [l]))" "lib_ok l"
    by (auto simp: manager_ok_def add_lib_def built_lib_ok split: if_splits)
  then show ?case using built_add.IH built_add.hyps(3)
    by (auto simp: manager_ok_def add_lib_def distinct_sort_key list_all_iff split: if_splits simp del: map_append)
next
  case (built_remove libs i)
  then show ?case
    by (auto simp: manager_ok_def remove_lib_filter list_all_iff distinct_map_filter sorted_filter)
qed (simp add: manager_ok_def)

lemma link_process_chain_Inr:
  assumes "link_process_chain lk c = Inr c'"
  shows "chain_id c' = chain_id c" "chain_priority c' = chain_priority c"
    "list_all2 (\<lambda>b b'. link_block lk b = Inr b') (chain_blocks c) (chain_blocks c')"
  using assms by (auto simp: link_process_chain_def and_then_Inr_iff mapM_Inr_list_all2)

lemma mapM_nth: "mapM (get_chain_by_index l) [0..<length (lib_chains l)] = Inr (lib_chains l)"
proof -
  have "list_all2 (\<lambda>i c. get_chain_by_index l i = Inr c) [0..<length (lib_chains l)] (lib_chains l)"
    by (auto simp: list_all2_conv_all_nth get_chain_by_index_def)
  then show ?thesis by (simp add: mapM_Inr_list_all2)
qed

lemma link_lib_Inr:
  assumes "link_lib lk l = Inr l'" "lib_ok l"
  shows "lib_id l' = lib_id l" "lib_priority l' = lib_priority l" "lib_kind l' = ConstListLib" "lib_ok l'"
    "list_all2 (\<lambda>c c'. link_process_chain lk c = Inr c') (lib_chains l) (lib_chains l')"
proof -
  obtain cs where cs: "mapM (link_process_chain lk) (lib_chains l) = Inr cs"
    and l': "l' = new_lib ConstListLib (lib_id l) (lib_priority l) cs"
    using assms(1) by (auto simp: link_lib_def clone_lib_chains_def mapM_nth and_then_Inr_iff)
  have all: "list_all2 (\<lambda>c c'. link_process_chain lk c = Inr c') (lib_chains l) cs"
    using cs by (simp add: mapM_Inr_list_all2)
  then have "map chain_id cs = map chain_id (lib_chains l)" "map chain_priority cs = map chain_priority (lib_chains l)"
    by (induction rule: list_all2_induct) (auto dest: link_process_chain_Inr)
  then have "lib_chains l' = cs" "lib_ok l'"
    using assms(2) l' by (simp_all add: new_lib_def lib_ok_def sort_key_id_if_sorted)
  then show "lib_id l' = lib_id l" "lib_priority l' = lib_priority l" "lib_kind l' = ConstListLib" "lib_ok l'"
    "list_all2 (\<lambda>c c'. link_process_chain lk c = Inr c') (lib_chains l) (lib_chains l')"
    using l' all by (simp_all add: new_lib_def)
qed

section \<open>Properties\<close>


definition sample_manager :: manager where
  "sample_manager = [new_lib ListLib ''lib'' 0 [\<lparr> chain_id = ''c'', chain_priority = 0, chain_blocks = [sample_block] \<rparr>]]"


end
