(* ===== verification/Commands.thy ===== *)
theory Commands
  imports Process_Chain
begin

text \<open>The commands that run other code or change variables (\<open>cmd/exec.rs\<close>, \<open>cmd/control.rs\<close>, \<open>cmd/var.rs\<close>,
\<open>cmd/action.rs\<close>, \<open>cmd/external.rs\<close> of \<open>cyfs-process-chain\<close>), the execution of blocks, chains and libraries
(\<open>chain/exec.rs\<close>), and the interpreter they form together.

The functions of the first sections take the dispatch of commands as the argument \<open>run\<close>, a function of the
stack of execution pointers and the executor. \<open>run_command\<close> closes the recursion with fuel; section
\<open>Enough fuel\<close> shows how much is enough for every script.\<close>

section \<open>Chains and libraries\<close>

record 'w machine =
  m_interp :: "'w interp"
  m_manager :: manager
  m_warns :: bool
  m_external :: "string \<Rightarrow> TypedValue list \<Rightarrow> CommandArg list \<Rightarrow> 'w exec"

type_synonym 'w dispatch = "exec_stack \<Rightarrow> Executor \<Rightarrow> 'w exec"

definition in_block :: "'w exec \<Rightarrow> 'w exec" where
  "in_block m s = (let (r, t) = m (fork_block s) in (r, leave_block s t))"

definition in_chain :: "'w exec \<Rightarrow> 'w exec" where
  "in_chain m s = (let (r, t) = m (fork_chain s) in (r, leave_chain s t))"

definition run_block :: "'w machine \<Rightarrow> 'w dispatch \<Rightarrow> exec_stack \<Rightarrow> Block \<Rightarrow> 'w exec" where
  "run_block M run stk b =
     enter (PBlock (block_id b)) stk (\<lambda>stk. in_block (execute_block (m_interp M) (run stk) b))"

definition chain_execute_block :: "'w machine \<Rightarrow> 'w dispatch \<Rightarrow> exec_stack \<Rightarrow> ProcessChain \<Rightarrow> string \<Rightarrow> 'w exec" where
  "chain_execute_block M run stk c bid =
     (case get_block c bid of
        None \<Rightarrow> fail (Failed ''Block not found in chain'' bid)
      | Some b \<Rightarrow> run_block M run stk b)"

text \<open>Whether a chain goes on after the result of a block, and a library after the result of a chain.\<close>

fun leaves_chain :: "CommandResult \<Rightarrow> bool" where
  "leaves_chain (Control (Return l v)) = (l \<noteq> CtlBlock)"
| "leaves_chain (Control (ErrorReturn l v)) = (l \<noteq> CtlBlock)"
| "leaves_chain (Control (Exit v)) = True"
| "leaves_chain _ = False"

fun leaves_lib :: "CommandResult \<Rightarrow> bool" where
  "leaves_lib (Control (Return l v)) = (l = CtlLib)"
| "leaves_lib (Control (ErrorReturn l v)) = (l = CtlLib)"
| "leaves_lib (Control (Exit v)) = True"
| "leaves_lib _ = False"

fun is_break :: "CommandResult \<Rightarrow> bool" where
  "is_break (Control (Break v)) = True"
| "is_break _ = False"

fun run_blocks :: "'w machine \<Rightarrow> 'w dispatch \<Rightarrow> exec_stack \<Rightarrow> CommandResult \<Rightarrow> Block list \<Rightarrow> 'w exec" where
  "run_blocks M run stk result [] = ret result"
| "run_blocks M run stk result (b # bs) =
     bind (run_block M run stk b) (\<lambda>r.
       if is_break r then fail (Failed ''break action only valid in map-reduce loop'' (block_id b))
       else if leaves_chain r then ret r
       else run_blocks M run stk r bs)"

definition execute_chain :: "'w machine \<Rightarrow> 'w dispatch \<Rightarrow> exec_stack \<Rightarrow> ProcessChain \<Rightarrow> 'w exec" where
  "execute_chain M run stk c =
     (if chain_blocks c = [] then ret success
      else enter (PChain c) stk (\<lambda>stk. run_blocks M run stk success (chain_blocks c)))"

fun run_chains :: "'w machine \<Rightarrow> 'w dispatch \<Rightarrow> exec_stack \<Rightarrow> CommandResult \<Rightarrow> ProcessChain list \<Rightarrow> 'w exec" where
  "run_chains M run stk result [] = ret result"
| "run_chains M run stk result (c # cs) =
     bind (execute_chain M run stk c) (\<lambda>r. if leaves_lib r then ret r else run_chains M run stk r cs)"

definition execute_lib :: "'w machine \<Rightarrow> 'w dispatch \<Rightarrow> exec_stack \<Rightarrow> ProcessChainLib \<Rightarrow> 'w exec" where
  "execute_lib M run stk lib = enter (PLib lib) stk (\<lambda>stk. run_chains M run stk success (lib_chains lib))"

text \<open>\<open>ProcessChainLibExecutor::execute_chain\<close>: one chain of a library by its name.\<close>

definition lib_execute_chain :: "'w machine \<Rightarrow> 'w dispatch \<Rightarrow> exec_stack \<Rightarrow> ProcessChainLib \<Rightarrow> string \<Rightarrow> 'w exec" where
  "lib_execute_chain M run stk lib cid =
     (case lib_get_chain lib cid of
        Inl e \<Rightarrow> fail e
      | Inr None \<Rightarrow> fail (Failed ''Process chain not found in lib'' cid)
      | Inr (Some c) \<Rightarrow> enter (PLib lib) stk (\<lambda>stk. execute_chain M run stk c))"

text \<open>\<open>Context::new\<close> for the executor of a library: empty environments below the hook-point environment.\<close>

definition new_context :: "heap \<Rightarrow> 'w \<Rightarrow> 'w env option \<Rightarrow> 'w pc" where
  "new_context h w hook = \<lparr> pc_heap = h, pc_world = w, hook_env = hook, global_env = new_env,
     chain_env = new_env, block_env = new_env, tracker = Map.empty, policy = default_policy \<rparr>"

definition fork_executor :: "'w pc \<Rightarrow> 'w pc" where
  "fork_executor s = (new_context (pc_heap s) (pc_world s) (hook_env s))\<lparr> policy := policy s \<rparr>"

section \<open>Execution targets\<close>

record ExecTarget =
  tg_lib :: "string option"
  tg_chain :: "string option"
  tg_block :: "string option"

definition parse_target :: "ExecScope \<Rightarrow> string \<Rightarrow> (pc_error, ExecTarget) result" where
  "parse_target scope target =
     (case (scope, split_on CHR '':'' target) of
        (ScopeBlock, [b]) \<Rightarrow> Inr \<lparr> tg_lib = None, tg_chain = None, tg_block = Some b \<rparr>
      | (ScopeBlock, [c, b]) \<Rightarrow> Inr \<lparr> tg_lib = None, tg_chain = Some c, tg_block = Some b \<rparr>
      | (ScopeBlock, [l, c, b]) \<Rightarrow> Inr \<lparr> tg_lib = Some l, tg_chain = Some c, tg_block = Some b \<rparr>
      | (ScopeBlock, _) \<Rightarrow> Inl (Failed ''Invalid block ID format'' target)
      | (ScopeChain, [c]) \<Rightarrow> Inr \<lparr> tg_lib = None, tg_chain = Some c, tg_block = None \<rparr>
      | (ScopeChain, [l, c]) \<Rightarrow> Inr \<lparr> tg_lib = Some l, tg_chain = Some c, tg_block = None \<rparr>
      | (ScopeChain, _) \<Rightarrow> Inl (Failed ''Invalid chain ID format'' target)
      | (ScopeLib, [l]) \<Rightarrow> Inr \<lparr> tg_lib = Some l, tg_chain = None, tg_block = None \<rparr>
      | (ScopeLib, _) \<Rightarrow> Inl (Failed ''Invalid lib ID format'' target))"

definition normalize_exec_result :: "string \<Rightarrow> string \<Rightarrow> CommandResult \<Rightarrow> (pc_error, CommandResult) result" where
  "normalize_exec_result name target r =
     (case r of
        Control (Return l v) \<Rightarrow> Inr (Success v)
      | Control (ErrorReturn l v) \<Rightarrow> Inr (Error v)
      | Control (Exit v) \<Rightarrow> Inl (Failed (''Exit control action is not allowed in '' @ name) target)
      | Control (Break v) \<Rightarrow> Inl (Failed (''break action only valid in map-reduce loop, found in '' @ name) target)
      | _ \<Rightarrow> Inr r)"

definition enter_unless ::
    "bool \<Rightarrow> ExecPointerInner \<Rightarrow> exec_stack \<Rightarrow> (exec_stack \<Rightarrow> 'w exec) \<Rightarrow> 'w exec" where
  "enter_unless same p stk body = (if same then body stk else enter p stk body)"

text \<open>\<open>Option::unwrap\<close> and \<open>assert!\<close>.\<close>

definition unwrap :: "'a option \<Rightarrow> ('a \<Rightarrow> 'w exec) \<Rightarrow> 'w exec" where
  "unwrap x f =
     (case x of None \<Rightarrow> fail (Panic ''called `Option::unwrap()` on a `None` value'') | Some y \<Rightarrow> f y)"

definition assert_that :: "bool \<Rightarrow> string \<Rightarrow> 'w exec \<Rightarrow> 'w exec" where
  "assert_that c msg m = (if c then m else fail (Panic msg))"

definition on_found ::
    "(pc_error, SearchResult option) result \<Rightarrow> string \<Rightarrow> string \<Rightarrow> (SearchResult \<Rightarrow> 'w exec) \<Rightarrow> 'w exec" where
  "on_found r what target f =
     (case r of
        Inl e \<Rightarrow> fail e
      | Inr None \<Rightarrow> fail (Failed (what @ '' not found'') target)
      | Inr (Some sr) \<Rightarrow> f sr)"

section \<open>exec\<close>

definition exec_target_block ::
    "'w machine \<Rightarrow> 'w dispatch \<Rightarrow> exec_stack \<Rightarrow> string \<Rightarrow> ExecTarget \<Rightarrow> 'w exec" where
  "exec_target_block M run stk tid tg =
     unwrap (tg_block tg) (\<lambda>bid.
       on_found (search_block (m_warns M) (m_manager M) stk (tg_lib tg) (tg_chain tg) bid) ''Block'' tid (\<lambda>sr.
         enter_unless (same_lib sr) (PLib (sr_lib sr)) stk (\<lambda>stk.
           assert_that (same_chain sr \<longrightarrow> same_lib sr) ''Chain must be in the same library if same_chain is true''
             (unwrap (sr_chain sr) (\<lambda>c.
               enter_unless (same_chain sr) (PChain c) stk (\<lambda>stk.
                 if same_chain sr then chain_execute_block M run stk c bid
                 else in_chain (chain_execute_block M run stk c bid)))))))"

definition exec_target_chain ::
    "'w machine \<Rightarrow> 'w dispatch \<Rightarrow> exec_stack \<Rightarrow> string \<Rightarrow> ExecTarget \<Rightarrow> 'w exec" where
  "exec_target_chain M run stk tid tg =
     unwrap (tg_chain tg) (\<lambda>cid.
       on_found (search_chain (m_warns M) (m_manager M) stk (tg_lib tg) cid) ''Chain'' tid (\<lambda>sr.
         enter_unless (same_lib sr) (PLib (sr_lib sr)) stk (\<lambda>stk.
           unwrap (sr_chain sr) (\<lambda>c. in_chain (execute_chain M run stk c)))))"

definition exec_target_lib ::
    "'w machine \<Rightarrow> 'w dispatch \<Rightarrow> exec_stack \<Rightarrow> string \<Rightarrow> ExecTarget \<Rightarrow> 'w exec" where
  "exec_target_lib M run stk tid tg =
     unwrap (tg_lib tg) (\<lambda>i.
       on_found (Inr (search_lib (m_manager M) stk i)) ''Process chain library'' tid (\<lambda>sr.
         in_chain (execute_lib M run stk (sr_lib sr))))"

definition eval_string :: "'w machine \<Rightarrow> (Executor \<Rightarrow> 'w exec) \<Rightarrow> CommandArg \<Rightarrow> ('w pc, string) op" where
  "eval_string M run a = evaluate_string (ip_fmt_float (m_interp M)) (ip_visitors (m_interp M))
     (ip_parse_arg (m_interp M)) (execute_expression run) a"

definition exec_exec :: "'w machine \<Rightarrow> 'w dispatch \<Rightarrow> exec_stack \<Rightarrow> ExecScope \<Rightarrow> CommandArg \<Rightarrow> 'w exec" where
  "exec_exec M run stk scope target =
     bind (eval_string M (run stk) target) (\<lambda>tid.
       case parse_target scope tid of
         Inl e \<Rightarrow> fail (Runtime ''Failed to parse exec target'' e)
       | Inr tg \<Rightarrow>
           bind (case scope of
                   ScopeBlock \<Rightarrow> exec_target_block M run stk tid tg
                 | ScopeChain \<Rightarrow> exec_target_chain M run stk tid tg
                 | ScopeLib \<Rightarrow> exec_target_lib M run stk tid tg)
                (\<lambda>r s. (normalize_exec_result ''exec'' tid r, s)))"

section \<open>invoke and goto\<close>

fun insert_args ::
    "'w machine \<Rightarrow> (Executor \<Rightarrow> 'w exec) \<Rightarrow> addr \<Rightarrow> (string \<times> CommandArg) list \<Rightarrow> ('w pc, unit) op" where
  "insert_args M run a [] = ret ()"
| "insert_args M run a ((key, arg) # args) =
     bind (eval_arg (m_interp M) run arg) (\<lambda>v.
       bind (pc_map_insert (ip_visitors (m_interp M)) a key v) (\<lambda>_. insert_args M run a args))"

definition build_args_map ::
    "'w machine \<Rightarrow> (Executor \<Rightarrow> 'w exec) \<Rightarrow> (string \<times> CommandArg) list \<Rightarrow> ('w pc, addr) op" where
  "build_args_map M run args =
     bind (alloc_op (MapData [])) (\<lambda>a. bind (insert_args M run a args) (\<lambda>_. ret a))"

text \<open>Run a callee in a forked chain whose variable \<open>__args\<close> is the map.\<close>

definition with_args :: "'w machine \<Rightarrow> addr \<Rightarrow> 'w exec \<Rightarrow> 'w exec" where
  "with_args M a m =
     in_chain (bind (set_var (ip_visitors (m_interp M)) ''__args'' (Map a) (Some Chain)) (\<lambda>_. m))"

definition invoke_target_block ::
    "'w machine \<Rightarrow> 'w dispatch \<Rightarrow> exec_stack \<Rightarrow> string \<Rightarrow> ExecTarget \<Rightarrow> addr \<Rightarrow> 'w exec" where
  "invoke_target_block M run stk tid tg a =
     unwrap (tg_block tg) (\<lambda>bid.
       on_found (search_block (m_warns M) (m_manager M) stk (tg_lib tg) (tg_chain tg) bid) ''Block'' tid (\<lambda>sr.
         enter_unless (same_lib sr) (PLib (sr_lib sr)) stk (\<lambda>stk.
           assert_that (same_chain sr \<longrightarrow> same_lib sr) ''Chain must be in the same library if same_chain is true''
             (assert_that (\<not> same_chain sr \<longrightarrow> \<not> same_lib sr)
                ''Chain must not be in the same library if same_chain is false''
               (unwrap (sr_chain sr) (\<lambda>c.
                 enter_unless (same_chain sr) (PChain c) stk (\<lambda>stk.
                   with_args M a (chain_execute_block M run stk c bid))))))))"

definition invoke_target_chain ::
    "'w machine \<Rightarrow> 'w dispatch \<Rightarrow> exec_stack \<Rightarrow> string \<Rightarrow> ExecTarget \<Rightarrow> addr \<Rightarrow> 'w exec" where
  "invoke_target_chain M run stk tid tg a =
     unwrap (tg_chain tg) (\<lambda>cid.
       on_found (search_chain (m_warns M) (m_manager M) stk (tg_lib tg) cid) ''Chain'' tid (\<lambda>sr.
         enter_unless (same_lib sr) (PLib (sr_lib sr)) stk (\<lambda>stk.
           unwrap (sr_chain sr) (\<lambda>c. with_args M a (execute_chain M run stk c)))))"

definition invoke_target_lib ::
    "'w machine \<Rightarrow> 'w dispatch \<Rightarrow> exec_stack \<Rightarrow> string \<Rightarrow> ExecTarget \<Rightarrow> addr \<Rightarrow> 'w exec" where
  "invoke_target_lib M run stk tid tg a =
     unwrap (tg_lib tg) (\<lambda>i.
       on_found (Inr (search_lib (m_manager M) stk i)) ''Process chain library'' tid (\<lambda>sr.
         with_args M a (execute_lib M run stk (sr_lib sr))))"

definition exec_invoke ::
    "'w machine \<Rightarrow> 'w dispatch \<Rightarrow> exec_stack \<Rightarrow> ExecScope \<Rightarrow> CommandArg \<Rightarrow> (string \<times> CommandArg) list \<Rightarrow> 'w exec" where
  "exec_invoke M run stk scope target args =
     bind (eval_string M (run stk) target) (\<lambda>tid.
       case parse_target scope tid of
         Inl e \<Rightarrow> fail (Runtime ''Failed to parse invoke target'' e)
       | Inr tg \<Rightarrow>
           bind (build_args_map M (run stk) args) (\<lambda>a.
             bind (case scope of
                     ScopeBlock \<Rightarrow> invoke_target_block M run stk tid tg a
                   | ScopeChain \<Rightarrow> invoke_target_chain M run stk tid tg a
                   | ScopeLib \<Rightarrow> invoke_target_lib M run stk tid tg a)
                  (\<lambda>r s. (normalize_exec_result ''invoke'' tid r, s))))"

definition exec_goto ::
    "'w machine \<Rightarrow> 'w dispatch \<Rightarrow> exec_stack \<Rightarrow> ExecScope \<Rightarrow> CommandArg \<Rightarrow> (string \<times> CommandArg) list \<Rightarrow>
     CommandControlLevel \<Rightarrow> CommandControlLevel \<Rightarrow> 'w exec" where
  "exec_goto M run stk scope target args ok_level err_level =
     bind (exec_invoke M run stk scope target args) (\<lambda>r.
       case r of
         Success v \<Rightarrow> ret (Control (Return ok_level v))
       | Error v \<Rightarrow> ret (Control (ErrorReturn err_level v))
       | Control c \<Rightarrow> fail (Failed ''Unexpected control result in goto target execution'' []))"

section \<open>The other commands\<close>

fun assign_level :: "AssignKind \<Rightarrow> EnvLevel" where
  "assign_level AssignBlock = Block"
| "assign_level AssignChain = Chain"
| "assign_level AssignGlobal = Global"

definition exec_assign ::
    "'w machine \<Rightarrow> (Executor \<Rightarrow> 'w exec) \<Rightarrow> AssignKind \<Rightarrow> string \<Rightarrow> CommandArg option \<Rightarrow> 'w exec" where
  "exec_assign M run kind key value =
     (case value of
        Some a \<Rightarrow>
          bind (eval_arg (m_interp M) run a) (\<lambda>v.
            bind (set_var (ip_visitors (m_interp M)) key v (Some (assign_level kind))) (\<lambda>_. ret (Success v)))
      | None \<Rightarrow> (\<lambda>s. (Inr success, change_var_level key (Some (assign_level kind)) s)))"

fun level_debug :: "EnvLevel option \<Rightarrow> string" where
  "level_debug None = ''None''"
| "level_debug (Some Global) = ''Some(Global)''"
| "level_debug (Some Chain) = ''Some(Chain)''"
| "level_debug (Some Block) = ''Some(Block)''"

definition exec_delete :: "'w machine \<Rightarrow> EnvLevel option \<Rightarrow> string \<Rightarrow> 'w exec" where
  "exec_delete M level var =
     bind (wrap (''Failed to delete variable '' @ var) (remove_var (ip_visitors (m_interp M)) var level)) (\<lambda>old.
       case old of
         Some v \<Rightarrow> ret (Success v)
       | None \<Rightarrow>
           ret (Error (String (''Variable '' @ [CHR 0x27] @ var @ [CHR 0x27] @ '' not found in scope '' @ level_debug level))))"

fun first_ok :: "(Executor \<Rightarrow> 'w exec) \<Rightarrow> CommandResult option \<Rightarrow> Expression list \<Rightarrow> 'w exec" where
  "first_ok run last_error [] = ret (case last_error of Some r \<Rightarrow> r | None \<Rightarrow> error_result)"
| "first_ok run last_error (e # es) =
     bind (execute_expression run e) (\<lambda>r.
       if is_success r \<or> is_control r then ret r else first_ok run (Some r) es)"

definition eval_value :: "'w machine \<Rightarrow> (Executor \<Rightarrow> 'w exec) \<Rightarrow> CommandArg option \<Rightarrow> ('w pc, TypedValue) op" where
  "eval_value M run value =
     (case value of Some a \<Rightarrow> eval_arg (m_interp M) run a | None \<Rightarrow> ret (String []))"

definition exec_external :: "'w machine \<Rightarrow> (Executor \<Rightarrow> 'w exec) \<Rightarrow> string \<Rightarrow> CommandArg list \<Rightarrow> 'w exec" where
  "exec_external M run name args =
     bind (wrap ''Failed to evaluate command arguments''
             (evaluate_list (ip_visitors (m_interp M)) (ip_parse_arg (m_interp M)) (execute_expression run) args))
       (\<lambda>vs. wrap ''Failed to execute external command'' (m_external M name vs args))"

fun exec_command :: "'w machine \<Rightarrow> 'w dispatch \<Rightarrow> exec_stack \<Rightarrow> Executor \<Rightarrow> 'w exec" where
  "exec_command M run stk (AssignCommand kind key value) = exec_assign M (run stk) kind key value"
| "exec_command M run stk (DeleteCommand level var) = exec_delete M level var"
| "exec_command M run stk (FirstOkCommand es) = first_ok (run stk) None es"
| "exec_command M run stk (ExecCommand scope target) = exec_exec M run stk scope target"
| "exec_command M run stk (InvokeCommand scope target args) = exec_invoke M run stk scope target args"
| "exec_command M run stk (GotoCommand scope target args ok_level err_level) =
     exec_goto M run stk scope target args ok_level err_level"
| "exec_command M run stk (ReturnCommand level value) =
     bind (eval_value M (run stk) value) (\<lambda>v. ret (Control (Return level v)))"
| "exec_command M run stk (ErrorCommand level value) =
     bind (eval_value M (run stk) value) (\<lambda>v. ret (Control (ErrorReturn level v)))"
| "exec_command M run stk (ExitCommand value) =
     bind (eval_value M (run stk) value) (\<lambda>v. ret (Control (Exit v)))"
| "exec_command M run stk (BreakCommand value) =
     bind (eval_value M (run stk) value) (\<lambda>v. ret (Control (Break v)))"
| "exec_command M run stk (ActionCommand a) = ret (action_result a)"
| "exec_command M run stk (ExternalCommand name args) = exec_external M (run stk) name args"

fun run_command :: "'w machine \<Rightarrow> nat \<Rightarrow> 'w dispatch" where
  "run_command M 0 stk x = fail OutOfFuel"
| "run_command M (Suc n) stk x = exec_command M (run_command M n) stk x"

section \<open>Weights\<close>

text \<open>The executors a command can run directly, and the largest size of a command in a chain, a library and a
manager.\<close>

definition opt_execs :: "CommandArg option \<Rightarrow> Executor list" where
  "opt_execs v = (case v of Some a \<Rightarrow> arg_execs a | None \<Rightarrow> [])"

fun sub_execs :: "Executor \<Rightarrow> Executor list" where
  "sub_execs (AssignCommand kind key v) = opt_execs v"
| "sub_execs (DeleteCommand level var) = []"
| "sub_execs (FirstOkCommand es) = concat (map expr_execs es)"
| "sub_execs (ExecCommand scope t) = arg_execs t"
| "sub_execs (InvokeCommand scope t args) = arg_execs t @ concat (map (\<lambda>(k, a). arg_execs a) args)"
| "sub_execs (GotoCommand scope t args ok er) = arg_execs t @ concat (map (\<lambda>(k, a). arg_execs a) args)"
| "sub_execs (ReturnCommand l v) = opt_execs v"
| "sub_execs (ErrorCommand l v) = opt_execs v"
| "sub_execs (ExitCommand v) = opt_execs v"
| "sub_execs (BreakCommand v) = opt_execs v"
| "sub_execs (ActionCommand a) = []"
| "sub_execs (ExternalCommand name args) = concat (map arg_execs args)"

lemma size_expr_execs: "x \<in> set (expr_execs e) \<Longrightarrow> size x < size e"
proof (induction e rule: expr_execs.induct)
  case (2 es)
  then obtain pre e post where p: "(pre, e, post) \<in> set es" "x \<in> set (expr_execs e)" by auto
  have "size x < size e" by (rule 2(1) [OF p(1) refl refl p(2)])
  also have "\<dots> \<le> size_list (size_prod (\<lambda>x. 0) (size_prod size (\<lambda>x. 0))) es"
    using p(1) by (intro size_list_estimation' [of "(pre, e, post)"]) auto
  finally show ?case by simp
qed (auto split: option.splits)

lemma size_arg_substs: "e \<in> set (arg_substs a) \<Longrightarrow> size e < size a"
proof (induction a rule: arg_substs.induct)
  case (2 items)
  then obtain a where a: "a \<in> set items" "e \<in> set (arg_substs a)" by auto
  then have "size e < size a" using 2(1) by blast
  also have "\<dots> \<le> size_list size items" using a(1) by (intro size_list_estimation') auto
  finally show ?case by simp
next
  case (3 entries)
  then obtain k a where a: "(k, a) \<in> set entries" "e \<in> set (arg_substs a)" by auto
  then have "size e < size a" using 3(1) by auto
  also have "\<dots> \<le> size_list (size_prod (\<lambda>x. 0) size) entries"
    using a(1) by (intro size_list_estimation' [of "(k, a)"]) auto
  finally show ?case by simp
qed auto

lemma size_arg_execs: "x \<in> set (arg_execs a) \<Longrightarrow> size x < size a"
  using size_arg_substs size_expr_execs by (fastforce simp: arg_execs_def)

lemma size_sub_execs: "x' \<in> set (sub_execs x) \<Longrightarrow> size x' < size x"
proof -
  have opt: "y \<in> set (opt_execs v) \<Longrightarrow> size y < size_option size v" for y and v :: "CommandArg option"
    by (cases v) (auto simp: opt_execs_def dest!: size_arg_execs)
  have exprs: "y \<in> set (concat (map expr_execs es)) \<Longrightarrow> size y < size_list size es" for y and es :: "Expression list"
    by (auto dest!: size_expr_execs intro: less_le_trans size_list_estimation')
  have args: "y \<in> set (concat (map arg_execs as)) \<Longrightarrow> size y < size_list size as" for y and as :: "CommandArg list"
    by (auto dest!: size_arg_execs intro: less_le_trans size_list_estimation')
  have named: "y \<in> set (concat (map (\<lambda>(k, a). arg_execs a) as)) \<Longrightarrow> size y < size_list (size_prod (\<lambda>x. 0) size) as"
    for y and as :: "(string \<times> CommandArg) list"
  proof -
    assume "y \<in> set (concat (map (\<lambda>(k, a). arg_execs a) as))"
    then obtain k a where a: "(k, a) \<in> set as" "y \<in> set (arg_execs a)" by auto
    have "size y < size a" using size_arg_execs a(2) .
    also have "\<dots> \<le> size_list (size_prod (\<lambda>x. 0) size) as"
      using a(1) by (intro size_list_estimation' [of "(k, a)"]) auto
    finally show ?thesis .
  qed
  show "x' \<in> set (sub_execs x) \<Longrightarrow> size x' < size x"
    by (cases x) (auto simp del: set_concat set_map dest!: opt exprs args named size_arg_execs)
qed

definition chain_weight :: "ProcessChain \<Rightarrow> nat" where
  "chain_weight c = foldr max (map size (concat (map block_execs (chain_blocks c)))) 0"

definition lib_weight :: "ProcessChainLib \<Rightarrow> nat" where
  "lib_weight l = foldr max (map chain_weight (lib_chains l)) 0"

definition manager_weight :: "manager \<Rightarrow> nat" where
  "manager_weight libs = foldr max (map lib_weight libs) 0"

lemma foldr_max_le: "foldr max ns 0 \<le> (d :: nat) \<longleftrightarrow> (\<forall>n \<in> set ns. n \<le> d)"
  by (induction ns) auto

section \<open>What the commands keep\<close>

lemma keeps_enter [keeps_intros]: "keeps b (body (p # stk)) \<Longrightarrow> keeps b (enter p stk body)"
  unfolding enter_def by (intro keeps_intros) auto

lemma keeps_enter_unless [keeps_intros]:
  "(\<And>stk'. keeps b (body stk')) \<Longrightarrow> keeps b (enter_unless same p stk body)"
  unfolding enter_unless_def by (intro keeps_intros) auto

lemma keeps_leave:
  assumes "keeps b m" "\<And>s. pc_ok s \<Longrightarrow> pc_ok (f s) \<and> pc_heap (f s) = pc_heap s"
    "\<And>s t. pc_ok s \<Longrightarrow> pc_ok t \<Longrightarrow> pc_ok (g s t) \<and> pc_heap (g s t) = pc_heap t"
  shows "keeps b (\<lambda>s. let (r, t) = m (f s) in (r, g s t))"
proof (rule keepsI)
  fix s
  obtain r t where m: "m (f s) = (r, t)" by fastforce
  assume s: "pc_ok s"
  have "heap_evolves (pc_heap s) (pc_heap t)" "pc_ok t" "b \<Longrightarrow> fuel_result r"
    using assms(1) assms(2) [OF s] m by (auto simp: keeps_def dest!: spec [of _ "f s"])
  then show "heap_evolves (pc_heap s) (pc_heap (snd (let (r, t) = m (f s) in (r, g s t))))"
    "pc_ok (snd (let (r, t) = m (f s) in (r, g s t)))" "b \<Longrightarrow> fuel_result (fst (let (r, t) = m (f s) in (r, g s t)))"
    using assms(3) [OF s] m by simp_all
qed

lemma keeps_in_block [keeps_intros]: "keeps b m \<Longrightarrow> keeps b (in_block m)"
  unfolding in_block_def
  by (erule keeps_leave)
     (auto simp: fork_block_def leave_block_def pc_ok_def new_env_def hook_envs_def om_wf_def)

lemma keeps_in_chain [keeps_intros]: "keeps b m \<Longrightarrow> keeps b (in_chain m)"
  unfolding in_chain_def
  by (erule keeps_leave)
     (auto simp: fork_chain_def leave_chain_def leave_block_def pc_ok_def new_env_def hook_envs_def om_wf_def)

lemma keeps_unwrap [keeps_intros]: "(\<And>y. keeps b (f y)) \<Longrightarrow> keeps b (unwrap x f)"
  by (auto simp: unwrap_def intro!: keeps_intros split: option.split)

lemma keeps_assert_that [keeps_intros]: "keeps b m \<Longrightarrow> keeps b (assert_that c msg m)"
  by (auto simp: assert_that_def intro!: keeps_intros)

lemma keeps_on_found:
  "(\<And>e. r = Inl e \<Longrightarrow> \<not> out_of_fuel e) \<Longrightarrow> (\<And>sr. keeps b (f sr)) \<Longrightarrow> keeps b (on_found r what tid f)"
  by (auto simp: on_found_def intro!: keeps_intros split: sum.split option.split)

lemma keeps_with_args [keeps_intros]: "keeps b m \<Longrightarrow> keeps b (with_args M a m)"
  unfolding with_args_def by (intro keeps_intros)

lemma keeps_normalize [keeps_intros]: "keeps b (\<lambda>s. (normalize_exec_result name tid r, s))"
  by (rule keeps_pure) (auto simp: normalize_exec_result_def split: CommandResult.split CommandControl.split)

lemma keeps_change_var_level [keeps_intros]: "keeps b (\<lambda>s. (Inr x, change_var_level key l s))"
  by (rule keeps_pure) (auto simp: change_var_level_def change_var_level_for_root_def pc_ok_def hook_envs_def Let_def
      split: option.split)

lemma parse_target_fuel: "parse_target scope tid = Inl e \<Longrightarrow> \<not> out_of_fuel e"
  by (auto simp: parse_target_def split: ExecScope.splits list.splits)

lemma coerce_to_string_fuel: "fuel_result (coerce_to_string fmt v p)"
  by (cases v) (auto split: CoercionPolicy.split)

text \<open>What the code relies on in the parameters: the argument parser, and external commands that keep the state.\<close>

definition machine_ok :: "bool \<Rightarrow> 'w machine \<Rightarrow> bool" where
  "machine_ok b M = (parser_ok (ip_parse_arg (m_interp M)) \<and>
     (\<forall>name vs args. keeps b (m_external M name vs args)))"

lemma keeps_arguments:
  assumes "machine_ok b M" "\<And>x. keeps b (run x)"
  shows "keeps b (eval_arg (m_interp M) run a)" "keeps b (eval_string M run a)" "keeps b (eval_value M run v)"
    "keeps b (evaluate_list (ip_visitors (m_interp M)) (ip_parse_arg (m_interp M)) (execute_expression run) as)"
    "keeps b (insert_args M run adr nas)" "keeps b (build_args_map M run nas)"
proof -
  show e: "keeps b (eval_arg (m_interp M) run a)" for a
    by (rule keeps_eval_arg) (use assms in \<open>auto simp: machine_ok_def\<close>)
  have "keeps b (\<lambda>s. (coerce_to_string (ip_fmt_float (m_interp M)) v (coercion (policy s)), s))" for v
    by (rule keeps_pure) (auto simp: coerce_to_string_fuel)
  then show "keeps b (eval_string M run a)"
    unfolding eval_string_def evaluate_string_def using e [of a] by (auto simp: eval_arg_def intro!: keeps_intros)
  show "keeps b (eval_value M run v)"
    by (auto simp: eval_value_def intro!: keeps_intros e split: option.split)
  show "keeps b (evaluate_list (ip_visitors (m_interp M)) (ip_parse_arg (m_interp M)) (execute_expression run) as)"
    using e by (induction as) (auto simp: eval_arg_def intro!: keeps_intros)
  show i: "keeps b (insert_args M run adr nas)" for adr
    using e by (induction nas) (auto intro!: keeps_intros)
  show "keeps b (build_args_map M run nas)"
    unfolding build_args_map_def by (intro keeps_intros i) (auto simp: om_wf_def)
qed

lemma keeps_execution:
  assumes "machine_ok b M" "\<And>stk x. keeps b (run stk x)"
  shows "keeps b (run_block M run stk bk)" "keeps b (chain_execute_block M run stk c bid)"
    "keeps b (run_blocks M run stk r bks)" "keeps b (execute_chain M run stk c)"
    "keeps b (run_chains M run stk r cs)" "keeps b (execute_lib M run stk l)"
proof -
  show block: "keeps b (run_block M run stk bk)" for stk bk
    unfolding run_block_def
    by (intro keeps_intros keeps_execute_block) (use assms in \<open>auto simp: machine_ok_def\<close>)
  show "keeps b (chain_execute_block M run stk c bid)"
    unfolding chain_execute_block_def by (auto intro!: keeps_intros block split: option.split)
  show blocks: "keeps b (run_blocks M run stk r bks)" for stk r bks
    by (induction bks arbitrary: r) (auto intro!: keeps_intros block)
  show chain: "keeps b (execute_chain M run stk c)" for stk c
    unfolding execute_chain_def by (intro keeps_intros blocks)
  show chains: "keeps b (run_chains M run stk r cs)" for stk r cs
    by (induction cs arbitrary: r) (auto intro!: keeps_intros chain)
  show "keeps b (execute_lib M run stk l)"
    unfolding execute_lib_def by (intro keeps_intros chains)
qed

lemma keeps_targets:
  assumes "machine_ok b M" "\<And>stk x. keeps b (run stk x)"
  shows "keeps b (exec_target_block M run stk tid tg)" "keeps b (exec_target_chain M run stk tid tg)"
    "keeps b (exec_target_lib M run stk tid tg)" "keeps b (invoke_target_block M run stk tid tg a)"
    "keeps b (invoke_target_chain M run stk tid tg a)" "keeps b (invoke_target_lib M run stk tid tg a)"
  unfolding exec_target_block_def exec_target_chain_def exec_target_lib_def
    invoke_target_block_def invoke_target_chain_def invoke_target_lib_def
  by (auto intro!: keeps_intros keeps_on_found keeps_execution [OF assms] dest: search_fuel)

lemma keeps_exec_invoke:
  assumes "machine_ok b M" "\<And>stk x. keeps b (run stk x)"
  shows "keeps b (exec_invoke M run stk scope target args)"
  unfolding exec_invoke_def
  by (auto intro!: keeps_intros keeps_arguments [OF assms(1)] keeps_targets [OF assms] assms(2)
      split: sum.split ExecScope.split) (metis parse_target_fuel)

lemma keeps_exec_command_any:
  assumes "machine_ok b M" "\<And>stk x. keeps b (run stk x)"
  shows "keeps b (exec_command M run stk x)"
proof (cases x)
  case (ExecCommand scope t)
  then show ?thesis
    by (auto simp: exec_exec_def intro!: keeps_intros keeps_arguments [OF assms(1)] keeps_targets [OF assms] assms(2)
        split: sum.split ExecScope.split) (metis parse_target_fuel)
next
  case (FirstOkCommand es)
  have "keeps b (first_ok (run stk) le es)" for le
    by (induction es arbitrary: le) (auto intro!: keeps_intros keeps_execute_expression assms(2))
  then show ?thesis using FirstOkCommand by simp
next
  case (ExternalCommand name args)
  then show ?thesis using assms(1)
    by (auto simp: exec_external_def machine_ok_def intro!: keeps_intros keeps_arguments [OF assms(1)] assms(2))
qed (auto simp: exec_assign_def exec_delete_def exec_goto_def intro!: keeps_intros keeps_arguments [OF assms(1)]
      keeps_exec_invoke [OF assms] assms(2) split: option.split CommandResult.split)

section \<open>The commands depend on the dispatch only below them\<close>

text \<open>Two dispatches that agree on every command of weight \<open>d\<close> at every stack deeper than \<open>n\<close> whose libraries
and chains have weight \<open>d\<close>.\<close>

fun pointer_ok :: "nat \<Rightarrow> ExecPointerInner \<Rightarrow> bool" where
  "pointer_ok d (PLib l) = (lib_weight l \<le> d)"
| "pointer_ok d (PChain c) = (chain_weight c \<le> d)"
| "pointer_ok d (PBlock b) = True"

definition below :: "nat \<Rightarrow> nat \<Rightarrow> exec_stack \<Rightarrow> Executor \<Rightarrow> bool" where
  "below d n stk x = (list_all (pointer_ok d) stk \<and> n < length stk \<and> length stk \<le> MAX_STACK_DEPTH \<and> size x \<le> d)"

definition agree_below :: "nat \<Rightarrow> nat \<Rightarrow> 'w dispatch \<Rightarrow> 'w dispatch \<Rightarrow> bool" where
  "agree_below d n run run' = (\<forall>stk x. below d n stk x \<longrightarrow> run stk x = run' stk x)"

lemma chain_weight_block:
  assumes "chain_weight c \<le> d" "bk \<in> set (chain_blocks c)" "x \<in> set (block_execs bk)"
  shows "size x \<le> d"
  using assms by (auto simp: chain_weight_def foldr_max_le)

lemma lib_weight_chain: "lib_weight l \<le> d \<Longrightarrow> c \<in> set (lib_chains l) \<Longrightarrow> chain_weight c \<le> d"
  by (auto simp: lib_weight_def foldr_max_le)

lemma manager_weight_lib: "manager_weight libs \<le> d \<Longrightarrow> l \<in> set libs \<Longrightarrow> lib_weight l \<le> d"
  by (auto simp: manager_weight_def foldr_max_le)

lemma reachable_weight:
  assumes "reachable_result libs stk sr" "manager_weight libs \<le> d" "list_all (pointer_ok d) stk"
  shows "lib_weight (sr_lib sr) \<le> d" "sr_chain sr = Some c \<Longrightarrow> chain_weight c \<le> d"
proof -
  show l: "lib_weight (sr_lib sr) \<le> d"
    using assms manager_weight_lib by (fastforce simp: reachable_result_def reachable_lib_def list_all_iff)
  show "sr_chain sr = Some c \<Longrightarrow> chain_weight c \<le> d"
    using assms(1,3) lib_weight_chain [OF l] by (fastforce simp: reachable_result_def list_all_iff)
qed

lemma enter_same:
  "(length stk < MAX_STACK_DEPTH \<Longrightarrow> body (p # stk) = body' (p # stk)) \<Longrightarrow> enter p stk body = enter p stk body'"
  by (simp add: enter_def)

lemma enter_unless_same:
  assumes "list_all (pointer_ok d) stk" "n \<le> length stk" "pointer_ok d p"
    "\<And>stk'. list_all (pointer_ok d) stk' \<Longrightarrow> n \<le> length stk' \<Longrightarrow> body stk' = body' stk'"
  shows "enter_unless same p stk body = enter_unless same p stk body'"
  using assms unfolding enter_unless_def by (auto intro!: enter_same)

lemma unwrap_same: "(\<And>y. x = Some y \<Longrightarrow> f y = f' y) \<Longrightarrow> unwrap x f = unwrap x f'"
  by (auto simp: unwrap_def split: option.split)

lemma on_found_same: "(\<And>sr. r = Inr (Some sr) \<Longrightarrow> f sr = f' sr) \<Longrightarrow> on_found r what tid f = on_found r what tid f'"
  by (auto simp: on_found_def split: sum.split option.split)

lemma execution_same:
  assumes "parser_ok (ip_parse_arg (m_interp M))" "agree_below d n run run'"
    "list_all (pointer_ok d) stk" "n \<le> length stk"
  shows "(\<And>x. x \<in> set (block_execs bk) \<Longrightarrow> size x \<le> d) \<Longrightarrow> run_block M run stk bk = run_block M run' stk bk"
    and "chain_weight c \<le> d \<Longrightarrow> chain_execute_block M run stk c bid = chain_execute_block M run' stk c bid"
    and "(\<And>bk x. bk \<in> set bks \<Longrightarrow> x \<in> set (block_execs bk) \<Longrightarrow> size x \<le> d) \<Longrightarrow>
      run_blocks M run stk r bks = run_blocks M run' stk r bks"
proof -
  show block: "run_block M run stk bk = run_block M run' stk bk"
    if "\<And>x. x \<in> set (block_execs bk) \<Longrightarrow> size x \<le> d" for bk
    unfolding run_block_def
    by (intro enter_same arg_cong [where f = in_block] execute_block_dispatch assms(1))
       (use assms(2-4) that in \<open>auto simp: agree_def list_all_iff agree_below_def below_def\<close>)
  show "chain_execute_block M run stk c bid = chain_execute_block M run' stk c bid" if "chain_weight c \<le> d"
    unfolding chain_execute_block_def using chain_weight_block [OF that] get_block_in block
    by (fastforce split: option.split)
  show "run_blocks M run stk r bks = run_blocks M run' stk r bks"
    if "\<And>bk x. bk \<in> set bks \<Longrightarrow> x \<in> set (block_execs bk) \<Longrightarrow> size x \<le> d"
    using that
  proof (induction bks arbitrary: r)
    case (Cons bk bks)
    have "run_block M run stk bk = run_block M run' stk bk" by (rule block) (use Cons.prems in auto)
    moreover have "run_blocks M run stk r bks = run_blocks M run' stk r bks" for r
      by (rule Cons.IH) (use Cons.prems in auto)
    ultimately show ?case by (simp cong: if_cong)
  qed simp
qed

lemma execute_chain_same:
  assumes "parser_ok (ip_parse_arg (m_interp M))" "agree_below d n run run'"
    "list_all (pointer_ok d) stk" "n \<le> length stk" "chain_weight c \<le> d"
  shows "execute_chain M run stk c = execute_chain M run' stk c"
  unfolding execute_chain_def using assms chain_weight_block [OF assms(5)]
  by (auto intro!: enter_same execution_same(3) [of M d n])

lemma execute_lib_same:
  assumes "parser_ok (ip_parse_arg (m_interp M))" "agree_below d n run run'"
    "list_all (pointer_ok d) stk" "n \<le> length stk" "lib_weight l \<le> d"
  shows "execute_lib M run stk l = execute_lib M run' stk l"
proof -
  have "run_chains M run stk' r cs = run_chains M run' stk' r cs"
    if "list_all (pointer_ok d) stk'" "n \<le> length stk'" "\<And>c. c \<in> set cs \<Longrightarrow> chain_weight c \<le> d" for stk' r cs
    using that(3)
    by (induction cs arbitrary: r) (auto intro!: bind_same execute_chain_same [OF assms(1,2) that(1,2)])
  then show ?thesis
    unfolding execute_lib_def using assms(3-5) lib_weight_chain by (auto intro!: enter_same)
qed

lemma targets_same:
  assumes "parser_ok (ip_parse_arg (m_interp M))" "manager_weight (m_manager M) \<le> d" "agree_below d n run run'"
    "list_all (pointer_ok d) stk" "n \<le> length stk"
  shows "exec_target_block M run stk tid tg = exec_target_block M run' stk tid tg"
    "exec_target_chain M run stk tid tg = exec_target_chain M run' stk tid tg"
    "exec_target_lib M run stk tid tg = exec_target_lib M run' stk tid tg"
    "invoke_target_block M run stk tid tg a = invoke_target_block M run' stk tid tg a"
    "invoke_target_chain M run stk tid tg a = invoke_target_chain M run' stk tid tg a"
    "invoke_target_lib M run stk tid tg a = invoke_target_lib M run' stk tid tg a"
  unfolding exec_target_block_def exec_target_chain_def exec_target_lib_def
    invoke_target_block_def invoke_target_chain_def invoke_target_lib_def
  using assms(4,5)
  by (auto intro!: unwrap_same on_found_same enter_unless_same [of d _ n] arg_cong [where f = in_chain]
      arg_cong [where f = "with_args M a"] arg_cong [where f = "assert_that _ _"]
      execution_same(2) [OF assms(1,3)] execute_chain_same [OF assms(1,3)] execute_lib_same [OF assms(1,3)]
      reachable_weight [OF _ assms(2,4)]
      dest!: search_block_reachable search_chain_reachable search_lib_reachable)

lemma arguments_same:
  assumes "parser_ok (ip_parse_arg (m_interp M))"
  shows "agree run run' (arg_execs a) \<Longrightarrow> eval_arg (m_interp M) run a = eval_arg (m_interp M) run' a"
    "agree run run' (arg_execs a) \<Longrightarrow> eval_string M run a = eval_string M run' a"
    "agree run run' (opt_execs v) \<Longrightarrow> eval_value M run v = eval_value M run' v"
    "agree run run' (concat (map arg_execs as)) \<Longrightarrow>
      evaluate_list (ip_visitors (m_interp M)) (ip_parse_arg (m_interp M)) (execute_expression run) as =
      evaluate_list (ip_visitors (m_interp M)) (ip_parse_arg (m_interp M)) (execute_expression run') as"
    "agree run run' (concat (map (\<lambda>(k, a). arg_execs a) nas)) \<Longrightarrow> build_args_map M run nas = build_args_map M run' nas"
proof -
  note e = eval_arg_dispatch [OF assms]
  show "agree run run' (arg_execs a) \<Longrightarrow> eval_arg (m_interp M) run a = eval_arg (m_interp M) run' a" by (rule e)
  show "agree run run' (arg_execs a) \<Longrightarrow> eval_string M run a = eval_string M run' a"
    using e [of run run' a] by (simp add: eval_string_def evaluate_string_def eval_arg_def)
  show "agree run run' (opt_execs v) \<Longrightarrow> eval_value M run v = eval_value M run' v"
    using e by (auto simp: eval_value_def opt_execs_def split: option.split)
  show "agree run run' (concat (map arg_execs as)) \<Longrightarrow>
      evaluate_list (ip_visitors (m_interp M)) (ip_parse_arg (m_interp M)) (execute_expression run) as =
      evaluate_list (ip_visitors (m_interp M)) (ip_parse_arg (m_interp M)) (execute_expression run') as"
    using e by (induction as) (auto simp: eval_arg_def)
  have "agree run run' (concat (map (\<lambda>(k, a). arg_execs a) nas)) \<Longrightarrow> insert_args M run adr nas = insert_args M run' adr nas"
    for adr using e by (induction nas) auto
  then show "agree run run' (concat (map (\<lambda>(k, a). arg_execs a) nas)) \<Longrightarrow> build_args_map M run nas = build_args_map M run' nas"
    by (simp add: build_args_map_def)
qed

lemma exec_command_same:
  assumes "parser_ok (ip_parse_arg (m_interp M))" "manager_weight (m_manager M) \<le> d"
    "agree_below d (length stk) run run'" "list_all (pointer_ok d) stk" "agree (run stk) (run' stk) (sub_execs x)"
  shows "exec_command M run stk x = exec_command M run' stk x"
proof (cases x)
  case (AssignCommand kind key v)
  then show ?thesis using assms(5) arguments_same(1) [OF assms(1), of "run stk" "run' stk"]
    by (auto simp: exec_assign_def opt_execs_def split: option.split)
next
  case (FirstOkCommand es)
  have "agree (run stk) (run' stk) (concat (map expr_execs es)) \<Longrightarrow>
      first_ok (run stk) le es = first_ok (run' stk) le es" for le
    by (induction es arbitrary: le) (auto simp: execute_expression_dispatch(1) intro!: bind_same)
  then show ?thesis using FirstOkCommand assms(5) by simp
next
  case (ExecCommand scope t)
  then show ?thesis using assms(5) arguments_same(2) [OF assms(1), of "run stk" "run' stk" t]
      targets_same [OF assms(1-4) order_refl]
    by (simp add: exec_exec_def cong: sum.case_cong ExecScope.case_cong)
next
  case (InvokeCommand scope t args)
  then show ?thesis using assms(5) arguments_same(2,5) [OF assms(1), of "run stk" "run' stk"]
      targets_same [OF assms(1-4) order_refl]
    by (simp add: exec_invoke_def cong: sum.case_cong ExecScope.case_cong)
next
  case (GotoCommand scope t args ok er)
  then show ?thesis using assms(5) arguments_same(2,5) [OF assms(1), of "run stk" "run' stk"]
      targets_same [OF assms(1-4) order_refl]
    by (simp add: exec_goto_def exec_invoke_def cong: sum.case_cong ExecScope.case_cong)
next
  case (ExternalCommand name args)
  then show ?thesis using assms(5) arguments_same(4) [OF assms(1), of "run stk" "run' stk" args]
    by (simp add: exec_external_def)
qed (use assms(5) arguments_same(3) [OF assms(1), of "run stk" "run' stk"] in auto)

section \<open>Enough fuel\<close>

text \<open>The fuel that is enough for a command at a stack: every level of the stack costs at most the weight of a
block, and the stack has at most \<open>MAX_STACK_DEPTH\<close> levels.\<close>

definition command_fuel :: "nat \<Rightarrow> exec_stack \<Rightarrow> Executor \<Rightarrow> nat" where
  "command_fuel d stk x = (MAX_STACK_DEPTH - length stk) * (d + 2) + size x"

lemma command_fuel_sub: "x' \<in> set (sub_execs x) \<Longrightarrow> command_fuel d stk x' < command_fuel d stk x"
  using size_sub_execs by (simp add: command_fuel_def)

lemma command_fuel_below:
  assumes "below d (length stk) stk' x'"
  shows "command_fuel d stk' x' < command_fuel d stk x"
proof -
  have "length stk < length stk'" "length stk' \<le> MAX_STACK_DEPTH" and d: "size x' \<le> d"
    using assms by (simp_all add: below_def)
  then have "Suc (MAX_STACK_DEPTH - length stk') \<le> MAX_STACK_DEPTH - length stk" by linarith
  then have "Suc (MAX_STACK_DEPTH - length stk') * (d + 2) \<le> (MAX_STACK_DEPTH - length stk) * (d + 2)"
    by (rule mult_le_mono1)
  then have "(MAX_STACK_DEPTH - length stk') * (d + 2) + size x' < (MAX_STACK_DEPTH - length stk) * (d + 2)"
    unfolding mult_Suc using d by linarith
  then show ?thesis unfolding command_fuel_def by linarith
qed

lemma run_command_fuel_irrelevant:
  assumes "parser_ok (ip_parse_arg (m_interp M))" "manager_weight (m_manager M) \<le> d"
    "list_all (pointer_ok d) stk" "command_fuel d stk x < n" "command_fuel d stk x < n'"
  shows "run_command M n stk x = run_command M n' stk x"
  using assms(3-5)
proof (induction n arbitrary: n' stk x)
  case (Suc n)
  obtain m where n': "n' = Suc m" using Suc.prems(3) by (cases n') auto
  have "agree_below d (length stk) (run_command M n) (run_command M m)"
    unfolding agree_below_def
  proof (intro allI impI)
    fix stk' and x' :: Executor
    assume b: "below d (length stk) stk' x'"
    then show "run_command M n stk' x' = run_command M m stk' x'"
      using command_fuel_below [OF b, of x] Suc.prems n' by (intro Suc.IH) (auto simp: below_def)
  qed
  moreover have "agree (run_command M n stk) (run_command M m stk) (sub_execs x)"
    unfolding agree_def list_all_iff
  proof
    fix x' assume "x' \<in> set (sub_execs x)"
    then show "run_command M n stk x' = run_command M m stk x'"
      using command_fuel_sub [of x' x d stk] Suc.prems n' by (intro Suc.IH) auto
  qed
  ultimately show ?case using exec_command_same [OF assms(1,2)] Suc.prems(1) n' by simp
qed simp

lemma keeps_run_command:
  assumes "machine_ok b M" "manager_weight (m_manager M) \<le> d" "list_all (pointer_ok d) stk"
    "b \<Longrightarrow> command_fuel d stk x < n"
  shows "keeps b (run_command M n stk x)"
  using assms(3,4)
proof (induction n arbitrary: stk x)
  case 0
  then show ?case by (cases b) (auto intro: keeps_intros)
next
  case (Suc n)
  let ?reached = "\<lambda>stk' x'. below d (length stk) stk' x' \<or> stk' = stk \<and> x' \<in> set (sub_execs x)"
  let ?run = "\<lambda>stk' x'. if ?reached stk' x' then run_command M n stk' x' else ret success"
  have "keeps b (?run stk' x')" for stk' x'
    using command_fuel_below [of d stk stk' x' x] command_fuel_sub [of x' x d stk] Suc.prems Suc.IH [of stk' x']
    by (fastforce simp: below_def intro!: keeps_intros)
  then have "keeps b (exec_command M ?run stk x)" by (rule keeps_exec_command_any [OF assms(1)])
  moreover have "exec_command M (run_command M n) stk x = exec_command M ?run stk x"
    by (rule exec_command_same [OF _ assms(2)])
       (use assms(1) Suc.prems(1) in \<open>auto simp: machine_ok_def agree_below_def agree_def list_all_iff\<close>)
  ultimately show ?case by simp
qed

section \<open>Callees and the scopes of the caller\<close>

definition same_scopes :: "'w pc \<Rightarrow> 'w pc \<Rightarrow> bool" where
  "same_scopes s t = (block_env t = block_env s \<and> tracker t = tracker s \<and> policy t = policy s)"

text \<open>\<open>isolated ch m\<close>: \<open>m\<close> leaves the block scope, the tracker and the policy as they were, and the chain scope as
well if \<open>ch\<close> is set.\<close>

definition isolated :: "bool \<Rightarrow> ('w pc, 'a) op \<Rightarrow> bool" where
  "isolated ch m = (\<forall>s. same_scopes s (snd (m s)) \<and> (ch \<longrightarrow> chain_env (snd (m s)) = chain_env s))"

named_theorems isolated_intros

lemma isolated_basic [isolated_intros]:
  "isolated ch (fail e)" "isolated ch (ret x)" "isolated ch (\<lambda>s. (r s, s))"
  by (simp_all add: isolated_def same_scopes_def)

lemma isolated_bind [isolated_intros]:
  assumes "isolated ch m" "\<And>x. isolated ch (f x)"
  shows "isolated ch (bind m f)"
  unfolding isolated_def
proof
  fix s
  obtain r t where m: "m s = (r, t)" by fastforce
  have "same_scopes s t \<and> (ch \<longrightarrow> chain_env t = chain_env s)"
    using assms(1) m unfolding isolated_def by (metis snd_conv)
  then show "same_scopes s (snd (bind m f s)) \<and> (ch \<longrightarrow> chain_env (snd (bind m f s)) = chain_env s)"
    using m assms(2) by (cases r) (auto simp: isolated_def same_scopes_def)
qed

lemma isolated_in_block [isolated_intros]: "isolated False (in_block m)"
  by (simp add: isolated_def same_scopes_def in_block_def leave_block_def split_beta Let_def)

lemma isolated_in_chain [isolated_intros]: "isolated ch (in_chain m)"
  by (simp add: isolated_def same_scopes_def in_chain_def leave_chain_def leave_block_def split_beta Let_def)

lemma isolated_enter [isolated_intros]:
  "(\<And>stk'. isolated ch (body stk')) \<Longrightarrow> isolated ch (enter p stk body)"
  "(\<And>stk'. isolated ch (body stk')) \<Longrightarrow> isolated ch (enter_unless same p stk body)"
  by (simp_all add: enter_def enter_unless_def isolated_intros)

lemma isolated_guards [isolated_intros]:
  "(\<And>y. isolated ch (f y)) \<Longrightarrow> isolated ch (unwrap x f)"
  "isolated ch m \<Longrightarrow> isolated ch (assert_that c msg m)"
  "(\<And>sr. isolated ch (g sr)) \<Longrightarrow> isolated ch (on_found r what tid g)"
  by (auto simp: unwrap_def assert_that_def on_found_def isolated_intros split: option.split sum.split)

lemma isolated_with_args [isolated_intros]: "isolated ch (with_args M a m)"
  by (simp add: with_args_def isolated_intros)

lemma isolated_targets:
  "isolated False (exec_target_block M run stk tid tg)" "isolated ch (exec_target_chain M run stk tid tg)"
  "isolated ch (exec_target_lib M run stk tid tg)" "isolated ch (invoke_target_block M run stk tid tg a)"
  "isolated ch (invoke_target_chain M run stk tid tg a)" "isolated ch (invoke_target_lib M run stk tid tg a)"
  unfolding exec_target_block_def exec_target_chain_def exec_target_lib_def chain_execute_block_def run_block_def
    invoke_target_block_def invoke_target_chain_def invoke_target_lib_def
  by (auto intro!: isolated_intros split: option.split)

lemma isolated_literal_arguments:
  "isolated ch (eval_string M run (Literal tid))" "isolated ch (build_args_map M run [])"
  by (simp_all add: isolated_def same_scopes_def eval_string_def evaluate_string_def evaluate_arg_def bind_def
      build_args_map_def alloc_op_def split_beta Let_def)

section \<open>Properties\<close>

definition lib_fuel :: "'w machine \<Rightarrow> ProcessChainLib \<Rightarrow> nat" where
  "lib_fuel M lib = (let d = max (manager_weight (m_manager M)) (lib_weight lib) in MAX_STACK_DEPTH * (d + 2) + d)"

text \<open>C1. Every script ends: with fuel \<open>lib_fuel\<close>, which only depends on the scripts, the execution of a
library never runs out of fuel in any state, whatever its blocks call (recursion through exec, invoke and goto
included), more fuel does not change the outcome, and the final state is well-formed with every traversal
counter as at the start. The argument parser and the external commands are assumed to behave as
\<open>machine_ok\<close> says.\<close>

theorem library_execution_terminates:
  assumes "machine_ok True M" "pc_ok s" "lib_fuel M lib < n"
  shows "fuel_result (fst (execute_lib M (run_command M n) [] lib s)) \<and>
    (\<forall>n' > lib_fuel M lib. execute_lib M (run_command M n') [] lib s = execute_lib M (run_command M n) [] lib s) \<and>
    pc_ok (snd (execute_lib M (run_command M n) [] lib s)) \<and>
    heap_evolves (pc_heap s) (pc_heap (snd (execute_lib M (run_command M n) [] lib s)))"
proof -
  define d where "d = max (manager_weight (m_manager M)) (lib_weight lib)"
  have d: "manager_weight (m_manager M) \<le> d" "lib_weight lib \<le> d" by (simp_all add: d_def)
  have parser: "parser_ok (ip_parse_arg (m_interp M))" using assms(1) by (simp add: machine_ok_def)
  have fuel: "command_fuel d stk x < m" if "below d 0 stk x" "lib_fuel M lib < m" for stk x m
  proof -
    have "(MAX_STACK_DEPTH - length stk) * (d + 2) \<le> MAX_STACK_DEPTH * (d + 2)" by (rule mult_le_mono1) simp
    then show ?thesis
      using that unfolding command_fuel_def lib_fuel_def below_def Let_def d_def [symmetric] by linarith
  qed
  have same: "execute_lib M run [] lib = execute_lib M run' [] lib" if "agree_below d 0 run run'" for run run'
    by (rule execute_lib_same [OF parser that]) (use d in auto)
  let ?run = "\<lambda>stk x. if below d 0 stk x then run_command M n stk x else ret success"
  have "keeps True (?run stk x)" for stk x
    using keeps_run_command [OF assms(1) d(1), of stk x n] fuel [of stk x n] assms(3)
    by (auto simp: below_def intro!: keeps_intros)
  then have "keeps True (execute_lib M ?run [] lib)" by (rule keeps_execution(6) [OF assms(1)])
  moreover have "execute_lib M (run_command M n) [] lib = execute_lib M ?run [] lib"
    by (rule same) (simp add: agree_below_def)
  ultimately have "keeps True (execute_lib M (run_command M n) [] lib)" by simp
  moreover have "execute_lib M (run_command M n') [] lib = execute_lib M (run_command M n) [] lib"
    if "lib_fuel M lib < n'" for n'
    by (rule same) (use fuel that assms(3) in \<open>auto simp: agree_below_def below_def
        intro!: run_command_fuel_irrelevant [OF parser d(1)]\<close>)
  ultimately show ?thesis using assms(2) by (simp add: keeps_def)
qed


definition sample_machine :: "manager \<Rightarrow> unit machine" where
  "sample_machine libs = \<lparr> m_interp = sample_interp, m_manager = libs, m_warns = True,
     m_external = (\<lambda>name vs args. ret success) \<rparr>"

definition sample_block_of :: "string \<Rightarrow> Executor \<Rightarrow> Block" where
  "sample_block_of i x = \<lparr> block_id = i, lines = [Line [] [Expressions [(None, Command [] [] (Some x), None)]]] \<rparr>"

definition sample_chain :: "string \<Rightarrow> Block list \<Rightarrow> ProcessChain" where
  "sample_chain i bs = \<lparr> chain_id = i, chain_priority = 0, chain_blocks = bs \<rparr>"

text \<open>A library whose only block executes itself.\<close>

definition recursive_lib :: ProcessChainLib where
  "recursive_lib = new_lib ConstListLib ''lib''
     0 [sample_chain ''main'' [sample_block_of ''b'' (ExecCommand ScopeBlock (Literal ''b''))]]"

lemma sample_machine_ok: "machine_ok b (sample_machine libs)"
  by (auto simp: machine_ok_def sample_machine_def sample_interp_def parser_ok_def parses_parts_def intro: keeps_intros)

theorem library_execution_terminates_witness:
  "fuel_result (fst (execute_lib (sample_machine []) (run_command (sample_machine [])
     (Suc (lib_fuel (sample_machine []) recursive_lib))) [] recursive_lib (new_context [] () None)))"
proof -
  have "pc_ok (new_context [] () None)"
    by (simp add: pc_ok_def new_context_def new_env_def hook_envs_def heap_ok_def om_wf_def)
  then show ?thesis
    using library_execution_terminates [OF sample_machine_ok, of "new_context [] () None" "[]" recursive_lib
        "Suc (lib_fuel (sample_machine []) recursive_lib)"]
    by blast
qed

text \<open>Calls have plain results: \<open>exec\<close> and \<open>invoke\<close> never pass a control action on to the caller's block, and \<open>goto\<close>
always ends its block, with a return or an error at the level its options select.\<close>

theorem call_results:
  "(case fst (exec_command M run stk (ExecCommand scope a) s) of Inr r \<Rightarrow> is_success r \<or> is_error r | Inl e \<Rightarrow> True) \<and>
   (case fst (exec_command M run stk (InvokeCommand scope a args) s) of
      Inr r \<Rightarrow> is_success r \<or> is_error r | Inl e \<Rightarrow> True) \<and>
   (case fst (exec_command M run stk (GotoCommand scope a args ok_level err_level) s) of
      Inr r \<Rightarrow> r = Control (Return ok_level (value_ref r)) \<or> r = Control (ErrorReturn err_level (value_ref r))
    | Inl e \<Rightarrow> True)"
proof -
  have plain: "is_success r' \<or> is_error r'" if "normalize_exec_result name tid r = Inr r'" for name tid r r'
    using that by (auto simp: normalize_exec_result_def split: CommandResult.splits CommandControl.splits)
  have "case fst (exec_exec M run stk scope a s) of Inr r \<Rightarrow> is_success r \<or> is_error r | Inl e \<Rightarrow> True"
    by (auto simp: exec_exec_def bind_def split: prod.splits sum.splits dest: plain)
  moreover have "case fst (exec_invoke M run stk scope a args s) of Inr r \<Rightarrow> is_success r \<or> is_error r | Inl e \<Rightarrow> True"
    by (auto simp: exec_invoke_def bind_def split: prod.splits sum.splits dest: plain)
  moreover have "case fst (exec_goto M run stk scope a args ok_level err_level s) of
      Inr r \<Rightarrow> r = Control (Return ok_level (value_ref r)) \<or> r = Control (ErrorReturn err_level (value_ref r))
    | Inl e \<Rightarrow> True"
    by (auto simp: exec_goto_def bind_def split: prod.splits sum.splits CommandResult.splits)
  ultimately show ?thesis by simp
qed


text \<open>A library with a caller and a callee that leaves the library.\<close>

definition returning_chain :: ProcessChain where
  "returning_chain = sample_chain ''main'' [sample_block_of ''callee'' (ReturnCommand CtlLib (Some (Literal ''done'')))]"

definition returning_stack :: exec_stack where
  "returning_stack = [PChain returning_chain, PLib (new_lib ConstListLib ''lib'' 0 [returning_chain])]"


text \<open>C38. \<open>invoke --block chain:block\<close> on another chain of the current library panics: the lookup finds the
block in the same library and a different chain, which the assertion before the call excludes.\<close>

theorem invoke_block_of_same_library_panics:
  assumes "CHR '':'' \<notin> set cid" "CHR '':'' \<notin> set bid" "current_lib stk = Some l" "current_chain stk = Some c"
    "chain_id c \<noteq> cid" "lib_get_chain l cid = Inr (Some c')" "get_block c' bid = Some b"
  shows "fst (exec_command M run stk (InvokeCommand ScopeBlock (Literal (cid @ '':'' @ bid)) []) s) =
    Inl (Panic ''Chain must not be in the same library if same_chain is false'')"
proof -
  have "split_on CHR '':'' (cid @ '':'' @ bid) = [cid, bid]" 
    using assms(1,2) by (simp add: split_on_append split_on_no_sep)
  then have "parse_target ScopeBlock (cid @ '':'' @ bid) =
      Inr \<lparr> tg_lib = None, tg_chain = Some cid, tg_block = Some bid \<rparr>"
    by (simp add: parse_target_def)
  moreover have "search_block w libs stk None (Some cid) bid = Inr (found l True (Some c') False)" for w libs
    using assms by (simp add: search_block_def in_scope_def)
  ultimately show ?thesis
    by (simp add: exec_invoke_def eval_string_def evaluate_string_def evaluate_arg_def bind_def build_args_map_def
        alloc_op_def invoke_target_block_def unwrap_def on_found_def found_def enter_unless_def assert_that_def
        split_beta Let_def)
qed

definition two_chain_lib :: ProcessChainLib where
  "two_chain_lib = new_lib ConstListLib ''lib'' 0
     [sample_chain ''main'' [], sample_chain ''other'' [sample_block_of ''b'' (ActionCommand Accept)]]"

lemma two_chain_lookup:
  "lib_get_chain two_chain_lib ''other'' =
     Inr (Some (sample_chain ''other'' [sample_block_of ''b'' (ActionCommand Accept)]))"
  "get_block (sample_chain ''other'' [sample_block_of ''b'' (ActionCommand Accept)]) ''b'' =
     Some (sample_block_of ''b'' (ActionCommand Accept))"
  "get_block (sample_chain ''other'' [sample_block_of ''b'' (ActionCommand Accept)]) ''nope'' = None"
  "chain_id (sample_chain ''main'' []) \<noteq> ''other''"
  by (simp_all add: two_chain_lib_def new_lib_def lib_get_chain_def sample_chain_def get_block_def sample_block_of_def)

theorem invoke_block_of_same_library_panics_witness:
  "fst (exec_command (sample_machine [two_chain_lib]) (run_command (sample_machine [two_chain_lib]) 5)
     [PChain (sample_chain ''main'' []), PLib two_chain_lib] (InvokeCommand ScopeBlock (Literal ''other:b'') [])
     (new_context [] () None)) = Inl (Panic ''Chain must not be in the same library if same_chain is false'')"
  using invoke_block_of_same_library_panics [OF _ _ _ _ two_chain_lookup(4,1,2),
      of "[PChain (sample_chain ''main'' []), PLib two_chain_lib]" "sample_machine [two_chain_lib]"
        "run_command (sample_machine [two_chain_lib]) 5" "new_context [] () None"]
  by simp

text \<open>A misspelt block name panics when warnings are logged: with one linked library, \<open>chain:block\<close> naming a
chain of it without that block is not reported as missing; the warning itself fails on the absent library
name.\<close>

theorem search_missing_block_panics:
  assumes "current_lib stk = Some l" "chain_id c \<noteq> cid" "current_chain stk = Some c"
    "lib_get_chain l cid = Inr (Some c')" "get_block c' bid = None"
  shows "search_block warns [l] stk None (Some cid) bid =
    (if warns then Inl (Panic ''called `Option::unwrap()` on a `None` value'') else Inr None)"
  using assms by (simp add: search_block_def in_scope_def linked_get_block_def search_manager_def)

theorem search_missing_block_panics_witness:
  "search_block True [two_chain_lib] [PChain (sample_chain ''main'' []), PLib two_chain_lib] None (Some ''other'') ''nope'' =
     Inl (Panic ''called `Option::unwrap()` on a `None` value'')"
  using search_missing_block_panics [OF _ two_chain_lookup(4) _ two_chain_lookup(1,3),
      of "[PChain (sample_chain ''main'' []), PLib two_chain_lib]" True]
  by simp

end
