(* ===== verification/Wire.thy ===== *)
theory Wire
  imports Prelude
begin

text \<open>Bytes on the wire: the part of the Rust standard library that the protocol components share.
\<open>be_bytes\<close> and \<open>from_be\<close> are \<open>to_be_bytes\<close> and \<open>from_be_bytes\<close> for an integer of \<open>k\<close> bytes;
\<open>from_utf8\<close> and \<open>as_bytes\<close> relate a byte sequence to a \<open>str\<close>, which is a list of Unicode scalar values
here. A byte stream is the list of the pieces in which its bytes arrive; \<open>read_some\<close> is one
\<open>read\<close> into a buffer of a given size and \<open>read_exact\<close> is tokio's loop around it.\<close>

type_synonym bytes = "u8 list"

section \<open>Big-endian integers\<close>

text \<open>\<open>n as u8\<close>\<close>

definition byte :: "nat \<Rightarrow> u8" where
  "byte n = word_of_nat n"

primrec be_bytes :: "nat \<Rightarrow> nat \<Rightarrow> bytes" where
  "be_bytes 0 n = []"
| "be_bytes (Suc k) n = be_bytes k (n div 256) @ [byte (n mod 256)]"

definition from_be :: "bytes \<Rightarrow> nat" where
  "from_be bs = foldl (\<lambda>acc b. acc * 256 + unat b) 0 bs"

lemma unat_u8_less: "unat (b :: u8) < 256"
proof -
  have "unat b < 2 ^ LENGTH(8)" by (rule unsigned_less)
  then show ?thesis by simp
qed

lemma unat_byte [simp]: "n < 256 \<Longrightarrow> unat (byte n) = n"
  by (simp add: byte_def unat_of_nat)

lemma byte_unat [simp]: "byte (unat b) = b"
  by (simp add: byte_def)

lemma length_be_bytes [simp]: "length (be_bytes k n) = k"
  by (induction k arbitrary: n) auto

lemma from_be_Nil [simp]: "from_be [] = 0"
  by (simp add: from_be_def)

lemma from_be_snoc [simp]: "from_be (bs @ [b]) = from_be bs * 256 + unat b"
  by (simp add: from_be_def)

lemma from_be_2: "from_be [a, b] = unat a * 256 + unat b"
  by (simp add: from_be_def)

lemma from_be_be_bytes: "from_be (be_bytes k n) = n mod 256 ^ k"
proof (induction k arbitrary: n)
  case (Suc k)
  then show ?case
    by (simp add: mod_mult2_eq)
qed simp

lemma from_be_be_bytes_id [simp]: "n < 256 ^ k \<Longrightarrow> from_be (be_bytes k n) = n"
  by (simp add: from_be_be_bytes)

lemma from_be_less: "from_be bs < 256 ^ length bs"
proof (induction bs rule: rev_induct)
  case (snoc b bs)
  have "from_be bs * 256 + unat b < (from_be bs + 1) * 256"
    using unat_u8_less [of b] by simp
  also have "\<dots> \<le> 256 ^ length bs * 256"
    using snoc by (intro mult_right_mono) auto
  finally show ?case by simp
qed simp

lemma be_bytes_from_be: "be_bytes (length bs) (from_be bs) = bs"
  by (induction bs rule: rev_induct) (simp_all add: unat_u8_less)

lemma from_be_inj: "length bs = length cs \<Longrightarrow> from_be bs = from_be cs \<Longrightarrow> bs = cs"
  by (metis be_bytes_from_be)

lemma be_bytes_2: "be_bytes 2 n = [byte (n div 256 mod 256), byte (n mod 256)]"
  by (simp add: numeral_2_eq_2)

lemma be_bytes_4: "be_bytes 4 n = [byte (n div 256 div 256 div 256 mod 256), byte (n div 256 div 256 mod 256),
    byte (n div 256 mod 256), byte (n mod 256)]"
proof -
  have "4 = Suc (Suc (Suc (Suc 0)))" by simp
  then show ?thesis by (simp only: be_bytes.simps) simp
qed

lemma be_bytes_inj:
  assumes "be_bytes k m = be_bytes k n" "m < 256 ^ k" "n < 256 ^ k"
  shows "m = n"
  using assms by (metis from_be_be_bytes_id)

section \<open>Strings\<close>

type_synonym str = "nat list"

text \<open>\<open>char::is_whitespace\<close>\<close>

definition is_ws :: "nat \<Rightarrow> bool" where
  "is_ws c = ((9 \<le> c \<and> c \<le> 13) \<or> c = 32 \<or> c = 0x85 \<or> c = 0xA0 \<or> c = 0x1680 \<or> (0x2000 \<le> c \<and> c \<le> 0x200A)
     \<or> c = 0x2028 \<or> c = 0x2029 \<or> c = 0x202F \<or> c = 0x205F \<or> c = 0x3000)"

definition str_trim :: "str \<Rightarrow> str" where
  "str_trim s = rev (dropWhile is_ws (rev (dropWhile is_ws s)))"

fun str_split_by :: "(nat \<Rightarrow> bool) \<Rightarrow> str \<Rightarrow> str list" where
  "str_split_by P [] = [[]]"
| "str_split_by P (c # cs) =
     (if P c then [] # str_split_by P cs
      else (case str_split_by P cs of [] \<Rightarrow> [[c]] | w # ws \<Rightarrow> (c # w) # ws))"

definition split_whitespace :: "str \<Rightarrow> str list" where
  "split_whitespace s = filter (\<lambda>w. w \<noteq> []) (str_split_by is_ws s)"

definition split_once :: "nat \<Rightarrow> str \<Rightarrow> (str \<times> str) option" where
  "split_once c s =
     (if c \<in> set s then Some (takeWhile (\<lambda>x. x \<noteq> c) s, tl (dropWhile (\<lambda>x. x \<noteq> c) s)) else None)"

definition str_lower :: "str \<Rightarrow> str" where
  "str_lower s = map (\<lambda>c. if 65 \<le> c \<and> c \<le> 90 then c + 32 else c) s"

definition continuation :: "nat \<Rightarrow> nat \<Rightarrow> u8 \<Rightarrow> bool" where
  "continuation lo hi b = (lo \<le> unat b \<and> unat b \<le> hi)"

text \<open>The table of well-formed sequences that \<open>core::str::from_utf8\<close> accepts.\<close>

fun from_utf8 :: "bytes \<Rightarrow> str option" where
  "from_utf8 [] = Some []"
| "from_utf8 (a # rest) =
     (let a' = unat a in
      if a' < 0x80 then map_option (Cons a') (from_utf8 rest)
      else if 0xC2 \<le> a' \<and> a' \<le> 0xDF then
        (case rest of
           b # rest \<Rightarrow>
             if continuation 0x80 0xBF b
             then map_option (Cons ((a' - 0xC0) * 64 + (unat b - 0x80))) (from_utf8 rest)
             else None
         | [] \<Rightarrow> None)
      else if 0xE0 \<le> a' \<and> a' \<le> 0xEF then
        (case rest of
           b # c # rest \<Rightarrow>
             if continuation (if a' = 0xE0 then 0xA0 else 0x80) (if a' = 0xED then 0x9F else 0xBF) b \<and>
                continuation 0x80 0xBF c
             then map_option (Cons ((a' - 0xE0) * 4096 + (unat b - 0x80) * 64 + (unat c - 0x80))) (from_utf8 rest)
             else None
         | _ \<Rightarrow> None)
      else if 0xF0 \<le> a' \<and> a' \<le> 0xF4 then
        (case rest of
           b # c # d # rest \<Rightarrow>
             if continuation (if a' = 0xF0 then 0x90 else 0x80) (if a' = 0xF4 then 0x8F else 0xBF) b \<and>
                continuation 0x80 0xBF c \<and> continuation 0x80 0xBF d
             then map_option (Cons ((a' - 0xF0) * 262144 + (unat b - 0x80) * 4096 + (unat c - 0x80) * 64
                                    + (unat d - 0x80))) (from_utf8 rest)
             else None
         | _ \<Rightarrow> None)
      else None)"

definition scalar_value :: "nat \<Rightarrow> bool" where
  "scalar_value n = (n < 0xD800 \<or> 0xE000 \<le> n \<and> n < 0x110000)"

definition encode_char :: "nat \<Rightarrow> bytes" where
  "encode_char n =
     (if n < 0x80 then [byte n]
      else if n < 0x800 then [byte (0xC0 + n div 64), byte (0x80 + n mod 64)]
      else if n < 0x10000 then
        [byte (0xE0 + n div 4096), byte (0x80 + n div 64 mod 64), byte (0x80 + n mod 64)]
      else
        [byte (0xF0 + n div 262144), byte (0x80 + n div 4096 mod 64),
         byte (0x80 + n div 64 mod 64), byte (0x80 + n mod 64)])"

definition as_bytes :: "str \<Rightarrow> bytes" where
  "as_bytes s = concat (map encode_char s)"

text \<open>The string literals of the sources, as scalar values.\<close>

definition lit :: "string \<Rightarrow> str" where
  "lit s = map of_char s"

lemma from_utf8_ascii: "\<forall>b \<in> set bs. unat b < 0x80 \<Longrightarrow> from_utf8 bs = Some (map unat bs)"
  by (induction bs) (auto simp: Let_def)


lemma continuation_byte:
  "m < 64 \<Longrightarrow> continuation lo hi (byte (0x80 + m)) \<longleftrightarrow> lo \<le> 0x80 + m \<and> 0x80 + m \<le> hi"
  by (simp add: continuation_def)

lemma div_64_64: "n div 64 div 64 = n div (4096::nat)" "n div 4096 div 64 = n div (262144::nat)"
  by (simp_all flip: div_mult2_eq)

lemma sixes:
  fixes n :: nat
  shows "n div 64 * 64 + n mod 64 = n"
    "n div 4096 * 4096 + n div 64 mod 64 * 64 + n mod 64 = n"
    "n div 262144 * 262144 + n div 4096 mod 64 * 4096 + n div 64 mod 64 * 64 + n mod 64 = n"
proof -
  show 1: "n div 64 * 64 + n mod 64 = n" by simp
  have "n div 64 = n div 4096 * 64 + n div 64 mod 64"
    by (metis div_64_64(1) div_mult_mod_eq)
  then show 2: "n div 4096 * 4096 + n div 64 mod 64 * 64 + n mod 64 = n"
    using 1 by linarith
  have "n div 4096 = n div 262144 * 64 + n div 4096 mod 64"
    by (metis div_64_64(2) div_mult_mod_eq)
  then show "n div 262144 * 262144 + n div 4096 mod 64 * 4096 + n div 64 mod 64 * 64 + n mod 64 = n"
    using 2 by linarith
qed

lemma from_utf8_2:
  assumes "2 \<le> x" "x < 32" "y < 64"
  shows "from_utf8 (byte (0xC0 + x) # byte (0x80 + y) # bs) = map_option (Cons (x * 64 + y)) (from_utf8 bs)"
  using assms by (simp add: Let_def continuation_byte)

lemma from_utf8_3:
  assumes "x < 16" "y < 64" "z < 64" "x = 0 \<Longrightarrow> 32 \<le> y" "x = 13 \<Longrightarrow> y < 32"
  shows "from_utf8 (byte (0xE0 + x) # byte (0x80 + y) # byte (0x80 + z) # bs)
       = map_option (Cons (x * 4096 + y * 64 + z)) (from_utf8 bs)"
proof -
  have "continuation (if 0xE0 + x = 0xE0 then 0xA0 else 0x80) (if 0xE0 + x = 0xED then 0x9F else 0xBF) (byte (0x80 + y))"
    using assms by (auto simp: continuation_byte)
  then show ?thesis using assms by (simp add: Let_def continuation_byte)
qed

lemma from_utf8_4:
  assumes "x \<le> 4" "y < 64" "z < 64" "w < 64" "x = 0 \<Longrightarrow> 16 \<le> y" "x = 4 \<Longrightarrow> y < 16"
  shows "from_utf8 (byte (0xF0 + x) # byte (0x80 + y) # byte (0x80 + z) # byte (0x80 + w) # bs)
       = map_option (Cons (x * 262144 + y * 4096 + z * 64 + w)) (from_utf8 bs)"
proof -
  have "continuation (if 0xF0 + x = 0xF0 then 0x90 else 0x80) (if 0xF0 + x = 0xF4 then 0x8F else 0xBF) (byte (0x80 + y))"
    using assms by (auto simp: continuation_byte)
  then show ?thesis using assms by (simp add: Let_def continuation_byte)
qed

lemma from_utf8_encode_char:
  assumes "scalar_value n"
  shows "from_utf8 (encode_char n @ bs) = map_option (Cons n) (from_utf8 bs)"
proof -
  have lt: "n < 0x110000" using assms by (auto simp: scalar_value_def)
  consider "n < 0x80" | "0x80 \<le> n" "n < 0x800" | "0x800 \<le> n" "n < 0x10000" | "0x10000 \<le> n"
    by linarith
  then show ?thesis
  proof cases
    case 1
    then show ?thesis by (simp add: encode_char_def)
  next
    case 2
    then have "encode_char n = [byte (0xC0 + n div 64), byte (0x80 + n mod 64)]"
      by (simp add: encode_char_def)
    moreover have "2 \<le> n div 64" "n div 64 < 32" "n mod 64 < 64"
      using 2 div_le_mono [of 128 n 64] by (simp_all add: less_mult_imp_div_less)
    ultimately show ?thesis
      using from_utf8_2 [of "n div 64" "n mod 64" bs] by (simp only: append.simps sixes)
  next
    case 3
    then have "encode_char n = [byte (0xE0 + n div 4096), byte (0x80 + n div 64 mod 64), byte (0x80 + n mod 64)]"
      by (simp add: encode_char_def)
    moreover have "n div 4096 < 16" "n div 64 mod 64 < 64" "n mod 64 < 64" "n div 4096 = 0 \<Longrightarrow> 32 \<le> n div 64 mod 64"
      "n div 4096 = 13 \<Longrightarrow> n div 64 mod 64 < 32"
      using 3 assms sixes(2) [of n] by (simp_all add: less_mult_imp_div_less scalar_value_def) linarith+
    ultimately show ?thesis
      using from_utf8_3 [of "n div 4096" "n div 64 mod 64" "n mod 64" bs] by (simp only: append.simps sixes)
  next
    case 4
    then have "encode_char n = [byte (0xF0 + n div 262144), byte (0x80 + n div 4096 mod 64),
        byte (0x80 + n div 64 mod 64), byte (0x80 + n mod 64)]"
      by (simp add: encode_char_def)
    moreover have "n div 262144 \<le> 4" "n div 4096 mod 64 < 64" "n div 64 mod 64 < 64" "n mod 64 < 64"
      "n div 262144 = 0 \<Longrightarrow> 16 \<le> n div 4096 mod 64" "n div 262144 = 4 \<Longrightarrow> n div 4096 mod 64 < 16"
      using 4 lt sixes(3) [of n] div_le_mono [of n "0x10FFFF" 262144] by simp_all
    ultimately show ?thesis
      using from_utf8_4 [of "n div 262144" "n div 4096 mod 64" "n div 64 mod 64" "n mod 64" bs]
      by (simp only: append.simps sixes)
  qed
qed

lemma from_utf8_as_bytes:
  "list_all scalar_value s \<Longrightarrow> from_utf8 (as_bytes s) = Some s"
  by (induction s) (auto simp: as_bytes_def from_utf8_encode_char)

section \<open>Byte streams\<close>

text \<open>What the peer sends arrives in pieces; \<open>None\<close> is a read that fails. A read of zero bytes is the end
of the stream.\<close>

datatype io_error =
    IoFailed
  | UnexpectedEof
  | InvalidData string
  | InvalidInput string
  | OtherError string

type_synonym stream = "bytes option list"

fun read_some :: "nat \<Rightarrow> stream \<Rightarrow> (io_error, bytes) result \<times> stream" where
  "read_some n [] = (Inr [], [])"
| "read_some n (None # s) = (Inl IoFailed, s)"
| "read_some n (Some p # s) = (Inr (take n p), if length p \<le> n then s else Some (drop n p) # s)"

fun read_exact :: "nat \<Rightarrow> stream \<Rightarrow> (io_error, bytes) result \<times> stream" where
  "read_exact 0 s = (Inr [], s)"
| "read_exact (Suc n) [] = (Inl UnexpectedEof, [])"
| "read_exact (Suc n) (None # s) = (Inl IoFailed, s)"
| "read_exact (Suc n) (Some p # s) =
     (if p = [] then (Inl UnexpectedEof, s)
      else if Suc n < length p then (Inr (take (Suc n) p), Some (drop (Suc n) p) # s)
      else case read_exact (Suc n - length p) s of
             (Inl e, t) \<Rightarrow> (Inl e, t)
           | (Inr bs, t) \<Rightarrow> (Inr (p @ bs), t))"

text \<open>\<open>arrives s bs\<close>: the stream delivers the bytes \<open>bs\<close>, in some pieces, and then ends.\<close>

definition arrives :: "stream \<Rightarrow> bytes \<Rightarrow> bool" where
  "arrives s bs = (\<exists>ps. s = map Some ps \<and> [] \<notin> set ps \<and> concat ps = bs)"

lemma arrives_Nil [simp]: "arrives [] bs \<longleftrightarrow> bs = []"
  by (auto simp: arrives_def)

lemma arrives_None [simp]: "\<not> arrives (None # s) bs"
  by (auto simp: arrives_def)

lemma arrives_Some [simp]:
  "arrives (Some p # s) bs \<longleftrightarrow> p \<noteq> [] \<and> (\<exists>cs. arrives s cs \<and> bs = p @ cs)"
  by (auto simp: arrives_def Cons_eq_map_conv)

lemma arrives_unique: "arrives s bs \<Longrightarrow> arrives s cs \<Longrightarrow> bs = cs"
  by (auto simp: arrives_def inj_map_eq_map)

lemma arrives_single [simp]: "bs \<noteq> [] \<Longrightarrow> arrives [Some bs] bs"
  by simp

text \<open>Reading does not depend on how the bytes are cut into pieces.\<close>

lemma read_exact_arrives:
  assumes "arrives s bs" "n \<le> length bs"
  obtains t where "read_exact n s = (Inr (take n bs), t)" "arrives t (drop n bs)"
proof -
  have "\<exists>t. read_exact n s = (Inr (take n bs), t) \<and> arrives t (drop n bs)"
    using assms
  proof (induction n s arbitrary: bs rule: read_exact.induct)
    case (4 n p s)
    then obtain cs where cs: "p \<noteq> []" "arrives s cs" "bs = p @ cs" by auto
    show ?case
    proof (cases "Suc n < length p")
      case False
      moreover have "Suc n - length p \<le> length cs"
        using 4(3) cs(3) by simp
      ultimately obtain t where "read_exact (Suc n - length p) s = (Inr (take (Suc n - length p) cs), t)"
        "arrives t (drop (Suc n - length p) cs)"
        using 4(1) [OF cs(1) False cs(2)] by blast
      then show ?thesis using False cs by simp
    qed (use cs in auto)
  qed auto
  then show thesis using that by blast
qed

lemma read_exact_short:
  assumes "arrives s bs" "length bs < n"
  shows "fst (read_exact n s) = Inl UnexpectedEof"
  using assms
proof (induction n s arbitrary: bs rule: read_exact.induct)
  case (4 n p s)
  then obtain cs where cs: "p \<noteq> []" "arrives s cs" "bs = p @ cs" by auto
  then have *: "\<not> Suc n < length p" "length cs < Suc n - length p"
    using 4(3) by auto
  have "fst (read_exact (Suc n - length p) s) = Inl UnexpectedEof"
    using 4(1) [OF cs(1) *(1) cs(2) *(2)] .
  then show ?case
    using cs(1) * by (auto split: prod.splits sum.splits)
qed auto

lemma read_some_arrives:
  assumes "arrives s bs" "0 < n" "bs \<noteq> []"
  obtains k t where "0 < k" "k \<le> n" "k \<le> length bs" "read_some n s = (Inr (take k bs), t)" "arrives t (drop k bs)"
proof (cases s)
  case (Cons x r)
  then obtain p cs where p: "x = Some p" "p \<noteq> []" "arrives r cs" "bs = p @ cs"
    using assms by (cases x) auto
  show thesis
  proof (rule that [of "min n (length p)"])
    show "read_some n s = (Inr (take (min n (length p)) bs), if length p \<le> n then r else Some (drop n p) # r)"
      using Cons p by (simp add: min_def)
    show "arrives (if length p \<le> n then r else Some (drop n p) # r) (drop (min n (length p)) bs)"
      using p by (auto simp: min_def)
  qed (use p assms in auto)
qed (use assms in simp)

lemma read_some_eof: "arrives s [] \<Longrightarrow> read_some n s = (Inr [], [])"
  by (cases s) (auto simp: arrives_def)


lemma read_exact_append:
  assumes "arrives s (bs @ rest)" "n = length bs"
  obtains t where "read_exact n s = (Inr bs, t)" "arrives t rest"
  by (rule read_exact_arrives [OF assms(1), of n]) (use assms(2) that in auto)


section \<open>Framing\<close>

text \<open>A protocol that sends messages over a byte stream promises that a receiver that finds the bytes of a
message at the head of the stream reads that message and nothing more. Then a sequence of messages is
received in the order in which it was sent.\<close>

fun recv_many ::
    "(stream \<Rightarrow> (io_error, 'm) result \<times> stream) \<Rightarrow> nat \<Rightarrow> stream \<Rightarrow> (io_error, 'm list) result \<times> stream" where
  "recv_many recv 0 s = (Inr [], s)"
| "recv_many recv (Suc n) s =
     (case recv s of
        (Inl e, t) \<Rightarrow> (Inl e, t)
      | (Inr m, t) \<Rightarrow>
          (case recv_many recv n t of
             (Inl e, u) \<Rightarrow> (Inl e, u)
           | (Inr ms, u) \<Rightarrow> (Inr (m # ms), u)))"

locale framing =
  fixes send :: "'m \<Rightarrow> ('e, bytes) result"
    and recv :: "stream \<Rightarrow> (io_error, 'm) result \<times> stream"
    and sendable :: "'m \<Rightarrow> bool"
  assumes frame: "\<lbrakk>send m = Inr bs; sendable m; arrives s (bs @ rest)\<rbrakk> \<Longrightarrow>
    \<exists>t. recv s = (Inr m, t) \<and> arrives t rest"
begin

lemma in_order:
  assumes "mapM send ms = Inr bss" "list_all sendable ms" "arrives s (concat bss @ rest)"
  shows "\<exists>t. recv_many recv (length ms) s = (Inr ms, t) \<and> arrives t rest"
  using assms
proof (induction ms arbitrary: bss s)
  case (Cons m ms)
  then obtain bs bss' where b: "send m = Inr bs" "mapM send ms = Inr bss'" "bss = bs # bss'"
    by (auto simp: and_then_Inr_iff)
  then obtain t where t: "recv s = (Inr m, t)" "arrives t (concat bss' @ rest)"
    using frame [of m bs s "concat bss' @ rest"] Cons.prems by auto
  then show ?case
    using Cons.IH [OF b(2) _ t(2)] Cons.prems by auto
qed auto

end

end
