(* ===== verification/Net_Addr.thy ===== *)
theory Net_Addr
  imports Wire
begin

text \<open>Internet addresses as the Rust standard library reads and prints them (\<open>core::net\<close>): the parser
behind \<open>str::parse\<close> for \<open>IpAddr\<close> and \<open>SocketAddr\<close>, the \<open>Display\<close> output, and the parsing of unsigned
integers. Text is a \<open>str\<close> of \<open>Wire\<close>. The address part of a socket address carries the scope id of IPv6;
its flow label is always zero in what the sources build.\<close>

section \<open>Addresses\<close>

fun octets :: "IpAddr \<Rightarrow> u8 list" where
  "octets (V4 a b c d) = [a, b, c, d]"
| "octets (V6 bs) = bs"

fun ip_ok :: "IpAddr \<Rightarrow> bool" where
  "ip_ok (V4 _ _ _ _) = True"
| "ip_ok (V6 bs) = (length bs = 16)"

fun is_ipv4 :: "IpAddr \<Rightarrow> bool" where
  "is_ipv4 (V4 _ _ _ _) = True"
| "is_ipv4 (V6 _) = False"

record SocketAddr =
  sa_ip :: IpAddr
  sa_port :: u16
  sa_scope :: u32

definition socket_addr :: "IpAddr \<Rightarrow> u16 \<Rightarrow> SocketAddr" where
  "socket_addr ip port = \<lparr> sa_ip = ip, sa_port = port, sa_scope = 0 \<rparr>"

section \<open>Parsing\<close>

definition to_digit :: "nat \<Rightarrow> nat \<Rightarrow> nat option" where
  "to_digit radix c =
     (let d = (if 48 \<le> c \<and> c \<le> 57 then Some (c - 48)
               else if 97 \<le> c \<and> c \<le> 122 then Some (c - 87)
               else if 65 \<le> c \<and> c \<le> 90 then Some (c - 55)
               else None)
      in case d of Some v \<Rightarrow> if v < radix then Some v else None | None \<Rightarrow> None)"

definition radix_value :: "nat \<Rightarrow> str \<Rightarrow> nat" where
  "radix_value radix ds = foldl (\<lambda>r c. r * radix + the (to_digit radix c)) 0 ds"

definition leading_digits :: "nat \<Rightarrow> str \<Rightarrow> str" where
  "leading_digits radix s = takeWhile (\<lambda>c. to_digit radix c \<noteq> None) s"

definition read_number :: "nat \<Rightarrow> nat option \<Rightarrow> bool \<Rightarrow> nat \<Rightarrow> str \<Rightarrow> (nat \<times> str) option" where
  "read_number radix max_digits allow_zero_prefix max_value s =
     (let ds = leading_digits radix s; v = radix_value radix ds in
      if ds = [] then None
      else if (case max_digits of Some m \<Rightarrow> m < length ds | None \<Rightarrow> False) then None
      else if max_value < v then None
      else if \<not> allow_zero_prefix \<and> hd ds = 48 \<and> 1 < length ds then None
      else Some (v, drop (length ds) s))"

definition read_char :: "nat \<Rightarrow> str \<Rightarrow> str option" where
  "read_char c s = (case s of x # r \<Rightarrow> if x = c then Some r else None | [] \<Rightarrow> None)"

definition read_separator :: "nat \<Rightarrow> nat \<Rightarrow> (str \<Rightarrow> ('a \<times> str) option) \<Rightarrow> str \<Rightarrow> ('a \<times> str) option" where
  "read_separator sep i f s = (if 0 < i then Option.bind (read_char sep s) f else f s)"

fun read_octets :: "nat \<Rightarrow> nat \<Rightarrow> str \<Rightarrow> (nat list \<times> str) option" where
  "read_octets i 0 s = Some ([], s)"
| "read_octets i (Suc k) s =
     Option.bind (read_separator 46 i (read_number 10 (Some 3) False 255) s) (\<lambda>(v, r).
     Option.bind (read_octets (Suc i) k r) (\<lambda>(vs, t). Some (v # vs, t)))"

definition read_ipv4 :: "str \<Rightarrow> (nat list \<times> str) option" where
  "read_ipv4 s = read_octets 0 4 s"

text \<open>\<open>read_groups i k s\<close> reads at most \<open>k\<close> groups, the first of which has index \<open>i\<close>; the flag says that
the last two come from a trailing IPv4 address.\<close>

fun read_groups :: "nat \<Rightarrow> nat \<Rightarrow> str \<Rightarrow> nat list \<times> bool \<times> str" where
  "read_groups i 0 s = ([], False, s)"
| "read_groups i (Suc k) s =
     (case (if 0 < k then read_separator 58 i read_ipv4 s else None) of
        Some (vs, r) \<Rightarrow> ([vs ! 0 * 256 + vs ! 1, vs ! 2 * 256 + vs ! 3], True, r)
      | None \<Rightarrow>
          (case read_separator 58 i (read_number 16 (Some 4) True 65535) s of
             Some (g, r) \<Rightarrow> (let (gs, v4, t) = read_groups (Suc i) k r in (g # gs, v4, t))
           | None \<Rightarrow> ([], False, s)))"

definition read_ipv6 :: "str \<Rightarrow> (nat list \<times> str) option" where
  "read_ipv6 s =
     (let (head, v4, r) = read_groups 0 8 s in
      if length head = 8 then Some (head, r)
      else if v4 then None
      else Option.bind (read_char 58 r) (\<lambda>r.
           Option.bind (read_char 58 r) (\<lambda>r.
           let (tail, _, t) = read_groups 0 (8 - (length head + 1)) r
           in Some (head @ replicate (8 - length head - length tail) 0 @ tail, t))))"

definition ipv4_of :: "nat list \<Rightarrow> IpAddr" where
  "ipv4_of vs = V4 (byte (vs ! 0)) (byte (vs ! 1)) (byte (vs ! 2)) (byte (vs ! 3))"

definition ipv6_of :: "nat list \<Rightarrow> IpAddr" where
  "ipv6_of gs = V6 (concat (map (be_bytes 2) gs))"

definition read_ip :: "str \<Rightarrow> (IpAddr \<times> str) option" where
  "read_ip s =
     (case read_ipv4 s of
        Some (vs, r) \<Rightarrow> Some (ipv4_of vs, r)
      | None \<Rightarrow> (case read_ipv6 s of Some (gs, r) \<Rightarrow> Some (ipv6_of gs, r) | None \<Rightarrow> None))"

definition parse_with :: "(str \<Rightarrow> ('a \<times> str) option) \<Rightarrow> str \<Rightarrow> 'a option" where
  "parse_with f s = (case f s of Some (x, r) \<Rightarrow> if r = [] then Some x else None | None \<Rightarrow> None)"

definition parse_ip :: "str \<Rightarrow> IpAddr option" where
  "parse_ip = parse_with read_ip"

definition read_port :: "str \<Rightarrow> (nat \<times> str) option" where
  "read_port s = Option.bind (read_char 58 s) (read_number 10 None True 65535)"

definition read_scope_id :: "str \<Rightarrow> (nat \<times> str) option" where
  "read_scope_id s = Option.bind (read_char 37 s) (read_number 10 None True 4294967295)"

definition read_socket_v4 :: "str \<Rightarrow> (SocketAddr \<times> str) option" where
  "read_socket_v4 s =
     Option.bind (read_ipv4 s) (\<lambda>(vs, r).
     Option.bind (read_port r) (\<lambda>(p, t). Some (socket_addr (ipv4_of vs) (word_of_nat p), t)))"

definition read_socket_v6 :: "str \<Rightarrow> (SocketAddr \<times> str) option" where
  "read_socket_v6 s =
     Option.bind (read_char 91 s) (\<lambda>r.
     Option.bind (read_ipv6 r) (\<lambda>(gs, r).
     let (scope, r) = (case read_scope_id r of Some x \<Rightarrow> x | None \<Rightarrow> (0, r)) in
     Option.bind (read_char 93 r) (\<lambda>r.
     Option.bind (read_port r) (\<lambda>(p, t).
     Some (\<lparr> sa_ip = ipv6_of gs, sa_port = word_of_nat p, sa_scope = word_of_nat scope \<rparr>, t)))))"

definition parse_socket_addr :: "str \<Rightarrow> SocketAddr option" where
  "parse_socket_addr =
     parse_with (\<lambda>s. case read_socket_v4 s of Some x \<Rightarrow> Some x | None \<Rightarrow> read_socket_v6 s)"

text \<open>\<open>str::parse\<close> for an unsigned integer: an optional plus sign and at least one digit.\<close>

definition parse_uint :: "nat \<Rightarrow> str \<Rightarrow> nat option" where
  "parse_uint max_value s =
     (let ds = (if 1 < length s \<and> hd s = 43 then tl s else s) in
      if ds \<noteq> [] \<and> list_all (\<lambda>c. to_digit 10 c \<noteq> None) ds \<and> radix_value 10 ds \<le> max_value
      then Some (radix_value 10 ds) else None)"

section \<open>Printing\<close>

definition show_nat :: "nat \<Rightarrow> str" where
  "show_nat n = lit (nat_to_string n)"

fun show_hex :: "nat \<Rightarrow> str" where
  "show_hex n = (if n < 16 then lit [digit_char n] else show_hex (n div 16) @ lit [digit_char (n mod 16)])"

declare show_hex.simps [simp del]

fun join_str :: "str \<Rightarrow> str list \<Rightarrow> str" where
  "join_str sep [] = []"
| "join_str sep [x] = x"
| "join_str sep (x # y # ys) = x @ sep @ join_str sep (y # ys)"

definition show_ipv4 :: "u8 list \<Rightarrow> str" where
  "show_ipv4 bs = join_str [46] (map (\<lambda>b. show_nat (unat b)) bs)"

fun segments :: "u8 list \<Rightarrow> nat list" where
  "segments (a # b # bs) = from_be [a, b] # segments bs"
| "segments _ = []"

text \<open>The longest run of zero groups, the first of them when there are several: start and length.\<close>

fun longest_zeros :: "nat \<Rightarrow> nat \<times> nat \<Rightarrow> nat \<times> nat \<Rightarrow> nat list \<Rightarrow> nat \<times> nat" where
  "longest_zeros i cur best [] = best"
| "longest_zeros i cur best (g # gs) =
     (if g = 0 then
        let cur = (if snd cur = 0 then i else fst cur, Suc (snd cur))
        in longest_zeros (Suc i) cur (if snd best < snd cur then cur else best) gs
      else longest_zeros (Suc i) (0, 0) best gs)"

definition show_segments :: "nat list \<Rightarrow> str" where
  "show_segments gs = join_str [58] (map show_hex gs)"

definition show_ipv6 :: "u8 list \<Rightarrow> str" where
  "show_ipv6 bs =
     (if take 12 bs = replicate 10 0 @ [0xFF, 0xFF] then lit ''::ffff:'' @ show_ipv4 (drop 12 bs)
      else let gs = segments bs; (start, len) = longest_zeros 0 (0, 0) (0, 0) gs in
           if 1 < len then show_segments (take start gs) @ lit ''::'' @ show_segments (drop (start + len) gs)
           else show_segments gs)"

fun show_ip :: "IpAddr \<Rightarrow> str" where
  "show_ip (V4 a b c d) = show_ipv4 [a, b, c, d]"
| "show_ip (V6 bs) = show_ipv6 bs"

definition show_socket_addr :: "SocketAddr \<Rightarrow> str" where
  "show_socket_addr a =
     (if is_ipv4 (sa_ip a) then show_ip (sa_ip a) @ [58] @ show_nat (unat (sa_port a))
      else if sa_scope a = 0 then [91] @ show_ip (sa_ip a) @ [93, 58] @ show_nat (unat (sa_port a))
      else [91] @ show_ip (sa_ip a) @ [37] @ show_nat (unat (sa_scope a)) @ [93, 58] @ show_nat (unat (sa_port a)))"


section \<open>What the parser returns\<close>

lemma length_read_groups: "length (fst (read_groups i k s)) \<le> k"
  by (induction i k s rule: read_groups.induct)
     (auto split: option.splits prod.splits if_splits simp: read_separator_def Let_def)

lemma length_read_ipv6:
  assumes "read_ipv6 s = Some (gs, r)"
  shows "length gs = 8"
proof -
  obtain head v4 r1 where h: "read_groups 0 8 s = (head, v4, r1)"
    by (cases "read_groups 0 8 s") auto
  have le: "length head \<le> 8" using length_read_groups [of 0 8 s] h by simp
  show ?thesis
  proof (cases "length head = 8")
    case True
    then show ?thesis using assms h by (simp add: read_ipv6_def)
  next
    case False
    then obtain r2 where gs: "gs = head @ replicate (8 - length head - length (fst (read_groups 0 (8 - (length head + 1)) r2))) 0
        @ fst (read_groups 0 (8 - (length head + 1)) r2)"
      using assms h
      by (auto simp: read_ipv6_def bind_eq_Some_conv case_prod_beta simp del: read_groups.simps split: if_splits)
    have "length (fst (read_groups 0 (8 - (length head + 1)) r2)) \<le> 8 - (length head + 1)"
      by (rule length_read_groups)
    then show ?thesis using gs le False by simp
  qed
qed

lemma length_concat_be: "length (concat (map (be_bytes k) gs)) = k * length gs"
  by (induction gs) auto

lemma parse_ip_ok: "parse_ip s = Some ip \<Longrightarrow> ip_ok ip"
  by (auto simp: parse_ip_def parse_with_def read_ip_def ipv4_of_def ipv6_of_def length_concat_be
      dest!: length_read_ipv6 split: option.splits prod.splits if_splits)


text \<open>Evaluation of the parsers on literals.\<close>

lemmas read_octets_numeral = read_octets.simps(2) [of _ "pred_numeral k" for k, folded numeral_eq_Suc]
lemmas read_groups_numeral = read_groups.simps(2) [of _ "pred_numeral k" for k, folded numeral_eq_Suc]

lemmas addr_eval = lit_def of_char_Char str_trim_def is_ws_def split_once_def parse_uint_def
  parse_ip_def parse_with_def read_ip_def read_ipv4_def read_number_def leading_digits_def to_digit_def radix_value_def
  read_separator_def read_char_def ipv4_of_def byte_def parse_socket_addr_def read_socket_v4_def read_socket_v6_def
  read_port_def socket_addr_def read_octets_numeral read_groups_numeral

end
