(* ===== verification/Trusted_Source.thy ===== *)
theory Trusted_Source
  imports Net_Addr
begin

text \<open>Who is the client: trusted upstreams and the source of a request (\<open>TrustedUpstreamMatcher\<close>,
\<open>parse_trusted_upstreams\<close>, \<open>parse_forwarded_entry\<close>, \<open>resolve_trusted_forwarded_source\<close> and
\<open>resolve_request_sources\<close> in \<open>server/http_server.rs\<close>; \<open>RequestSourceInfo\<close> in \<open>server/server.rs\<close>).

A header map of the \<open>http\<close> crate is represented by what the code asks it for: the values of
\<open>X-Forwarded-For\<close> in order and the first value of \<open>X-Real-IP\<close> and \<open>X-Real-Port\<close>, where an inner
\<open>None\<close> is a value that \<open>to_str\<close> rejects.\<close>

section \<open>Matchers\<close>

record TrustedUpstreamMatcher =
  network :: IpAddr
  prefix_len :: nat

datatype matcher_error = InvalidCidrPrefix str | InvalidIpAddress str | CidrPrefixOutOfRange str

definition matcher_parse :: "str \<Rightarrow> (matcher_error, TrustedUpstreamMatcher) result" where
  "matcher_parse pattern =
     (let pattern = str_trim pattern in
      and_then
        (case split_once 47 pattern of
           Some (addr, prefix) \<Rightarrow>
             (case parse_uint 255 prefix of
                None \<Rightarrow> Inl (InvalidCidrPrefix pattern)
              | Some p \<Rightarrow> Inr (addr, Some p))
         | None \<Rightarrow> Inr (pattern, None))
        (\<lambda>(addr_str, prefix).
           case parse_ip (str_trim addr_str) of
             None \<Rightarrow> Inl (InvalidIpAddress pattern)
           | Some net \<Rightarrow>
               (let max_prefix = (case net of V4 _ _ _ _ \<Rightarrow> 32 | V6 _ \<Rightarrow> 128);
                    p = (case prefix of Some p \<Rightarrow> p | None \<Rightarrow> max_prefix)
                in if max_prefix < p then Inl (CidrPrefixOutOfRange pattern)
                   else Inr \<lparr> network = net, prefix_len = p \<rparr>)))"

definition prefix_eq :: "u8 list \<Rightarrow> u8 list \<Rightarrow> nat \<Rightarrow> bool" where
  "prefix_eq a b p =
     (let full = p div 8; rem = p mod 8 in
      if take full a \<noteq> take full b then False
      else if rem = 0 then True
      else let mask = push_bit (8 - rem) (0xFF :: u8)
           in and (a ! full) mask = and (b ! full) mask)"

fun matches :: "TrustedUpstreamMatcher \<Rightarrow> IpAddr \<Rightarrow> bool" where
  "matches m ip =
     (case (network m, ip) of
        (V4 _ _ _ _, V4 _ _ _ _) \<Rightarrow> prefix_eq (octets (network m)) (octets ip) (prefix_len m)
      | (V6 _, V6 _) \<Rightarrow> prefix_eq (octets (network m)) (octets ip) (prefix_len m)
      | _ \<Rightarrow> False)"

definition parse_trusted_upstreams :: "str list \<Rightarrow> (matcher_error, TrustedUpstreamMatcher list) result" where
  "parse_trusted_upstreams patterns = mapM matcher_parse patterns"

definition trusted_by :: "TrustedUpstreamMatcher list \<Rightarrow> IpAddr \<Rightarrow> bool" where
  "trusted_by trusted ip = list_ex (\<lambda>m. matches m ip) trusted"

section \<open>Forwarded headers\<close>

record headers =
  x_forwarded_for :: "str option list"
  x_real_ip :: "str option option"
  x_real_port :: "str option option"

definition parse_forwarded_entry :: "str \<Rightarrow> (str \<times> IpAddr) option" where
  "parse_forwarded_entry entry =
     (let entry = str_trim entry in
      if entry = [] then None
      else case parse_socket_addr entry of
        Some addr \<Rightarrow> Some (entry, sa_ip addr)
      | None \<Rightarrow> (case parse_ip entry of Some ip \<Rightarrow> Some (entry, ip) | None \<Rightarrow> None))"

definition forwarded_entries :: "str option list \<Rightarrow> str list" where
  "forwarded_entries values =
     concat (map (\<lambda>v. case v of
                        Some v \<Rightarrow> filter (\<lambda>s. s \<noteq> []) (map str_trim (str_split_by (\<lambda>c. c = 44) v))
                      | None \<Rightarrow> []) values)"

text \<open>The loop over the entries, from the right; the argument is the reversed list.\<close>

fun walk_entries :: "TrustedUpstreamMatcher list \<Rightarrow> str option \<Rightarrow> str list \<Rightarrow> str option" where
  "walk_entries trusted candidate [] = candidate"
| "walk_entries trusted candidate (entry # rest) =
     (case parse_forwarded_entry entry of
        Some (addr, ip) \<Rightarrow>
          if \<not> trusted_by trusted ip then Some addr else walk_entries trusted (Some addr) rest
      | None \<Rightarrow> None)"

definition resolve_real_ip :: "headers \<Rightarrow> str option" where
  "resolve_real_ip hs =
     Option.bind (x_real_ip hs) (\<lambda>v.
     Option.bind v (\<lambda>v.
     let real_ip = str_trim v in
     case parse_socket_addr real_ip of
       Some addr \<Rightarrow> Some (show_socket_addr addr)
     | None \<Rightarrow>
         Option.bind (parse_ip real_ip) (\<lambda>ip.
         case Option.bind (x_real_port hs) (\<lambda>v. Option.bind v (\<lambda>v. parse_uint 65535 (str_trim v))) of
           Some port \<Rightarrow> Some (show_socket_addr (socket_addr ip (word_of_nat port)))
         | None \<Rightarrow> Some (show_ip ip))))"

definition resolve_trusted_forwarded_source :: "headers \<Rightarrow> TrustedUpstreamMatcher list \<Rightarrow> str option" where
  "resolve_trusted_forwarded_source hs trusted =
     (let candidate = walk_entries trusted None (rev (forwarded_entries (x_forwarded_for hs))) in
      if candidate \<noteq> None then candidate else resolve_real_ip hs)"

section \<open>Sources of a request\<close>

record StreamInfo =
  src_addr :: "str option"
  conn_src_addr :: "str option"
  real_src_addr :: "str option"

record RequestSourceInfo =
  source_addr :: "str option"
  source_ip :: "str option"
  source_port :: "str option"
  conn_source_addr :: "str option"
  conn_source_ip :: "str option"
  conn_source_port :: "str option"
  real_source_addr :: "str option"
  real_source_ip :: "str option"
  real_source_port :: "str option"

definition default_sources :: RequestSourceInfo where
  "default_sources =
     \<lparr> source_addr = None, source_ip = None, source_port = None,
       conn_source_addr = None, conn_source_ip = None, conn_source_port = None,
       real_source_addr = None, real_source_ip = None, real_source_port = None \<rparr>"

definition addr_group_from_str :: "str \<Rightarrow> str option \<times> str option \<times> str option" where
  "addr_group_from_str addr =
     (case parse_socket_addr addr of
        Some a \<Rightarrow> (Some addr, Some (show_ip (sa_ip a)), Some (show_nat (unat (sa_port a))))
      | None \<Rightarrow> (case parse_ip addr of
          Some _ \<Rightarrow> (Some addr, Some addr, None)
        | None \<Rightarrow> (Some addr, None, None)))"

definition set_source :: "str option \<times> str option \<times> str option \<Rightarrow> RequestSourceInfo \<Rightarrow> RequestSourceInfo" where
  "set_source g s = s\<lparr> source_addr := fst g, source_ip := fst (snd g), source_port := snd (snd g) \<rparr>"

definition set_conn_source :: "str option \<times> str option \<times> str option \<Rightarrow> RequestSourceInfo \<Rightarrow> RequestSourceInfo" where
  "set_conn_source g s = s\<lparr> conn_source_addr := fst g, conn_source_ip := fst (snd g), conn_source_port := snd (snd g) \<rparr>"

definition set_restored_source :: "str option \<times> str option \<times> str option \<Rightarrow> RequestSourceInfo \<Rightarrow> RequestSourceInfo" where
  "set_restored_source g s = s\<lparr> real_source_addr := fst g, real_source_ip := fst (snd g), real_source_port := snd (snd g) \<rparr>"

definition from_stream_info :: "StreamInfo \<Rightarrow> RequestSourceInfo" where
  "from_stream_info info =
     (let this = default_sources;
          this = (case src_addr info of Some addr \<Rightarrow> set_source (addr_group_from_str addr) this | None \<Rightarrow> this);
          this = (case conn_src_addr info of Some addr \<Rightarrow> set_conn_source (addr_group_from_str addr) this | None \<Rightarrow> this)
      in (case real_src_addr info of Some addr \<Rightarrow> set_restored_source (addr_group_from_str addr) this | None \<Rightarrow> this))"

definition set_real_source :: "str \<Rightarrow> RequestSourceInfo \<Rightarrow> RequestSourceInfo" where
  "set_real_source addr s = set_source (addr_group_from_str addr) (set_restored_source (addr_group_from_str addr) s)"

definition source_get :: "RequestSourceInfo \<Rightarrow> string \<Rightarrow> str option" where
  "source_get s key =
     (if key = ''source_addr'' then source_addr s
      else if key = ''source_ip'' then source_ip s
      else if key = ''source_port'' then source_port s
      else if key = ''conn_source_addr'' then conn_source_addr s
      else if key = ''conn_source_ip'' then conn_source_ip s
      else if key = ''conn_source_port'' then conn_source_port s
      else if key = ''real_source_addr'' then real_source_addr s
      else if key = ''real_source_ip'' then real_source_ip s
      else if key = ''real_source_port'' then real_source_port s
      else None)"

definition HTTP_REQ_SOURCE_KEYS :: "string list" where
  "HTTP_REQ_SOURCE_KEYS =
     [''source_addr'', ''source_ip'', ''source_port'', ''conn_source_addr'', ''conn_source_ip'',
      ''conn_source_port'', ''real_source_addr'', ''real_source_ip'', ''real_source_port'']"

definition is_reserved_key :: "string \<Rightarrow> bool" where
  "is_reserved_key key = (key \<in> set HTTP_REQ_SOURCE_KEYS)"

definition present_entries :: "RequestSourceInfo \<Rightarrow> (string \<times> str) list" where
  "present_entries s = List.map_filter (\<lambda>key. map_option (Pair key) (source_get s key)) HTTP_REQ_SOURCE_KEYS"

definition resolve_request_sources ::
    "TrustedUpstreamMatcher list \<Rightarrow> StreamInfo \<Rightarrow> headers \<Rightarrow> RequestSourceInfo" where
  "resolve_request_sources trusted info hs =
     (let sources = from_stream_info info in
      if trusted = [] then sources
      else if real_source_addr sources \<noteq> None then sources
      else let direct_hop = (case conn_source_ip sources of Some ip \<Rightarrow> Some ip | None \<Rightarrow> source_ip sources) in
           case Option.bind direct_hop parse_ip of
             None \<Rightarrow> sources
           | Some direct_hop_ip \<Rightarrow>
               if \<not> trusted_by trusted direct_hop_ip then sources
               else case resolve_trusted_forwarded_source hs trusted of
                 Some real \<Rightarrow> set_real_source real sources
               | None \<Rightarrow> sources)"


section \<open>CIDR matching\<close>

text \<open>Bit \<open>i\<close> of an address, counted from its most significant bit.\<close>

definition addr_bit :: "u8 list \<Rightarrow> nat \<Rightarrow> bool" where
  "addr_bit bs i = bit (bs ! (i div 8)) (7 - i mod 8)"

definition same_prefix :: "u8 list \<Rightarrow> u8 list \<Rightarrow> nat \<Rightarrow> bool" where
  "same_prefix a b p = (\<forall>i < p. addr_bit a i = addr_bit b i)"

lemma u8_eq_iff_bits: "(x :: u8) = y \<longleftrightarrow> (\<forall>j < 8. bit x (7 - j) = bit y (7 - j))"
proof
  assume bits: "\<forall>j < 8. bit x (7 - j) = bit y (7 - j)"
  show "x = y"
  proof (rule bit_word_eqI)
    fix n assume "n < LENGTH(8)"
    then have "n < 8" by simp
    then have "7 - (7 - n) = n" "7 - n < 8" by simp_all
    then show "bit x n = bit y n" using bits by metis
  qed
qed simp

lemma u8_mask_eq_iff:
  assumes "r < 8"
  shows "and (x :: u8) (push_bit (8 - r) 0xFF) = and y (push_bit (8 - r) 0xFF)
     \<longleftrightarrow> (\<forall>j < r. bit x (7 - j) = bit y (7 - j))"
proof -
  have ff: "bit (0xFF :: u8) n \<longleftrightarrow> n < 8" for n
  proof -
    have "(0xFF :: u8) = mask 8" by (simp add: mask_eq_exp_minus_1)
    then show ?thesis by (simp only: bit_mask_iff) simp
  qed
  have m: "bit (push_bit (8 - r) (0xFF :: u8)) (7 - j) \<longleftrightarrow> j < r" if "j < 8" for j
  proof -
    have "bit (push_bit (8 - r) w) (7 - j) \<longleftrightarrow> j < r \<and> bit w (r - Suc j)" for w :: u8
      using assms that by (auto simp: bit_push_bit_iff)
    then show ?thesis using assms by (simp only: ff) auto
  qed
  show ?thesis
    by (subst u8_eq_iff_bits) (use m assms in \<open>simp add: bit_and_iff; meson less_trans\<close>)
qed

lemma take_eq_iff_bits:
  fixes a b :: "u8 list"
  assumes "n \<le> length a" "n \<le> length b"
  shows "take n a = take n b \<longleftrightarrow> same_prefix a b (8 * n)"
proof -
  have "take n a = take n b \<longleftrightarrow> (\<forall>k < n. a ! k = b ! k)"
    using assms by (auto simp: list_eq_iff_nth_eq)
  also have "\<dots> \<longleftrightarrow> (\<forall>k < n. \<forall>j < 8. addr_bit a (8 * k + j) = addr_bit b (8 * k + j))"
    by (simp add: u8_eq_iff_bits addr_bit_def)
  also have "\<dots> \<longleftrightarrow> same_prefix a b (8 * n)"
  proof
    assume *: "\<forall>k < n. \<forall>j < 8. addr_bit a (8 * k + j) = addr_bit b (8 * k + j)"
    show "same_prefix a b (8 * n)"
      unfolding same_prefix_def
    proof (intro allI impI)
      fix i assume "i < 8 * n"
      then have "i div 8 < n" by (simp add: less_mult_imp_div_less mult.commute)
      then have "addr_bit a (8 * (i div 8) + i mod 8) = addr_bit b (8 * (i div 8) + i mod 8)"
        by (intro * [rule_format]) simp_all
      then show "addr_bit a i = addr_bit b i" by simp
    qed
  next
    assume "same_prefix a b (8 * n)"
    then show "\<forall>k < n. \<forall>j < 8. addr_bit a (8 * k + j) = addr_bit b (8 * k + j)"
      unfolding same_prefix_def by auto
  qed
  finally show ?thesis .
qed

lemma all_less_add: "(\<forall>i < m + r. P i) \<longleftrightarrow> (\<forall>i < m. P i) \<and> (\<forall>j < r. P (m + j))" for m r :: nat
proof
  assume *: "(\<forall>i < m. P i) \<and> (\<forall>j < r. P (m + j))"
  show "\<forall>i < m + r. P i"
  proof (intro allI impI)
    fix i assume "i < m + r"
    show "P i"
    proof (cases "i < m")
      case False
      then have "P (m + (i - m))" using * \<open>i < m + r\<close> by (intro * [THEN conjunct2, rule_format]) simp
      then show ?thesis using False by simp
    qed (use * in simp)
  qed
qed simp

lemma prefix_eq_iff_bits:
  assumes "p \<le> 8 * length a" "length a = length b"
  shows "prefix_eq a b p \<longleftrightarrow> same_prefix a b p"
proof -
  let ?f = "p div 8" and ?r = "p mod 8"
  have p: "p = 8 * ?f + ?r" by simp
  have f: "?f \<le> length a" "?f \<le> length b" using assms by auto
  have split: "same_prefix a b (8 * k + r) \<longleftrightarrow>
      same_prefix a b (8 * k) \<and> (\<forall>j < r. bit (a ! k) (7 - j) = bit (b ! k) (7 - j))" if "r < 8" for k r
  proof -
    have "addr_bit c (8 * k + j) = bit (c ! k) (7 - j)" if "j < r" for c j
      using that \<open>r < 8\<close> by (simp add: addr_bit_def)
    then show ?thesis unfolding same_prefix_def all_less_add by auto
  qed
  show ?thesis
  proof (cases "?r = 0")
    case True
    then show ?thesis
      using take_eq_iff_bits [OF f] p by (simp add: prefix_eq_def Let_def)
  next
    case False
    have "prefix_eq a b p \<longleftrightarrow> take ?f a = take ?f b \<and> (\<forall>j < ?r. bit (a ! ?f) (7 - j) = bit (b ! ?f) (7 - j))"
      using False u8_mask_eq_iff [of ?r "a ! ?f" "b ! ?f"] by (simp add: prefix_eq_def Let_def)
    then show ?thesis
      using take_eq_iff_bits [OF f] split [of ?r ?f] by simp
  qed
qed

lemma same_prefix_list: "same_prefix a b p = list_all (\<lambda>i. addr_bit a i = addr_bit b i) [0..<p]"
  by (auto simp: same_prefix_def list_all_iff)

definition matcher_ok :: "TrustedUpstreamMatcher \<Rightarrow> bool" where
  "matcher_ok m = (ip_ok (network m) \<and> prefix_len m \<le> 8 * length (octets (network m)))"

lemma matcher_parse_ok:
  assumes "matcher_parse pattern = Inr m"
  shows "matcher_ok m"
proof -
  obtain addr prefix where step: "(case parse_ip (str_trim addr) of
        None \<Rightarrow> Inl (InvalidIpAddress (str_trim pattern))
      | Some net \<Rightarrow> (let max_prefix = (case net of V4 _ _ _ _ \<Rightarrow> 32 | V6 _ \<Rightarrow> 128);
                          p = (case prefix of Some p \<Rightarrow> p | None \<Rightarrow> max_prefix)
                      in if max_prefix < p then Inl (CidrPrefixOutOfRange (str_trim pattern))
                         else Inr \<lparr> network = net, prefix_len = p \<rparr>)) = Inr m"
    using assms by (auto simp: matcher_parse_def and_then_Inr_iff Let_def)
  then obtain net where net: "parse_ip (str_trim addr) = Some net"
    by (cases "parse_ip (str_trim addr)") auto
  show ?thesis
    using step net parse_ip_ok [OF net]
    by (cases net; cases prefix) (auto simp: matcher_ok_def split: if_splits)
qed

lemma matches_iff:
  assumes "matcher_ok m" "ip_ok ip"
  shows "matches m ip \<longleftrightarrow> is_ipv4 (network m) = is_ipv4 ip \<and>
           same_prefix (octets (network m)) (octets ip) (prefix_len m)"
  using assms prefix_eq_iff_bits [of "prefix_len m" "octets (network m)" "octets ip"]
  by (cases "network m"; cases ip) (auto simp: matcher_ok_def)

text \<open>C22. A trusted upstream that was read from the configuration matches an address exactly when the address
is of the same family and agrees with the configured network on the first \<open>prefix_len\<close> bits; a pattern
without a prefix matches one address only.\<close>

theorem cidr_match_exact:
  assumes "matcher_parse pattern = Inr m" "ip_ok ip"
  shows "matches m ip \<longleftrightarrow> is_ipv4 (network m) = is_ipv4 ip \<and>
           same_prefix (octets (network m)) (octets ip) (prefix_len m)"
  using matcher_parse_ok [OF assms(1)] assms(2) by (rule matches_iff)

theorem cidr_match_exact_witness:
  "matches \<lparr> network = V4 10 128 0 0, prefix_len = 9 \<rparr> (V4 10 200 1 2) \<and>
   \<not> matches \<lparr> network = V4 10 128 0 0, prefix_len = 9 \<rparr> (V4 10 127 1 2)"
proof -
  have p: "matcher_parse (lit '' 10.128.0.0/9'') = Inr \<lparr> network = V4 10 128 0 0, prefix_len = 9 \<rparr>"
    by (simp add: matcher_parse_def addr_eval)
  have "same_prefix [10, 128, 0, 0] [10, 200, 1, 2] 9" "\<not> same_prefix [10, 128, 0, 0] [10, 127, 1, 2] 9"
    unfolding same_prefix_list by code_simp+
  then show ?thesis
    using cidr_match_exact [OF p, of "V4 10 200 1 2"] cidr_match_exact [OF p, of "V4 10 127 1 2"] by simp
qed

section \<open>The client behind trusted proxies\<close>

definition trusted_entry :: "TrustedUpstreamMatcher list \<Rightarrow> str \<Rightarrow> bool" where
  "trusted_entry trusted entry =
     (case parse_forwarded_entry entry of Some (_, ip) \<Rightarrow> trusted_by trusted ip | None \<Rightarrow> False)"

lemma walk_entries_hops:
  assumes "list_all (trusted_entry trusted) hops"
  shows "\<exists>c. walk_entries trusted candidate (hops @ rest) = walk_entries trusted c rest"
  using assms
  by (induction hops arbitrary: candidate) (auto simp: trusted_entry_def split: option.splits)

lemma walk_entries_client:
  assumes "list_all (trusted_entry trusted) hops"
    "parse_forwarded_entry client = Some (addr, ip)" "\<not> trusted_by trusted ip"
  shows "walk_entries trusted candidate (hops @ client # rest) = Some addr"
  using walk_entries_hops [OF assms(1), of candidate "client # rest"] assms(2,3) by auto

text \<open>The address of the direct previous hop, as \<open>resolve_request_sources\<close> determines it.\<close>

definition direct_hop :: "StreamInfo \<Rightarrow> IpAddr option" where
  "direct_hop info =
     (let s = from_stream_info info in
      Option.bind (case conn_source_ip s of Some ip \<Rightarrow> Some ip | None \<Rightarrow> source_ip s) parse_ip)"

lemma addr_group_fst [simp]: "fst (addr_group_from_str addr) = Some addr"
  by (auto simp: addr_group_from_str_def split: option.splits)

lemma real_source_from_stream_info [simp]: "real_source_addr (from_stream_info info) = real_src_addr info"
  by (auto simp: from_stream_info_def default_sources_def set_source_def set_conn_source_def
      set_restored_source_def Let_def split: option.splits)

lemma resolve_request_sources_trusted:
  assumes "direct_hop info = Some hop" "trusted_by trusted hop" "real_src_addr info = None"
  shows "resolve_request_sources trusted info hs =
     (case resolve_trusted_forwarded_source hs trusted of
        Some real \<Rightarrow> set_real_source real (from_stream_info info)
      | None \<Rightarrow> from_stream_info info)"
proof -
  have "trusted \<noteq> []" using assms(2) by (auto simp: trusted_by_def)
  then show ?thesis
    using assms by (simp add: resolve_request_sources_def direct_hop_def Let_def)
qed

text \<open>C7. Forwarded headers cannot be forged from outside: when the direct previous hop is trusted and the
\<open>X-Forwarded-For\<close> entries end in a client whose address is not trusted followed by trusted hops, then the
source of the request is that client, whatever entries precede it and whatever \<open>X-Real-IP\<close> says, and the
connection source is left as it was.\<close>

theorem forwarded_prefix_cannot_spoof:
  assumes "direct_hop info = Some hop" "trusted_by trusted hop" "real_src_addr info = None"
    "forwarded_entries (x_forwarded_for hs) = spoofed @ client # hops"
    "parse_forwarded_entry client = Some (addr, ip)" "\<not> trusted_by trusted ip"
    "list_all (trusted_entry trusted) hops"
  shows "source_addr (resolve_request_sources trusted info hs) = Some addr \<and>
         real_source_addr (resolve_request_sources trusted info hs) = Some addr \<and>
         conn_source_addr (resolve_request_sources trusted info hs) = conn_source_addr (from_stream_info info)"
proof -
  have "walk_entries trusted None (rev (forwarded_entries (x_forwarded_for hs))) = Some addr"
    using walk_entries_client [of trusted "rev hops", OF _ assms(5,6)] assms(4,7) by simp
  then have "resolve_trusted_forwarded_source hs trusted = Some addr"
    by (simp add: resolve_trusted_forwarded_source_def)
  then show ?thesis
    by (simp add: resolve_request_sources_trusted [OF assms(1-3)] set_real_source_def set_source_def
        set_restored_source_def)
qed

definition sample_trusted :: "TrustedUpstreamMatcher list" where
  "sample_trusted = [\<lparr> network = V4 10 0 0 0, prefix_len = 8 \<rparr>]"

definition sample_info :: "str \<Rightarrow> StreamInfo" where
  "sample_info addr = \<lparr> src_addr = Some addr, conn_src_addr = None, real_src_addr = None \<rparr>"

definition sample_headers :: headers where
  "sample_headers =
     \<lparr> x_forwarded_for = [Some (lit ''10.0.0.9, 8.8.8.8,1.2.3.4''), Some (lit ''10.0.0.3'')],
       x_real_ip = Some (Some (lit ''10.9.9.9'')), x_real_port = None \<rparr>"

lemmas source_info_eval = from_stream_info_def default_sources_def set_source_def set_conn_source_def
  set_restored_source_def addr_group_from_str_def show_ipv4_def show_nat_def nat_to_string.simps digit_char_def

theorem forwarded_prefix_cannot_spoof_witness:
  "source_addr (resolve_request_sources sample_trusted (sample_info (lit ''10.0.0.2:80'')) sample_headers)
     = Some (lit ''1.2.3.4'')"
proof -
  have "direct_hop (sample_info (lit ''10.0.0.2:80'')) = Some (V4 10 0 0 2)"
    by (simp add: direct_hop_def sample_info_def source_info_eval addr_eval)
  moreover have "trusted_by sample_trusted (V4 10 0 0 2)" "\<not> trusted_by sample_trusted (V4 1 2 3 4)"
    by (simp_all add: sample_trusted_def trusted_by_def prefix_eq_def)
  moreover have "real_src_addr (sample_info (lit ''10.0.0.2:80'')) = None"
    by (simp add: sample_info_def)
  moreover have "forwarded_entries (x_forwarded_for sample_headers)
      = [lit ''10.0.0.9'', lit ''8.8.8.8''] @ lit ''1.2.3.4'' # [lit ''10.0.0.3'']"
    by (simp add: sample_headers_def forwarded_entries_def addr_eval)
  moreover have "parse_forwarded_entry (lit ''1.2.3.4'') = Some (lit ''1.2.3.4'', V4 1 2 3 4)"
    by (simp add: parse_forwarded_entry_def addr_eval)
  moreover have "list_all (trusted_entry sample_trusted) [lit ''10.0.0.3'']"
    by (simp add: trusted_entry_def parse_forwarded_entry_def sample_trusted_def trusted_by_def prefix_eq_def addr_eval)
  ultimately show ?thesis
    using forwarded_prefix_cannot_spoof [of "sample_info (lit ''10.0.0.2:80'')" "V4 10 0 0 2" sample_trusted sample_headers
        "[lit ''10.0.0.9'', lit ''8.8.8.8'']" "lit ''1.2.3.4''" "[lit ''10.0.0.3'']" "lit ''1.2.3.4''" "V4 1 2 3 4"]
    by blast
qed

text \<open>C21. The forwarded headers of a request are ignored unless its direct previous hop is trusted and no
stronger mechanism has already restored the source: otherwise the sources are those of the stream.\<close>

theorem untrusted_hop_headers_ignored:
  assumes "resolve_request_sources trusted info hs \<noteq> from_stream_info info"
  shows "(\<exists>hop. direct_hop info = Some hop \<and> trusted_by trusted hop) \<and> real_src_addr info = None"
  using assms
  by (auto simp: resolve_request_sources_def direct_hop_def Let_def split: if_splits option.splits)

theorem untrusted_hop_headers_ignored_witness:
  "resolve_request_sources sample_trusted (sample_info (lit ''1.1.1.1:80'')) sample_headers
     = from_stream_info (sample_info (lit ''1.1.1.1:80''))"
proof -
  have "direct_hop (sample_info (lit ''1.1.1.1:80'')) = Some (V4 1 1 1 1)"
    by (simp add: direct_hop_def sample_info_def source_info_eval addr_eval)
  moreover have "\<not> trusted_by sample_trusted (V4 1 1 1 1)"
    by (simp add: sample_trusted_def trusted_by_def prefix_eq_def)
  ultimately show ?thesis
    using untrusted_hop_headers_ignored [of sample_trusted "sample_info (lit ''1.1.1.1:80'')" sample_headers]
    by auto
qed

end
