(* ===== verification/Proxy_Protocol.thy ===== *)
theory Proxy_Protocol
  imports Trusted_Source
begin

text \<open>The PROXY protocol: the parser and the encoder of \<open>stack/proxy_protocol.rs\<close>, its probe of an inbound
stream, and the second parser in the command \<open>proxy-protocol-probe\<close> (\<open>cmds/proxy_protocol_probe.rs\<close>).

An inbound stream is a \<open>stream\<close> of \<open>Wire\<close>. The stream that a probe hands on replays the bytes it has read and
not consumed in front of what is still to come (\<open>PrefixedStream\<close> in \<open>tcp/stream.rs\<close>).\<close>

section \<open>Definitions\<close>

definition MAX_PROXY_READ_SIZE :: nat where "MAX_PROXY_READ_SIZE = 4096"

definition PROXY_V1_PREFIX :: bytes where
  "PROXY_V1_PREFIX = [0x50, 0x52, 0x4F, 0x58, 0x59, 0x20]"

definition PROXY_V2_SIGNATURE :: bytes where
  "PROXY_V2_SIGNATURE = [0x0d, 0x0a, 0x0d, 0x0a, 0x00, 0x0d, 0x0a, 0x51, 0x55, 0x49, 0x54, 0x0a]"

datatype ProxyProbeResult = NeedMore | NotProxy | Matched nat "SocketAddr option"

definition parse_v2_addresses :: "nat \<Rightarrow> u8 \<Rightarrow> bytes \<Rightarrow> ProxyProbeResult" where
  "parse_v2_addresses consumed fam_proto addresses =
     (let family = drop_bit 4 fam_proto in
      if family = 0x1 then
        if length addresses < 12 then NotProxy
        else Matched consumed
               (Some (socket_addr (V4 (addresses ! 0) (addresses ! 1) (addresses ! 2) (addresses ! 3))
                        (word_of_nat (from_be [addresses ! 8, addresses ! 9]))))
      else if family = 0x2 then
        if length addresses < 36 then NotProxy
        else Matched consumed
               (Some (socket_addr (V6 (take 16 addresses))
                        (word_of_nat (from_be [addresses ! 32, addresses ! 33]))))
      else Matched consumed None)"

definition parse_proxy_v2 :: "bytes \<Rightarrow> ProxyProbeResult" where
  "parse_proxy_v2 data =
     (let check_len = min (length data) (length PROXY_V2_SIGNATURE) in
      if take check_len data \<noteq> take check_len PROXY_V2_SIGNATURE then NotProxy
      else if length data < length PROXY_V2_SIGNATURE then NeedMore
      else if length data < 16 then NeedMore
      else let ver_cmd = data ! 12 in
           if drop_bit 4 ver_cmd \<noteq> 0x2 then NotProxy
           else let fam_proto = data ! 13; len = from_be [data ! 14, data ! 15] in
                if length data < 16 + len then NeedMore
                else if and ver_cmd 0x0f \<noteq> 0x1 then Matched (16 + len) None
                else parse_v2_addresses (16 + len) fam_proto (take len (drop 16 data)))"

text \<open>The position of the first \<open>\r\n\<close>.\<close>

fun find_crlf :: "bytes \<Rightarrow> nat option" where
  "find_crlf (a # b # bs) = (if a = 0x0d \<and> b = 0x0a then Some 0 else map_option Suc (find_crlf (b # bs)))"
| "find_crlf _ = None"

definition parse_v1_line :: "nat \<Rightarrow> str \<Rightarrow> ProxyProbeResult" where
  "parse_v1_line header_end line =
     (case split_whitespace line of
        [] \<Rightarrow> NotProxy
      | magic # parts \<Rightarrow>
          if magic \<noteq> lit ''PROXY'' then NotProxy
          else case parts of
            [] \<Rightarrow> NotProxy
          | protocol # parts \<Rightarrow>
              if str_lower protocol = str_lower (lit ''UNKNOWN'') then Matched header_end None
              else case parts of
                src # dst # sport # dport # _ \<Rightarrow>
                  (case parse_ip src of
                     None \<Rightarrow> NotProxy
                   | Some src_ip \<Rightarrow>
                       if parse_ip dst = None then NotProxy
                       else (case parse_uint 65535 sport of
                               None \<Rightarrow> NotProxy
                             | Some src_port \<Rightarrow>
                                 if parse_uint 65535 dport = None then NotProxy
                                 else Matched header_end (Some (socket_addr src_ip (word_of_nat src_port)))))
              | _ \<Rightarrow> NotProxy)"

definition parse_proxy_v1 :: "bytes \<Rightarrow> ProxyProbeResult" where
  "parse_proxy_v1 data =
     (let check_len = min (length data) (length PROXY_V1_PREFIX) in
      if take check_len data \<noteq> take check_len PROXY_V1_PREFIX then NotProxy
      else if length data < length PROXY_V1_PREFIX then NeedMore
      else case find_crlf data of
        None \<Rightarrow> if length data < MAX_PROXY_READ_SIZE then NeedMore else NotProxy
      | Some pos \<Rightarrow>
          (case from_utf8 (take pos data) of
             None \<Rightarrow> NotProxy
           | Some line \<Rightarrow> parse_v1_line (pos + 2) line))"

definition parse_proxy_protocol :: "bytes \<Rightarrow> ProxyProbeResult" where
  "parse_proxy_protocol data = (case parse_proxy_v2 data of NotProxy \<Rightarrow> parse_proxy_v1 data | ret \<Rightarrow> ret)"

text \<open>\<open>PrefixedStream\<close>: the prefix is read first, then the inner stream.\<close>

definition prefixed_stream :: "bytes \<Rightarrow> stream \<Rightarrow> stream" where
  "prefixed_stream prefix s = (if prefix = [] then s else Some prefix # s)"

datatype probe_error = ReadStreamFailed | EarlyEof

text \<open>The read loop: the bytes read so far and the stream; the result is the number of bytes consumed, the
source address and all bytes read.\<close>

function probe_loop ::
    "bytes \<Rightarrow> stream \<Rightarrow> (probe_error, nat \<times> SocketAddr option \<times> bytes) result \<times> stream" where
  "probe_loop buffer s =
     (if MAX_PROXY_READ_SIZE \<le> length buffer then (Inr (0, None, buffer), s)
      else case read_some (MAX_PROXY_READ_SIZE - length buffer) s of
        (Inl _, t) \<Rightarrow> (Inl ReadStreamFailed, t)
      | (Inr bs, t) \<Rightarrow>
          if bs = [] then
            if buffer = [] then (Inl EarlyEof, t) else (Inr (0, None, buffer), t)
          else let buffer = buffer @ bs in
               case parse_proxy_protocol buffer of
                 Matched consumed source \<Rightarrow> (Inr (consumed, source, buffer), t)
               | NotProxy \<Rightarrow> (Inr (0, None, buffer), t)
               | NeedMore \<Rightarrow>
                   if MAX_PROXY_READ_SIZE \<le> length buffer then (Inr (0, None, buffer), t)
                   else probe_loop buffer t)"
  by pat_completeness auto
termination
  by (relation "measure (\<lambda>(buffer, _). MAX_PROXY_READ_SIZE - length buffer)") (auto simp flip: length_greater_0_conv)

declare probe_loop.simps [simp del]

definition probe_proxy_protocol_stream ::
    "stream \<Rightarrow> (probe_error, stream \<times> SocketAddr option) result" where
  "probe_proxy_protocol_stream s =
     (case probe_loop [] s of
        (Inl e, _) \<Rightarrow> Inl e
      | (Inr (consumed, source, buffer), t) \<Rightarrow>
          Inr (prefixed_stream (drop consumed buffer) t, source))"

definition probe_proxy_protocol_stream_from_trusted_upstream ::
    "stream \<Rightarrow> SocketAddr \<Rightarrow> TrustedUpstreamMatcher list \<Rightarrow> (probe_error, stream \<times> SocketAddr option) result" where
  "probe_proxy_protocol_stream_from_trusted_upstream s direct_peer trusted_upstreams =
     (if \<not> trusted_by trusted_upstreams (sa_ip direct_peer) then Inr (s, None)
      else probe_proxy_protocol_stream s)"

definition encode_proxy_v2_header :: "SocketAddr \<Rightarrow> SocketAddr \<Rightarrow> bytes" where
  "encode_proxy_v2_header src dst =
     PROXY_V2_SIGNATURE @
     (case (sa_ip src, sa_ip dst) of
        (V4 _ _ _ _, V4 _ _ _ _) \<Rightarrow>
          [0x21, 0x11] @ be_bytes 2 12 @ octets (sa_ip src) @ octets (sa_ip dst)
            @ be_bytes 2 (unat (sa_port src)) @ be_bytes 2 (unat (sa_port dst))
      | (V6 _, V6 _) \<Rightarrow>
          [0x21, 0x21] @ be_bytes 2 36 @ octets (sa_ip src) @ octets (sa_ip dst)
            @ be_bytes 2 (unat (sa_port src)) @ be_bytes 2 (unat (sa_port dst))
      | _ \<Rightarrow> [0x20, 0x00] @ be_bytes 2 0)"

text \<open>\<open>write_proxy_v2_preamble\<close> returns the bytes it hands to \<open>write_all\<close>; \<open>None\<close> is the result \<open>Ok(false)\<close>.\<close>

definition write_proxy_v2_preamble :: "str option \<Rightarrow> str option \<Rightarrow> bytes option" where
  "write_proxy_v2_preamble src_text dst_text =
     (case Option.bind src_text parse_socket_addr of
        None \<Rightarrow> None
      | Some src \<Rightarrow>
          (let dst = (case Option.bind dst_text parse_socket_addr of
                        Some dst \<Rightarrow> dst
                      | None \<Rightarrow> (case sa_ip src of
                          V4 _ _ _ _ \<Rightarrow> socket_addr (V4 0 0 0 0) 0
                        | V6 _ \<Rightarrow> socket_addr (V6 (replicate 16 0)) 0))
           in Some (encode_proxy_v2_header src dst)))"

subsection \<open>The command \<open>proxy-protocol-probe\<close>\<close>

datatype ProxyVersion = Ver1 | Ver2

type_synonym probe_parse = "(nat \<times> ProxyVersion \<times> SocketAddr option \<times> SocketAddr option) option"

definition cmd_parse_proxy_v1 :: "bytes \<Rightarrow> probe_parse" where
  "cmd_parse_proxy_v1 data =
     (if take (length PROXY_V1_PREFIX) data \<noteq> PROXY_V1_PREFIX then None
      else Option.bind (find_crlf data) (\<lambda>pos.
           Option.bind (from_utf8 (take pos data)) (\<lambda>line.
           case split_whitespace line of
             magic # protocol # parts \<Rightarrow>
               if magic \<noteq> lit ''PROXY'' then None
               else if str_lower protocol = str_lower (lit ''UNKNOWN'') then Some (pos + 2, Ver1, None, None)
               else (case parts of
                       src # dst # sport # dport # _ \<Rightarrow>
                         Option.bind (parse_ip src) (\<lambda>src_ip.
                         Option.bind (parse_ip dst) (\<lambda>dst_ip.
                         Option.bind (parse_uint 65535 sport) (\<lambda>src_port.
                         Option.bind (parse_uint 65535 dport) (\<lambda>dst_port.
                         Some (pos + 2, Ver1, Some (socket_addr src_ip (word_of_nat src_port)),
                               Some (socket_addr dst_ip (word_of_nat dst_port)))))))
                     | _ \<Rightarrow> None)
           | _ \<Rightarrow> None)))"

definition cmd_parse_proxy_v2 :: "bytes \<Rightarrow> probe_parse" where
  "cmd_parse_proxy_v2 data =
     (if length data < 16 \<or> take (length PROXY_V2_SIGNATURE) data \<noteq> PROXY_V2_SIGNATURE then None
      else let ver_cmd = data ! 12 in
           if drop_bit 4 ver_cmd \<noteq> 0x2 then None
           else let fam_proto = data ! 13; len = from_be [data ! 14, data ! 15] in
                if length data < 16 + len then None
                else if and ver_cmd 0x0f \<noteq> 0x1 then Some (16 + len, Ver2, None, None)
                else let family = drop_bit 4 fam_proto; a = take len (drop 16 data) in
                     if family = 0x1 then
                       if length a < 12 then None
                       else Some (16 + len, Ver2,
                              Some (socket_addr (V4 (a ! 0) (a ! 1) (a ! 2) (a ! 3)) (word_of_nat (from_be [a ! 8, a ! 9]))),
                              Some (socket_addr (V4 (a ! 4) (a ! 5) (a ! 6) (a ! 7)) (word_of_nat (from_be [a ! 10, a ! 11]))))
                     else if family = 0x2 then
                       if length a < 36 then None
                       else Some (16 + len, Ver2,
                              Some (socket_addr (V6 (take 16 a)) (word_of_nat (from_be [a ! 32, a ! 33]))),
                              Some (socket_addr (V6 (take 16 (drop 16 a))) (word_of_nat (from_be [a ! 34, a ! 35]))))
                     else Some (16 + len, Ver2, None, None))"

definition cmd_parse_proxy_protocol :: "bytes \<Rightarrow> probe_parse" where
  "cmd_parse_proxy_protocol data =
     (case cmd_parse_proxy_v2 data of Some parsed \<Rightarrow> Some parsed | None \<Rightarrow> cmd_parse_proxy_v1 data)"

datatype process_error = ProbeReadFailed | NoDataRead

record ProbeResult =
  probe_stream :: stream
  probe_version :: "ProxyVersion option"
  probe_source_addr :: "SocketAddr option"
  probe_dest_addr :: "SocketAddr option"

text \<open>\<open>ProxyProtocolProbe::process_stream\<close>: a single read.\<close>

definition process_stream :: "stream \<Rightarrow> (process_error, ProbeResult) result" where
  "process_stream s =
     (case read_some 4096 s of
        (Inl _, _) \<Rightarrow> Inl ProbeReadFailed
      | (Inr data, t) \<Rightarrow>
          if data = [] then Inl NoDataRead
          else let (consumed, version, source, dest_addr) =
                     (case cmd_parse_proxy_protocol data of
                        Some (consumed, version, source, dest_addr) \<Rightarrow> (consumed, Some version, source, dest_addr)
                      | None \<Rightarrow> (0, None, None, None))
               in Inr \<lparr> probe_stream = prefixed_stream (drop consumed data) t, probe_version = version,
                        probe_source_addr = source, probe_dest_addr = dest_addr \<rparr>)"


section \<open>The parser on growing input\<close>

definition starts_ok :: "bytes \<Rightarrow> bytes \<Rightarrow> bool" where
  "starts_ok sig data = (take (min (length data) (length sig)) data = take (min (length data) (length sig)) sig)"

lemma starts_ok_append: "starts_ok sig (d @ x) \<Longrightarrow> starts_ok sig d"
  unfolding starts_ok_def
  by (drule arg_cong [of _ _ "take (min (length d) (length sig))"]) (simp add: min_def split: if_splits)

lemma starts_ok_long: "length sig \<le> length d \<Longrightarrow> starts_ok sig (d @ x) \<longleftrightarrow> starts_ok sig d"
  by (simp add: starts_ok_def min_absorb2)

lemma find_crlf_append: "find_crlf d = Some p \<Longrightarrow> find_crlf (d @ x) = Some p"
proof (induction d arbitrary: p rule: find_crlf.induct)
  case (1 a b bs)
  then show ?case by (auto split: if_splits)
qed auto

lemma find_crlf_bound: "find_crlf d = Some p \<Longrightarrow> p + 2 \<le> length d"
proof (induction d arbitrary: p rule: find_crlf.induct)
  case (1 a b bs)
  then show ?case by (auto split: if_splits)
qed auto

lemma parse_v2_addresses_decided: "parse_v2_addresses c f a \<noteq> NeedMore"
  by (simp add: parse_v2_addresses_def Let_def)

lemma parse_v1_line_decided: "parse_v1_line c line \<noteq> NeedMore"
  by (auto simp: parse_v1_line_def split: list.splits option.splits)

lemma length_signature [simp]: "length PROXY_V2_SIGNATURE = 12" "length PROXY_V1_PREFIX = 6"
  by (simp_all add: PROXY_V2_SIGNATURE_def PROXY_V1_PREFIX_def)

lemma parse_proxy_v2_alt:
  "parse_proxy_v2 data =
     (if \<not> starts_ok PROXY_V2_SIGNATURE data then NotProxy
      else if length data < 16 then NeedMore
      else if drop_bit 4 (data ! 12) \<noteq> 0x2 then NotProxy
      else if length data < 16 + from_be [data ! 14, data ! 15] then NeedMore
      else if and (data ! 12) 0x0f \<noteq> 0x1 then Matched (16 + from_be [data ! 14, data ! 15]) None
      else parse_v2_addresses (16 + from_be [data ! 14, data ! 15]) (data ! 13)
             (take (from_be [data ! 14, data ! 15]) (drop 16 data)))"
  by (simp add: parse_proxy_v2_def starts_ok_def Let_def)

lemma parse_proxy_v1_alt:
  "parse_proxy_v1 data =
     (if \<not> starts_ok PROXY_V1_PREFIX data then NotProxy
      else if length data < 6 then NeedMore
      else case find_crlf data of
        None \<Rightarrow> if length data < MAX_PROXY_READ_SIZE then NeedMore else NotProxy
      | Some pos \<Rightarrow>
          (case from_utf8 (take pos data) of
             None \<Rightarrow> NotProxy
           | Some line \<Rightarrow> parse_v1_line (pos + 2) line))"
  by (simp add: parse_proxy_v1_def starts_ok_def Let_def)

lemma parse_proxy_v2_stable:
  assumes "parse_proxy_v2 d \<noteq> NeedMore"
  shows "parse_proxy_v2 (d @ x) = parse_proxy_v2 d"
proof (cases "starts_ok PROXY_V2_SIGNATURE d")
  case False
  then have "\<not> starts_ok PROXY_V2_SIGNATURE (d @ x)" using starts_ok_append by blast
  then show ?thesis using False by (simp add: parse_proxy_v2_alt)
next
  case True
  then have "16 \<le> length d"
    using assms by (auto simp: parse_proxy_v2_alt split: if_splits)
  then show ?thesis
    using assms True by (auto simp: parse_proxy_v2_alt starts_ok_long nth_append split: if_splits)
qed

lemma parse_proxy_v1_stable:
  assumes "parse_proxy_v1 d \<noteq> NeedMore" "length (d @ x) \<le> MAX_PROXY_READ_SIZE"
  shows "parse_proxy_v1 (d @ x) = parse_proxy_v1 d"
proof (cases "starts_ok PROXY_V1_PREFIX d")
  case False
  then have "\<not> starts_ok PROXY_V1_PREFIX (d @ x)" using starts_ok_append by blast
  then show ?thesis using False by (simp add: parse_proxy_v1_alt)
next
  case True
  then have len: "6 \<le> length d"
    using assms by (auto simp: parse_proxy_v1_alt split: if_splits)
  show ?thesis
  proof (cases "find_crlf d")
    case None
    then have "MAX_PROXY_READ_SIZE \<le> length d"
      using assms True len by (auto simp: parse_proxy_v1_alt split: if_splits)
    then have "length x = 0" using assms(2) by (simp del: length_0_conv)
    then show ?thesis by simp
  next
    case (Some p)
    then have "find_crlf (d @ x) = Some p" "p \<le> length d"
      using find_crlf_append find_crlf_bound by fastforce+
    then show ?thesis
      using Some True len by (simp add: parse_proxy_v1_alt starts_ok_long)
  qed
qed

lemma parse_proxy_protocol_stable:
  assumes "parse_proxy_protocol d \<noteq> NeedMore" "length (d @ x) \<le> MAX_PROXY_READ_SIZE"
  shows "parse_proxy_protocol (d @ x) = parse_proxy_protocol d"
proof -
  have v2: "parse_proxy_v2 d \<noteq> NeedMore"
    using assms(1) by (auto simp: parse_proxy_protocol_def)
  show ?thesis
    using parse_proxy_v2_stable [OF v2, of x] parse_proxy_v1_stable [OF _ assms(2)] assms(1)
    by (simp add: parse_proxy_protocol_def split: ProxyProbeResult.splits)
qed

lemma parse_v1_line_Matched: "parse_v1_line c line = Matched k a \<Longrightarrow> k = c"
  by (auto simp: parse_v1_line_def split: list.splits option.splits if_splits)

lemma parse_proxy_protocol_consumed:
  assumes "parse_proxy_protocol d = Matched c a"
  shows "c \<le> length d"
proof (cases "parse_proxy_v2 d")
  case (Matched k b)
  then show ?thesis
    using assms
    by (auto simp: parse_proxy_protocol_def parse_proxy_v2_alt parse_v2_addresses_def Let_def split: if_splits)
next
  case NotProxy
  then show ?thesis
    using assms
    by (auto simp: parse_proxy_protocol_def parse_proxy_v1_alt dest!: parse_v1_line_Matched find_crlf_bound
        split: if_splits option.splits)
qed (use assms in \<open>simp add: parse_proxy_protocol_def\<close>)

lemma parse_proxy_protocol_Nil [simp]: "parse_proxy_protocol [] = NeedMore"
  by (simp add: parse_proxy_protocol_def parse_proxy_v2_alt starts_ok_def)

section \<open>The probe of a stream\<close>

text \<open>What the first bytes of a connection say, as a function of the bytes alone.\<close>

definition proxy_header :: "bytes \<Rightarrow> nat \<times> SocketAddr option" where
  "proxy_header data =
     (case parse_proxy_protocol (take MAX_PROXY_READ_SIZE data) of Matched c a \<Rightarrow> (c, a) | _ \<Rightarrow> (0, None))"

lemma proxy_header_decided:
  assumes "parse_proxy_protocol d \<noteq> NeedMore" "length d \<le> MAX_PROXY_READ_SIZE"
  shows "proxy_header (d @ x) = (case parse_proxy_protocol d of Matched c a \<Rightarrow> (c, a) | _ \<Rightarrow> (0, None))"
  using parse_proxy_protocol_stable [OF assms(1), of "take (MAX_PROXY_READ_SIZE - length d) x"] assms(2)
  by (simp add: proxy_header_def)

lemma proxy_header_undecided:
  assumes "parse_proxy_protocol d = NeedMore" "length d = MAX_PROXY_READ_SIZE \<or> length d \<le> MAX_PROXY_READ_SIZE \<and> x = []"
  shows "proxy_header (d @ x) = (0, None)"
  using assms by (auto simp: proxy_header_def)

lemma probe_loop_arrives:
  assumes "arrives s bs" "buffer @ bs \<noteq> []" "length buffer \<le> MAX_PROXY_READ_SIZE"
    "parse_proxy_protocol buffer = NeedMore"
  shows "\<exists>read rest t. probe_loop buffer s = (Inr (fst (proxy_header (buffer @ bs)), snd (proxy_header (buffer @ bs)), read), t)
     \<and> buffer @ bs = read @ rest \<and> arrives t rest \<and> fst (proxy_header (buffer @ bs)) \<le> length read"
  using assms
proof (induction buffer s arbitrary: bs rule: probe_loop.induct)
  case (1 buffer s)
  consider (full) "MAX_PROXY_READ_SIZE \<le> length buffer" | (eof) "length buffer < MAX_PROXY_READ_SIZE" "bs = []"
    | (more) "length buffer < MAX_PROXY_READ_SIZE" "bs \<noteq> []"
    by linarith
  then show ?case
  proof cases
    case full
    then have "proxy_header (buffer @ bs) = (0, None)"
      using 1 by (intro proxy_header_undecided) auto
    then show ?thesis
      using full 1 by (subst probe_loop.simps) (auto intro!: exI [of _ bs])
  next
    case eof
    then have "proxy_header (buffer @ bs) = (0, None)"
      using 1 by (intro proxy_header_undecided) auto
    then show ?thesis
      using eof 1 read_some_eof [of s] by (subst probe_loop.simps) auto
  next
    case more
    obtain k t where k: "0 < k" "k \<le> MAX_PROXY_READ_SIZE - length buffer" "k \<le> length bs"
      "read_some (MAX_PROXY_READ_SIZE - length buffer) s = (Inr (take k bs), t)" "arrives t (drop k bs)"
      using read_some_arrives [OF 1(2), of "MAX_PROXY_READ_SIZE - length buffer"] more by auto
    let ?d = "buffer @ take k bs"
    have split: "buffer @ bs = ?d @ drop k bs" by simp
    have len: "length ?d \<le> MAX_PROXY_READ_SIZE" "take k bs \<noteq> []" using k more by auto
    show ?thesis
    proof (cases "parse_proxy_protocol ?d = NeedMore")
      case False
      then have h: "proxy_header (buffer @ bs) = (case parse_proxy_protocol ?d of Matched c a \<Rightarrow> (c, a) | _ \<Rightarrow> (0, None))"
        unfolding split using len(1) by (rule proxy_header_decided)
      show ?thesis
        using False more k len h
        by (subst probe_loop.simps)
           (auto split: ProxyProbeResult.splits dest: parse_proxy_protocol_consumed intro!: exI [of _ "drop k bs"])
    next
      case True
      show ?thesis
      proof (cases "MAX_PROXY_READ_SIZE \<le> length ?d")
        case full: True
        then have "proxy_header (buffer @ bs) = (0, None)"
          unfolding split using len True by (intro proxy_header_undecided) auto
        then show ?thesis
          using True more k len full by (subst probe_loop.simps) (auto intro!: exI [of _ "drop k bs"])
      next
        case False
        have "probe_loop buffer s = probe_loop ?d t"
          using True more k len False by (subst probe_loop.simps) simp
        moreover have "\<exists>read rest u. probe_loop ?d t
            = (Inr (fst (proxy_header (?d @ drop k bs)), snd (proxy_header (?d @ drop k bs)), read), u)
          \<and> ?d @ drop k bs = read @ rest \<and> arrives u rest \<and> fst (proxy_header (?d @ drop k bs)) \<le> length read"
        proof (rule 1(1))
          show "(Inr (take k bs), t) = read_some (MAX_PROXY_READ_SIZE - length buffer) s" using k by simp
        qed (use True more k len False in auto)
        ultimately show ?thesis unfolding split by simp
      qed
    qed
  qed
qed

definition proxy_source :: "bytes \<Rightarrow> SocketAddr option" where
  "proxy_source data = snd (proxy_header data)"

definition proxy_payload :: "bytes \<Rightarrow> bytes" where
  "proxy_payload data = drop (fst (proxy_header data)) data"

text \<open>C8. Probing a connection for a PROXY header does not depend on how its bytes arrive in pieces: the source
address is a function of the bytes, and the stream handed on delivers exactly the bytes behind the header.\<close>

theorem probe_independent_of_fragmentation:
  assumes "arrives s bs" "bs \<noteq> []"
  shows "\<exists>t. probe_proxy_protocol_stream s = Inr (t, proxy_source bs) \<and> arrives t (proxy_payload bs)"
proof -
  obtain read rest t where p: "probe_loop [] s = (Inr (fst (proxy_header bs), snd (proxy_header bs), read), t)"
    "bs = read @ rest" "arrives t rest" "fst (proxy_header bs) \<le> length read"
    using probe_loop_arrives [OF assms(1), of "[]"] assms(2) by auto
  have "arrives (prefixed_stream (drop (fst (proxy_header bs)) read) t) (drop (fst (proxy_header bs)) read @ rest)"
    using p(3) by (simp add: prefixed_stream_def)
  then show ?thesis
    using p by (auto simp: probe_proxy_protocol_stream_def proxy_source_def proxy_payload_def)
qed

section \<open>The encoder\<close>

lemma parse_proxy_v2_shape:
  assumes "length addrs = from_be [l1, l2]" "drop_bit 4 a = (0x2 :: u8)"
  shows "parse_proxy_v2 (PROXY_V2_SIGNATURE @ [a, b, l1, l2] @ addrs @ rest) =
     (if and a 0x0f \<noteq> 0x1 then Matched (16 + length addrs) None
      else parse_v2_addresses (16 + length addrs) b addrs)"
proof -
  let ?d = "PROXY_V2_SIGNATURE @ [a, b, l1, l2] @ addrs @ rest"
  have "starts_ok PROXY_V2_SIGNATURE ?d" by (simp add: starts_ok_def)
  moreover have "?d ! 12 = a" "?d ! 13 = b" "?d ! 14 = l1" "?d ! 15 = l2"
    by (simp_all add: nth_append)
  moreover have "take (from_be [l1, l2]) (drop 16 ?d) = addrs" using assms(1) by simp
  ultimately show ?thesis
    using assms by (simp add: parse_proxy_v2_alt)
qed

lemma port_bytes:
  fixes p :: u16
  obtains x y where "be_bytes 2 (unat p) = [x, y]" "word_of_nat (from_be [x, y]) = p"
proof
  show "be_bytes 2 (unat p) = [byte (unat p div 256 mod 256), byte (unat p mod 256)]"
    by (rule be_bytes_2)
  have "unat p < 256 ^ 2"
    using unsigned_less [of p, where ?'a = nat] by simp
  then have "from_be (be_bytes 2 (unat p)) = unat p" by simp
  then show "word_of_nat (from_be [byte (unat p div 256 mod 256), byte (unat p mod 256)]) = p"
    by (simp add: be_bytes_2)
qed

lemma parse_encode_proxy_v2:
  assumes "ip_ok (sa_ip src)" "ip_ok (sa_ip dst)" "sa_scope src = 0"
  shows "parse_proxy_v2 (encode_proxy_v2_header src dst @ rest) =
     Matched (length (encode_proxy_v2_header src dst)) (if is_ipv4 (sa_ip src) = is_ipv4 (sa_ip dst) then Some src else None)"
proof -
  obtain x y where p: "be_bytes 2 (unat (sa_port src)) = [x, y]" "word_of_nat (from_be [x, y]) = sa_port src"
    by (rule port_bytes)
  obtain z w where q: "be_bytes 2 (unat (sa_port dst)) = [z, w]"
    by (metis port_bytes)
  have src: "src = \<lparr> sa_ip = sa_ip src, sa_port = sa_port src, sa_scope = 0 \<rparr>"
    using assms(3) by simp
  show ?thesis
  proof (cases "sa_ip src"; cases "sa_ip dst")
    fix a b c d e f g h assume ip: "sa_ip src = V4 a b c d" "sa_ip dst = V4 e f g h"
    have "encode_proxy_v2_header src dst @ rest
        = PROXY_V2_SIGNATURE @ [0x21, 0x11, 0, 12] @ [a, b, c, d, e, f, g, h, x, y, z, w] @ rest"
      using ip p q by (simp add: encode_proxy_v2_header_def be_bytes_2 byte_def)
    moreover have "length (encode_proxy_v2_header src dst) = 28"
      using ip by (simp add: encode_proxy_v2_header_def)
    ultimately show ?thesis
      using parse_proxy_v2_shape [of "[a, b, c, d, e, f, g, h, x, y, z, w]" 0 12 "0x21" "0x11" rest] ip p src
      by (simp add: from_be_2 parse_v2_addresses_def socket_addr_def)
  next
    fix us vs assume ip: "sa_ip src = V6 us" "sa_ip dst = V6 vs"
    then have len: "length us = 16" "length vs = 16" using assms by auto
    have "encode_proxy_v2_header src dst @ rest
        = PROXY_V2_SIGNATURE @ [0x21, 0x21, 0, 36] @ (us @ vs @ [x, y, z, w]) @ rest"
      using ip p q by (simp add: encode_proxy_v2_header_def be_bytes_2 byte_def)
    moreover have "length (encode_proxy_v2_header src dst) = 52"
      using ip len by (simp add: encode_proxy_v2_header_def)
    ultimately show ?thesis
      using parse_proxy_v2_shape [of "us @ vs @ [x, y, z, w]" 0 36 "0x21" "0x21" rest] ip p src len
      by (simp add: from_be_2 parse_v2_addresses_def socket_addr_def nth_append)
  qed (use parse_proxy_v2_shape [of "[]" 0 0 "0x20" 0 rest] in
    \<open>simp_all add: encode_proxy_v2_header_def be_bytes_2 byte_def from_be_2\<close>)
qed

lemma length_encode_proxy_v2_header:
  "ip_ok (sa_ip src) \<Longrightarrow> ip_ok (sa_ip dst) \<Longrightarrow> length (encode_proxy_v2_header src dst) \<le> 52"
  by (auto simp: encode_proxy_v2_header_def split: IpAddr.splits)

text \<open>C23. A PROXY v2 header that the gateway writes in front of a connection is recovered by the gateway that
receives it: whatever the payload and however the bytes are cut into pieces, the probe returns the source
address (or none when the two addresses are of different families) and hands on exactly the payload.\<close>

theorem proxy_v2_preamble_roundtrip:
  assumes "ip_ok (sa_ip src)" "ip_ok (sa_ip dst)" "sa_scope src = 0"
    "arrives s (encode_proxy_v2_header src dst @ payload)"
  shows "\<exists>t. probe_proxy_protocol_stream s =
             Inr (t, if is_ipv4 (sa_ip src) = is_ipv4 (sa_ip dst) then Some src else None)
           \<and> arrives t payload"
proof -
  let ?h = "encode_proxy_v2_header src dst"
  have m: "parse_proxy_protocol ?h =
      Matched (length ?h) (if is_ipv4 (sa_ip src) = is_ipv4 (sa_ip dst) then Some src else None)"
    using parse_encode_proxy_v2 [OF assms(1-3), of "[]"] by (simp add: parse_proxy_protocol_def)
  have "proxy_header (?h @ payload) =
      (length ?h, if is_ipv4 (sa_ip src) = is_ipv4 (sa_ip dst) then Some src else None)"
    using proxy_header_decided [of ?h payload] m length_encode_proxy_v2_header [OF assms(1,2)]
    by (simp add: MAX_PROXY_READ_SIZE_def)
  moreover have "?h @ payload \<noteq> []"
    by (simp add: encode_proxy_v2_header_def PROXY_V2_SIGNATURE_def)
  ultimately show ?thesis
    using probe_loop_arrives [OF assms(4), of "[]"]
    by (auto simp: probe_proxy_protocol_stream_def prefixed_stream_def append_eq_append_conv2)
qed

section \<open>The parser of the command\<close>

lemma cmd_v2_refines:
  "map_option (\<lambda>(c, v, s, d). (c, s)) (cmd_parse_proxy_v2 data) =
     (case parse_proxy_v2 data of Matched c s \<Rightarrow> Some (c, s) | _ \<Rightarrow> None)"
proof (cases "length data < 16")
  case True
  then show ?thesis
    by (simp add: cmd_parse_proxy_v2_def parse_proxy_v2_alt)
next
  case False
  then have "starts_ok PROXY_V2_SIGNATURE data \<longleftrightarrow> take 12 data = PROXY_V2_SIGNATURE"
    by (simp add: starts_ok_def min_absorb2)
  then show ?thesis
    using False
    by (simp add: cmd_parse_proxy_v2_def parse_proxy_v2_alt parse_v2_addresses_def Let_def)
qed

lemma cmd_v1_refines:
  "map_option (\<lambda>(c, v, s, d). (c, s)) (cmd_parse_proxy_v1 data) =
     (case parse_proxy_v1 data of Matched c s \<Rightarrow> Some (c, s) | _ \<Rightarrow> None)"
proof (cases "take 6 data = PROXY_V1_PREFIX")
  case False
  then have "\<not> starts_ok PROXY_V1_PREFIX data \<or> length data < 6"
    by (cases "length data < 6") (auto simp: starts_ok_def min_absorb2 not_less)
  then show ?thesis
    using False by (auto simp: cmd_parse_proxy_v1_def parse_proxy_v1_alt)
next
  case True
  then have "6 \<le> length data"
    using length_take [of 6 data] by (simp add: min_def split: if_splits)
  then have "starts_ok PROXY_V1_PREFIX data" using True by (simp add: starts_ok_def min_absorb2)
  then show ?thesis
    using True \<open>6 \<le> length data\<close>
    by (auto simp: cmd_parse_proxy_v1_def parse_proxy_v1_alt parse_v1_line_def bind_eq_Some_conv
        split: option.splits list.splits)
qed

lemma starts_ok_hd: "starts_ok (c # sig) (x # xs) \<Longrightarrow> x = c"
  by (simp add: starts_ok_def)

lemma v2_not_v1:
  assumes "parse_proxy_v2 data = NeedMore" "data \<noteq> []"
  shows "\<not> starts_ok PROXY_V1_PREFIX data"
proof
  assume v1: "starts_ok PROXY_V1_PREFIX data"
  have "starts_ok PROXY_V2_SIGNATURE data"
    using assms(1) by (auto simp: parse_proxy_v2_alt split: if_splits)
  then have "hd data = 0x0d" "hd data = 0x50"
    using v1 assms(2) by (cases data; auto simp: PROXY_V1_PREFIX_def PROXY_V2_SIGNATURE_def dest: starts_ok_hd)+
  then show False by simp
qed

lemma probe_parser_refines:
  "map_option (\<lambda>(c, v, s, d). (c, s)) (cmd_parse_proxy_protocol data) =
     (case parse_proxy_protocol data of Matched c s \<Rightarrow> Some (c, s) | _ \<Rightarrow> None)"
proof (cases "parse_proxy_v2 data")
  case NeedMore
  have "map_option (\<lambda>(c, v, s, d). (c, s)) (cmd_parse_proxy_v1 data) = None"
  proof (cases "data = []")
    case True
    then show ?thesis by (simp add: cmd_parse_proxy_v1_def PROXY_V1_PREFIX_def)
  next
    case False
    then have "parse_proxy_v1 data = NotProxy"
      using v2_not_v1 [OF NeedMore] by (simp add: parse_proxy_v1_alt)
    then show ?thesis using cmd_v1_refines [of data] by simp
  qed
  then show ?thesis
    using NeedMore cmd_v2_refines [of data] by (simp add: cmd_parse_proxy_protocol_def parse_proxy_protocol_def)
next
  case NotProxy
  then show ?thesis
    using cmd_v1_refines [of data] cmd_v2_refines [of data]
    by (simp add: cmd_parse_proxy_protocol_def parse_proxy_protocol_def)
next
  case (Matched c s)
  then show ?thesis
    using cmd_v2_refines [of data] by (auto simp: cmd_parse_proxy_protocol_def parse_proxy_protocol_def)
qed

text \<open>C24. The parser of the command \<open>proxy-protocol-probe\<close> and the parser of the stacks agree: on the same
bytes they recognise the same headers, with the same length and the same source address.\<close>

theorem probe_parsers_agree:
  "map_option (\<lambda>(c, v, s, d). (c, s)) (cmd_parse_proxy_protocol data) =
     (case parse_proxy_protocol data of Matched c s \<Rightarrow> Some (c, s) | _ \<Rightarrow> None)"
  by (rule probe_parser_refines)


section \<open>Witnesses\<close>

definition sample_src :: SocketAddr where "sample_src = socket_addr (V4 1 2 3 4) 1111"
definition sample_dst :: SocketAddr where "sample_dst = socket_addr (V4 5 6 7 8) 2222"

definition sample_header :: bytes where
  "sample_header = PROXY_V2_SIGNATURE @ [0x21, 0x11, 0, 12, 1, 2, 3, 4, 5, 6, 7, 8, 0x04, 0x57, 0x08, 0xAE]"

lemma sample_header_encoded: "encode_proxy_v2_header sample_src sample_dst = sample_header"
  by (simp add: encode_proxy_v2_header_def sample_src_def sample_dst_def sample_header_def socket_addr_def be_bytes_2 byte_def)

theorem proxy_v2_preamble_roundtrip_witness:
  "\<exists>t. probe_proxy_protocol_stream [Some (take 5 sample_header), Some (drop 5 sample_header @ [7, 8]), Some [9]]
       = Inr (t, Some sample_src) \<and> arrives t [7, 8, 9]"
proof -
  have "arrives [Some (take 5 sample_header), Some (drop 5 sample_header @ [7, 8]), Some [9]]
      (encode_proxy_v2_header sample_src sample_dst @ [7, 8, 9])"
    unfolding sample_header_encoded by (auto simp: sample_header_def PROXY_V2_SIGNATURE_def)
  from proxy_v2_preamble_roundtrip [OF _ _ _ this] show ?thesis
    by (simp add: sample_src_def sample_dst_def socket_addr_def)
qed

theorem probe_independent_of_fragmentation_witness:
  "\<exists>t. probe_proxy_protocol_stream [Some [1], Some [2, 3]] = Inr (t, None) \<and> arrives t [1, 2, 3]"
proof -
  have "parse_proxy_protocol [1, 2, 3] = NotProxy"
    by (simp add: parse_proxy_protocol_def parse_proxy_v2_def parse_proxy_v1_def PROXY_V2_SIGNATURE_def PROXY_V1_PREFIX_def)
  then have "proxy_header [1, 2, 3] = (0, None)"
    by (simp add: proxy_header_def MAX_PROXY_READ_SIZE_def)
  then show ?thesis
    using probe_independent_of_fragmentation [of "[Some [1], Some [2, 3]]" "[1, 2, 3]"]
    by (simp add: proxy_source_def proxy_payload_def)
qed


end
