(* ===== verification/Sni_Probe.thy ===== *)
theory Sni_Probe
  imports Proxy_Protocol
begin

text \<open>The server name of a TLS connection (\<open>HttpsSniProbe\<close> in \<open>cyfs-process-chain/src/tcp/sni.rs\<close>): a parser that
walks over the bytes of a ClientHello by position. In Rust an index or a slice outside the buffer is a
panic; here \<open>at\<close> and \<open>slice\<close> return it as an error, so that the absence of panics is a theorem.

The specification side (\<open>client_hello\<close>, \<open>sni_extension\<close>) is the wire format of RFC 8446 and RFC 6066.\<close>

section \<open>Definitions\<close>

datatype index_panic = IndexOutOfBounds nat | SliceOutOfRange nat nat

definition at :: "bytes \<Rightarrow> nat \<Rightarrow> (index_panic, u8) result" where
  "at b i = (if i < length b then Inr (b ! i) else Inl (IndexOutOfBounds i))"

definition slice :: "bytes \<Rightarrow> nat \<Rightarrow> nat \<Rightarrow> (index_panic, bytes) result" where
  "slice b i j = (if i \<le> j \<and> j \<le> length b then Inr (take (j - i) (drop i b)) else Inl (SliceOutOfRange i j))"

definition u16_at :: "bytes \<Rightarrow> nat \<Rightarrow> (index_panic, nat) result" where
  "u16_at b i = and_then (at b i) (\<lambda>x. and_then (at b (i + 1)) (\<lambda>y. Inr (from_be [x, y])))"

definition skip_session_id :: "bytes \<Rightarrow> nat \<Rightarrow> (index_panic, nat) result" where
  "skip_session_id b pos =
     (if pos < length b then and_then (at b pos) (\<lambda>n. Inr (pos + 1 + unat n)) else Inr pos)"

definition skip_cipher_suites :: "bytes \<Rightarrow> nat \<Rightarrow> (index_panic, nat) result" where
  "skip_cipher_suites b pos =
     (if pos + 2 \<le> length b then and_then (u16_at b pos) (\<lambda>n. Inr (pos + 2 + n)) else Inr pos)"

definition skip_compression :: "bytes \<Rightarrow> nat \<Rightarrow> (index_panic, nat) result" where
  "skip_compression b pos =
     (if pos < length b then and_then (at b pos) (\<lambda>n. Inr (pos + 1 + unat n)) else Inr pos)"

text \<open>The server-name extension, \<open>ext_len\<close> bytes long.\<close>

definition parse_server_name :: "bytes \<Rightarrow> nat \<Rightarrow> (index_panic, str option) result" where
  "parse_server_name extension ext_len =
     (if length extension \<le> 5 then Inr None
      else and_then (u16_at extension 0) (\<lambda>names_len.
           and_then (u16_at extension 3) (\<lambda>sni_len.
           if names_len + 2 \<noteq> ext_len then Inr None
           else and_then (at extension 2) (\<lambda>name_type.
             if name_type \<noteq> 0 \<or> sni_len = 0 \<or> sni_len + 3 \<noteq> names_len then Inr None
             else Inr (from_utf8 (drop 5 extension))))))"

function sni_loop :: "bytes \<Rightarrow> nat \<Rightarrow> nat \<Rightarrow> (index_panic, str option) result" where
  "sni_loop b pos extensions_end =
     (if pos + 4 \<le> extensions_end then
        and_then (u16_at b pos) (\<lambda>ext_type.
        and_then (u16_at b (pos + 2)) (\<lambda>ext_len.
        let extension_end = pos + 4 + ext_len in
        if extensions_end < extension_end then Inr None
        else if ext_type = 0 then
          and_then (slice b (pos + 4) extension_end) (\<lambda>extension. parse_server_name extension ext_len)
        else sni_loop b extension_end extensions_end))
      else Inr None)"
  by pat_completeness auto
termination
  by (relation "measure (\<lambda>(b, pos, e). e - pos)") auto

declare sni_loop.simps [simp del]

definition extract_sni :: "bytes \<Rightarrow> (index_panic, str option) result" where
  "extract_sni b =
     (if length b < 5 then Inr None
      else and_then (at b 0) (\<lambda>b0. and_then (at b 1) (\<lambda>b1.
        if b0 \<noteq> 0x16 \<or> b1 \<noteq> 0x03 then Inr None
        else if length b \<le> 43 then Inr None
        else and_then (skip_session_id b 43) (\<lambda>pos.
             and_then (skip_cipher_suites b pos) (\<lambda>pos.
             and_then (skip_compression b pos) (\<lambda>pos.
             if pos + 2 \<le> length b then
               and_then (u16_at b pos) (\<lambda>extensions_len.
               sni_loop b (pos + 2) (min (pos + 2 + extensions_len) (length b)))
             else Inr None))))))"

datatype sni_error = SniReadFailed | SniNoData | SniPanic index_panic

definition sni_process_stream :: "stream \<Rightarrow> (sni_error, stream \<times> str option) result" where
  "sni_process_stream s =
     (case read_some 4096 s of
        (Inl _, _) \<Rightarrow> Inl SniReadFailed
      | (Inr data, t) \<Rightarrow>
          if data = [] then Inl SniNoData
          else (case extract_sni data of
                  Inl p \<Rightarrow> Inl (SniPanic p)
                | Inr sni \<Rightarrow> Inr (prefixed_stream data t, sni)))"

section \<open>No index is out of range\<close>

lemma at_ok: "i < length b \<Longrightarrow> at b i = Inr (b ! i)"
  by (simp add: at_def)

lemma u16_at_ok: "i + 1 < length b \<Longrightarrow> u16_at b i = Inr (from_be [b ! i, b ! (i + 1)])"
  by (simp add: u16_at_def at_ok)

lemma parse_server_name_total: "\<exists>r. parse_server_name ext n = Inr r"
  by (auto simp: parse_server_name_def u16_at_ok at_ok not_le)

lemma sni_loop_total: "e \<le> length b \<Longrightarrow> \<exists>r. sni_loop b pos e = Inr r"
proof (induction b pos e rule: sni_loop.induct)
  case (1 b pos e)
  show ?case
  proof (cases "pos + 4 \<le> e")
    case True
    have 2: "u16_at b pos = Inr (from_be [b ! pos, b ! (pos + 1)])"
      "u16_at b (pos + 2) = Inr (from_be [b ! (pos + 2), b ! (pos + 3)])"
      using True 1(2) u16_at_ok [of pos b] u16_at_ok [of "pos + 2" b] by (simp_all add: numeral_3_eq_3)
    show ?thesis
      using True 2 1 parse_server_name_total
      by (subst sni_loop.simps) (auto simp: Let_def slice_def)
  qed (simp add: sni_loop.simps)
qed

lemma skip_total:
  "\<exists>p. skip_session_id b pos = Inr p" "\<exists>p. skip_cipher_suites b pos = Inr p" "\<exists>p. skip_compression b pos = Inr p"
  by (auto simp: skip_session_id_def skip_cipher_suites_def skip_compression_def at_ok u16_at_ok)

lemma extract_sni_total: "\<exists>sni. extract_sni b = Inr sni"
proof (cases "length b < 5")
  case False
  then have "at b 0 = Inr (b ! 0)" "at b 1 = Inr (b ! 1)" by (auto simp: at_def)
  moreover obtain p where "skip_session_id b 43 = Inr p" using skip_total by blast
  moreover obtain q where "skip_cipher_suites b p = Inr q" using skip_total by blast
  moreover obtain r where "skip_compression b q = Inr r" using skip_total by blast
  moreover have "r + 2 \<le> length b \<Longrightarrow> u16_at b r = Inr (from_be [b ! r, b ! (r + 1)])"
    by (simp add: u16_at_ok)
  moreover have "\<exists>x. sni_loop b (r + 2) (min (r + 2 + n) (length b)) = Inr x" for n
    by (rule sni_loop_total) simp
  ultimately show ?thesis
    using False by (simp add: extract_sni_def)
qed (simp add: extract_sni_def)

text \<open>C26. Looking for the server name never indexes outside the buffer: for every byte sequence, truncated or
hostile, the parser returns a result.\<close>

theorem extract_sni_never_panics: "\<exists>sni. extract_sni b = Inr sni"
  by (rule extract_sni_total)

section \<open>The name of a well-formed ClientHello\<close>

definition extension_bytes :: "nat \<times> bytes \<Rightarrow> bytes" where
  "extension_bytes e = be_bytes 2 (fst e) @ be_bytes 2 (length (snd e)) @ snd e"

definition server_name_extension :: "bytes \<Rightarrow> nat \<times> bytes" where
  "server_name_extension host = (0, be_bytes 2 (length host + 3) @ [0] @ be_bytes 2 (length host) @ host)"

definition client_hello :: "bytes \<Rightarrow> bytes \<Rightarrow> bytes \<Rightarrow> bytes \<Rightarrow> bytes \<Rightarrow> bytes" where
  "client_hello fixed session_id ciphers compression extensions =
     [0x16, 0x03] @ fixed @ byte (length session_id) # session_id
       @ be_bytes 2 (length ciphers) @ ciphers @ byte (length compression) # compression
       @ be_bytes 2 (length extensions) @ extensions"



lemma u16_at_append:
  assumes "n < 65536"
  shows "u16_at (pre @ be_bytes 2 n @ post) (length pre) = Inr n"
proof -
  have "from_be (be_bytes 2 n) = n" using assms by simp
  then show ?thesis by (simp add: u16_at_def at_def be_bytes_2 nth_append)
qed

lemma at_append: "at (pre @ x # post) (length pre) = Inr x"
  by (simp add: at_def)

lemma slice_append: "slice (pre @ mid @ post) (length pre) (length pre + length mid) = Inr mid"
  by (simp add: slice_def)

lemma length_extension_bytes [simp]: "length (extension_bytes e) = 4 + length (snd e)"
  by (simp add: extension_bytes_def)

lemma sni_loop_step:
  assumes b: "b = pre @ extension_bytes (t, body) @ post"
    and len: "t < 65536" "length body < 65536" "length pre + 4 + length body \<le> e"
  shows "sni_loop b (length pre) e =
     (if t = 0 then parse_server_name body (length body) else sni_loop b (length pre + 4 + length body) e)"
proof -
  have "u16_at b (length pre) = Inr t"
    using u16_at_append [OF len(1), of pre "be_bytes 2 (length body) @ body @ post"] b
    by (simp add: extension_bytes_def)
  moreover have "u16_at b (length pre + 2) = Inr (length body)"
    using u16_at_append [OF len(2), of "pre @ be_bytes 2 t" "body @ post"] b
    by (simp add: extension_bytes_def)
  moreover have "slice b (length pre + 4) (length pre + 4 + length body) = Inr body"
    using slice_append [of "pre @ be_bytes 2 t @ be_bytes 2 (length body)" body post] b
    by (simp add: extension_bytes_def)
  ultimately show ?thesis
    using len by (subst sni_loop.simps) (simp add: Let_def)
qed

lemma length_server_name_extension [simp]: "length (snd (server_name_extension host)) = length host + 5"
  by (simp add: server_name_extension_def)

lemma server_name_extension_pair: "(0, snd (server_name_extension host)) = server_name_extension host"
  by (simp add: server_name_extension_def)

lemma parse_server_name_extension:
  assumes "host \<noteq> []" "length host + 5 < 65536"
  shows "parse_server_name (snd (server_name_extension host)) (length host + 5) = Inr (from_utf8 host)"
proof -
  let ?e = "snd (server_name_extension host)"
  have "u16_at ?e 0 = Inr (length host + 3)"
    using u16_at_append [of "length host + 3" "[]"] assms by (simp add: server_name_extension_def)
  moreover have "u16_at ?e 3 = Inr (length host)"
    using u16_at_append [of "length host" "be_bytes 2 (length host + 3) @ [0]" host] assms
    by (simp add: server_name_extension_def)
  moreover have "at ?e 2 = Inr 0"
    using at_append [of "be_bytes 2 (length host + 3)" 0] by (simp add: server_name_extension_def)
  moreover have "length ?e = length host + 5" "drop 5 ?e = host" "0 < length host"
    using assms by (simp_all add: server_name_extension_def)
  ultimately show ?thesis
    by (simp add: parse_server_name_def)
qed

lemma sni_loop_finds:
  assumes "list_all (\<lambda>(t, body). t \<noteq> 0 \<and> t < 65536 \<and> length body < 65536) others"
    and "host \<noteq> []" "length host + 5 < 65536"
    and "b = pre @ concat (map extension_bytes others) @ extension_bytes (server_name_extension host) @ post"
    and "length pre + length (concat (map extension_bytes others)) + 9 + length host \<le> e"
  shows "sni_loop b (length pre) e = Inr (from_utf8 host)"
  using assms(1,4,5)
proof (induction others arbitrary: pre)
  case Nil
  then show ?case
    using sni_loop_step [of b pre 0 "snd (server_name_extension host)" post e]
      parse_server_name_extension [OF assms(2,3)] assms(3)
    by (simp add: server_name_extension_pair add.assoc)
next
  case (Cons o' others)
  obtain t body where o: "o' = (t, body)" by (cases o')
  then have "sni_loop b (length pre) e = sni_loop b (length (pre @ extension_bytes (t, body))) e"
    using Cons.prems
      sni_loop_step [of b pre t body "concat (map extension_bytes others) @ extension_bytes (server_name_extension host) @ post" e]
    by (simp add: add.assoc)
  also have "\<dots> = Inr (from_utf8 host)"
    using Cons.prems o by (intro Cons.IH) (simp_all add: add.assoc)
  finally show ?case .
qed

text \<open>C27. The server name of a well-formed ClientHello is found: behind a session id, cipher suites, compression
methods and any extensions of other types, and whatever follows.\<close>

theorem extract_sni_finds_server_name:
  assumes "length fixed = 41" "length session_id < 256" "length ciphers < 65536" "length compression < 256"
    "list_all (\<lambda>(t, body). t \<noteq> 0 \<and> t < 65536 \<and> length body < 65536) others"
    "host \<noteq> []" "length host + 5 < 65536"
    "exts = concat (map extension_bytes others) @ extension_bytes (server_name_extension host) @ later"
    "length exts < 65536"
  shows "extract_sni (client_hello fixed session_id ciphers compression exts @ rest) = Inr (from_utf8 host)"
proof -
  let ?b = "client_hello fixed session_id ciphers compression exts @ rest"
  let ?h = "[0x16, 0x03] @ fixed"
  let ?s = "?h @ byte (length session_id) # session_id"
  let ?c = "?s @ be_bytes 2 (length ciphers) @ ciphers"
  let ?k = "?c @ byte (length compression) # compression"
  have b: "?b = ?h @ byte (length session_id) # (session_id @ be_bytes 2 (length ciphers) @ ciphers
        @ byte (length compression) # compression @ be_bytes 2 (length exts) @ exts @ rest)"
    "?b = ?s @ be_bytes 2 (length ciphers) @ (ciphers @ byte (length compression) # compression
        @ be_bytes 2 (length exts) @ exts @ rest)"
    "?b = ?c @ byte (length compression) # (compression @ be_bytes 2 (length exts) @ exts @ rest)"
    "?b = ?k @ be_bytes 2 (length exts) @ (exts @ rest)"
    by (simp_all add: client_hello_def)
  have "at ?b 0 = Inr 0x16" "at ?b 1 = Inr 0x03"
    using at_append [of "[]" "0x16"] at_append [of "[0x16]" "0x03"] by (simp_all add: client_hello_def)
  moreover have "skip_session_id ?b 43 = Inr (length ?s)"
    using at_append [of ?h] assms(1,2) unfolding b(1) by (simp add: skip_session_id_def)
  moreover have "skip_cipher_suites ?b (length ?s) = Inr (length ?c)"
    using u16_at_append [OF assms(3), of ?s] unfolding b(2) by (simp add: skip_cipher_suites_def add.assoc)
  moreover have "skip_compression ?b (length ?c) = Inr (length ?k)"
    using at_append [of ?c] assms(4) unfolding b(3) by (simp add: skip_compression_def)
  moreover have "u16_at ?b (length ?k) = Inr (length exts)"
    using u16_at_append [OF assms(9), of ?k] unfolding b(4) .
  moreover have "sni_loop ?b (length (?k @ be_bytes 2 (length exts))) (length ?k + 2 + length exts) = Inr (from_utf8 host)"
    by (rule sni_loop_finds [OF assms(5-7), where post = "later @ rest"])
       (use assms(8) in \<open>simp_all add: client_hello_def\<close>)
  moreover have "length ?k + 2 + length exts \<le> length ?b" "43 < length ?b"
    using assms(1) unfolding b(4) by simp_all
  ultimately show ?thesis
    unfolding extract_sni_def by (simp add: min_absorb1 del: append_assoc)
qed

theorem extract_sni_finds_server_name_witness:
  "extract_sni (client_hello (replicate 41 0) [] [0x13, 0x01] [0]
     (extension_bytes (10, [0, 0]) @ extension_bytes (server_name_extension [0x61, 0x2E, 0x62])) @ [1, 2])
   = Inr (Some (lit ''a.b''))"
proof -
  have "from_utf8 [0x61, 0x2E, 0x62] = Some (lit ''a.b'')"
    by (simp add: lit_def of_char_Char)
  then show ?thesis
    using extract_sni_finds_server_name [of "replicate 41 0" "[]" "[0x13, 0x01]" "[0]" "[(10, [0, 0])]" "[0x61, 0x2E, 0x62]"
        "extension_bytes (10, [0, 0]) @ extension_bytes (server_name_extension [0x61, 0x2E, 0x62])" "[]" "[1, 2]"]
    by simp
qed

section \<open>The probe of a stream\<close>

text \<open>Probing for the server name leaves the connection as it was: on a connection that delivers at least one
byte the probe succeeds, and the stream handed on delivers the same bytes.\<close>

theorem sni_probe_transparent:
  assumes "arrives s bs" "bs \<noteq> []"
  shows "\<exists>t sni. sni_process_stream s = Inr (t, sni) \<and> arrives t bs"
proof -
  obtain k t where k: "0 < k" "k \<le> length bs" "read_some 4096 s = (Inr (take k bs), t)" "arrives t (drop k bs)"
    by (rule read_some_arrives [OF assms(1), of 4096]) (use assms(2) in auto)
  moreover obtain sni where "extract_sni (take k bs) = Inr sni"
    using extract_sni_total by blast
  ultimately show ?thesis
    using assms(2) by (auto simp: sni_process_stream_def prefixed_stream_def)
qed

theorem sni_probe_transparent_witness:
  "\<exists>t sni. sni_process_stream [Some [0x16, 0x03], Some [1]] = Inr (t, sni) \<and> arrives t [0x16, 0x03, 1]"
  using sni_probe_transparent [of "[Some [0x16, 0x03], Some [1]]" "[0x16, 0x03, 1]"] by simp

end
