(* ===== verification/Rtcp_Package.thy ===== *)
theory Rtcp_Package
  imports Wire
begin

text \<open>The control packages of an RTCP tunnel (\<open>rtcp/package.rs\<close>) and the datagram framing (\<open>rtcp/datagram.rs\<close>).

A package is a length of two bytes, the position of the JSON text, a command byte, a sequence number and
the JSON text of the body; a length of zero announces a stream id of 32 hexadecimal digits. JSON is read
and written by \<open>serde_json\<close>: the record \<open>serde\<close> holds the functions the code calls, a parser of text and,
for every body, a reader of values and a printer.\<close>

section \<open>Packages\<close>

datatype CmdType =
    UnknownProtocol | HelloCmd | HelloAckCmd | PingCmd | PongCmd | ROpenCmd | ROpenRespCmd | OpenCmd
  | OpenRespCmd | HelloAckConfirmCmd | TunnelResultCmd

definition cmd_from_u8 :: "u8 \<Rightarrow> CmdType" where
  "cmd_from_u8 v =
     (if v = 1 then HelloCmd else if v = 2 then HelloAckCmd else if v = 3 then PingCmd else if v = 4 then PongCmd
      else if v = 5 then ROpenCmd else if v = 6 then ROpenRespCmd else if v = 7 then OpenCmd
      else if v = 8 then OpenRespCmd else if v = 9 then HelloAckConfirmCmd else if v = 10 then TunnelResultCmd
      else UnknownProtocol)"

fun cmd_to_u8 :: "CmdType \<Rightarrow> u8" where
  "cmd_to_u8 UnknownProtocol = 0"
| "cmd_to_u8 HelloCmd = 1"
| "cmd_to_u8 HelloAckCmd = 2"
| "cmd_to_u8 PingCmd = 3"
| "cmd_to_u8 PongCmd = 4"
| "cmd_to_u8 ROpenCmd = 5"
| "cmd_to_u8 ROpenRespCmd = 6"
| "cmd_to_u8 OpenCmd = 7"
| "cmd_to_u8 OpenRespCmd = 8"
| "cmd_to_u8 HelloAckConfirmCmd = 9"
| "cmd_to_u8 TunnelResultCmd = 10"

record 'b RTcpTunnelPackageImpl =
  pkg_len :: u16
  pkg_json_pos :: u8
  pkg_cmd :: u8
  pkg_seq :: u32
  pkg_body :: 'b

datatype StreamPurpose = StreamPurpose | DatagramPurpose

record RTcpHelloBody =
  from_id :: str
  to_id :: str
  my_port :: u16
  tunnel_token :: "str option"
  device_doc_jwt :: "str option"

record RTcpHelloAckBody =
  ack_token :: str
  challenge :: str
  responder_id :: str

record RTcpHelloAckConfirmBody =
  challenge_echo :: str

record RTcpTunnelResultBody =
  accepted :: bool
  reason :: str

record RTcpPingBody =
  ping_timestamp :: u64

record RTcpPongBody =
  pong_timestamp :: u64

record RTcpROpenBody =
  ropen_stream_id :: str
  ropen_purpose :: "StreamPurpose option"
  ropen_dest_port :: u16
  ropen_dest_host :: "str option"

record RTcpROpenRespBody =
  ropen_result :: u32

record RTcpOpenBody =
  open_stream_id :: str
  open_purpose :: "StreamPurpose option"
  open_dest_port :: u16
  open_dest_host :: "str option"

record RTcpOpenRespBody =
  open_result :: u32

type_synonym RTcpHelloPackage = "RTcpHelloBody RTcpTunnelPackageImpl"
type_synonym RTcpHelloAckPackage = "RTcpHelloAckBody RTcpTunnelPackageImpl"
type_synonym RTcpHelloAckConfirmPackage = "RTcpHelloAckConfirmBody RTcpTunnelPackageImpl"
type_synonym RTcpTunnelResultPackage = "RTcpTunnelResultBody RTcpTunnelPackageImpl"
type_synonym RTcpPingPackage = "RTcpPingBody RTcpTunnelPackageImpl"
type_synonym RTcpPongPackage = "RTcpPongBody RTcpTunnelPackageImpl"
type_synonym RTcpROpenPackage = "RTcpROpenBody RTcpTunnelPackageImpl"
type_synonym RTcpROpenRespPackage = "RTcpROpenRespBody RTcpTunnelPackageImpl"
type_synonym RTcpOpenPackage = "RTcpOpenBody RTcpTunnelPackageImpl"
type_synonym RTcpOpenRespPackage = "RTcpOpenRespBody RTcpTunnelPackageImpl"

definition package :: "CmdType \<Rightarrow> u32 \<Rightarrow> 'b \<Rightarrow> 'b RTcpTunnelPackageImpl" where
  "package cmd seq body = \<lparr> pkg_len = 0, pkg_json_pos = 0, pkg_cmd = cmd_to_u8 cmd, pkg_seq = seq, pkg_body = body \<rparr>"

record 'j serde =
  from_str :: "str \<Rightarrow> 'j option"
  hello_of :: "'j \<Rightarrow> RTcpHelloBody option"
  hello_str :: "RTcpHelloBody \<Rightarrow> str"
  hello_ack_of :: "'j \<Rightarrow> RTcpHelloAckBody option"
  hello_ack_str :: "RTcpHelloAckBody \<Rightarrow> str"
  hello_ack_confirm_of :: "'j \<Rightarrow> RTcpHelloAckConfirmBody option"
  hello_ack_confirm_str :: "RTcpHelloAckConfirmBody \<Rightarrow> str"
  tunnel_result_of :: "'j \<Rightarrow> RTcpTunnelResultBody option"
  tunnel_result_str :: "RTcpTunnelResultBody \<Rightarrow> str"
  ping_of :: "'j \<Rightarrow> RTcpPingBody option"
  ping_str :: "RTcpPingBody \<Rightarrow> str"
  pong_of :: "'j \<Rightarrow> RTcpPongBody option"
  pong_str :: "RTcpPongBody \<Rightarrow> str"
  ropen_of :: "'j \<Rightarrow> RTcpROpenBody option"
  ropen_str :: "RTcpROpenBody \<Rightarrow> str"
  ropen_resp_of :: "'j \<Rightarrow> RTcpROpenRespBody option"
  ropen_resp_str :: "RTcpROpenRespBody \<Rightarrow> str"
  open_of :: "'j \<Rightarrow> RTcpOpenBody option"
  open_str :: "RTcpOpenBody \<Rightarrow> str"
  open_resp_of :: "'j \<Rightarrow> RTcpOpenRespBody option"
  open_resp_str :: "RTcpOpenRespBody \<Rightarrow> str"

subsection \<open>Constructors\<close>

definition hello_new :: "u32 \<Rightarrow> str \<Rightarrow> str \<Rightarrow> u16 \<Rightarrow> str option \<Rightarrow> str option \<Rightarrow> RTcpHelloPackage" where
  "hello_new seq frm to port token doc =
     package HelloCmd seq \<lparr> from_id = frm, to_id = to, my_port = port, tunnel_token = token, device_doc_jwt = doc \<rparr>"

definition hello_ack_new :: "u32 \<Rightarrow> str \<Rightarrow> str \<Rightarrow> str \<Rightarrow> RTcpHelloAckPackage" where
  "hello_ack_new seq token chal responder =
     package HelloAckCmd seq \<lparr> ack_token = token, challenge = chal, responder_id = responder \<rparr>"

definition hello_ack_confirm_new :: "u32 \<Rightarrow> str \<Rightarrow> RTcpHelloAckConfirmPackage" where
  "hello_ack_confirm_new seq echo =
     package HelloAckConfirmCmd seq \<lparr> challenge_echo = echo \<rparr>"

definition tunnel_result_new :: "u32 \<Rightarrow> bool \<Rightarrow> str \<Rightarrow> RTcpTunnelResultPackage" where
  "tunnel_result_new seq ok why = package TunnelResultCmd seq \<lparr> accepted = ok, reason = why \<rparr>"

definition tunnel_accepted :: "u32 \<Rightarrow> RTcpTunnelResultPackage" where
  "tunnel_accepted seq = tunnel_result_new seq True []"

definition tunnel_rejected :: "u32 \<Rightarrow> str \<Rightarrow> RTcpTunnelResultPackage" where
  "tunnel_rejected seq why = tunnel_result_new seq False why"

definition ping_new :: "u32 \<Rightarrow> u64 \<Rightarrow> RTcpPingPackage" where
  "ping_new seq ts =
     package PingCmd seq \<lparr> ping_timestamp = ts \<rparr>"

definition pong_new :: "u32 \<Rightarrow> u64 \<Rightarrow> RTcpPongPackage" where
  "pong_new seq ts =
     package PongCmd seq \<lparr> pong_timestamp = ts \<rparr>"

definition ropen_new :: "u32 \<Rightarrow> str \<Rightarrow> StreamPurpose option \<Rightarrow> u16 \<Rightarrow> str option \<Rightarrow> RTcpROpenPackage" where
  "ropen_new seq session_key purpose port host =
     package ROpenCmd seq \<lparr> ropen_stream_id = session_key, ropen_purpose = purpose, ropen_dest_port = port, ropen_dest_host = host \<rparr>"

definition ropen_resp_new :: "u32 \<Rightarrow> u32 \<Rightarrow> RTcpROpenRespPackage" where
  "ropen_resp_new seq res =
     package ROpenRespCmd seq \<lparr> ropen_result = res \<rparr>"

definition open_new :: "u32 \<Rightarrow> str \<Rightarrow> StreamPurpose option \<Rightarrow> u16 \<Rightarrow> str option \<Rightarrow> RTcpOpenPackage" where
  "open_new seq session_key purpose port host =
     package OpenCmd seq \<lparr> open_stream_id = session_key, open_purpose = purpose, open_dest_port = port, open_dest_host = host \<rparr>"

definition open_resp_new :: "u32 \<Rightarrow> u32 \<Rightarrow> RTcpOpenRespPackage" where
  "open_resp_new seq res =
     package OpenRespCmd seq \<lparr> open_result = res \<rparr>"

subsection \<open>Reading bodies\<close>

definition parse_package_error :: io_error where
  "parse_package_error = InvalidData ''parse package error''"

definition hello_from_json :: "'j serde \<Rightarrow> u32 \<Rightarrow> 'j \<Rightarrow> (io_error, RTcpHelloPackage) result" where
  "hello_from_json J seq v =
     (case hello_of J v of None \<Rightarrow> Inl parse_package_error | Some b \<Rightarrow> Inr (package HelloCmd seq b))"

definition hello_ack_from_json :: "'j serde \<Rightarrow> u32 \<Rightarrow> 'j \<Rightarrow> (io_error, RTcpHelloAckPackage) result" where
  "hello_ack_from_json J seq v =
     (case hello_ack_of J v of None \<Rightarrow> Inl parse_package_error | Some b \<Rightarrow> Inr (package HelloAckCmd seq b))"

definition hello_ack_confirm_from_json :: "'j serde \<Rightarrow> u32 \<Rightarrow> 'j \<Rightarrow> (io_error, RTcpHelloAckConfirmPackage) result" where
  "hello_ack_confirm_from_json J seq v =
     (case hello_ack_confirm_of J v of None \<Rightarrow> Inl parse_package_error | Some b \<Rightarrow> Inr (package HelloAckConfirmCmd seq b))"

definition tunnel_result_from_json :: "'j serde \<Rightarrow> u32 \<Rightarrow> 'j \<Rightarrow> (io_error, RTcpTunnelResultPackage) result" where
  "tunnel_result_from_json J seq v =
     (case tunnel_result_of J v of None \<Rightarrow> Inl parse_package_error | Some b \<Rightarrow> Inr (package TunnelResultCmd seq b))"

definition ping_from_json :: "'j serde \<Rightarrow> u32 \<Rightarrow> 'j \<Rightarrow> (io_error, RTcpPingPackage) result" where
  "ping_from_json J seq v =
     (case ping_of J v of None \<Rightarrow> Inl parse_package_error | Some b \<Rightarrow> Inr (package PingCmd seq b))"

definition pong_from_json :: "'j serde \<Rightarrow> u32 \<Rightarrow> 'j \<Rightarrow> (io_error, RTcpPongPackage) result" where
  "pong_from_json J seq v =
     (case pong_of J v of None \<Rightarrow> Inl parse_package_error | Some b \<Rightarrow> Inr (package PongCmd seq b))"

definition ropen_from_json :: "'j serde \<Rightarrow> u32 \<Rightarrow> 'j \<Rightarrow> (io_error, RTcpROpenPackage) result" where
  "ropen_from_json J seq v =
     (case ropen_of J v of None \<Rightarrow> Inl parse_package_error | Some b \<Rightarrow> Inr (package ROpenCmd seq b))"

definition ropen_resp_from_json :: "'j serde \<Rightarrow> u32 \<Rightarrow> 'j \<Rightarrow> (io_error, RTcpROpenRespPackage) result" where
  "ropen_resp_from_json J seq v =
     (case ropen_resp_of J v of None \<Rightarrow> Inl parse_package_error | Some b \<Rightarrow> Inr (package ROpenRespCmd seq b))"

definition open_from_json :: "'j serde \<Rightarrow> u32 \<Rightarrow> 'j \<Rightarrow> (io_error, RTcpOpenPackage) result" where
  "open_from_json J seq v =
     (case open_of J v of None \<Rightarrow> Inl parse_package_error | Some b \<Rightarrow> Inr (package OpenCmd seq b))"

definition open_resp_from_json :: "'j serde \<Rightarrow> u32 \<Rightarrow> 'j \<Rightarrow> (io_error, RTcpOpenRespPackage) result" where
  "open_resp_from_json J seq v =
     (case open_resp_of J v of None \<Rightarrow> Inl parse_package_error | Some b \<Rightarrow> Inr (package OpenRespCmd seq b))"

datatype RTcpTunnelPackage =
    HelloStream str
  | Hello RTcpHelloPackage
  | HelloAck RTcpHelloAckPackage
  | HelloAckConfirm RTcpHelloAckConfirmPackage
  | TunnelResult RTcpTunnelResultPackage
  | Ping RTcpPingPackage
  | Pong RTcpPongPackage
  | ROpen RTcpROpenPackage
  | ROpenResp RTcpROpenRespPackage
  | Open RTcpOpenPackage
  | OpenResp RTcpOpenRespPackage

definition dispatch_package :: "'j serde \<Rightarrow> u8 \<Rightarrow> u32 \<Rightarrow> 'j \<Rightarrow> (io_error, RTcpTunnelPackage) result" where
  "dispatch_package J cmd_type seq v =
     (case cmd_from_u8 cmd_type of
        HelloCmd \<Rightarrow> and_then (hello_from_json J seq v) (\<lambda>p. Inr (Hello p))
      | HelloAckCmd \<Rightarrow> and_then (hello_ack_from_json J seq v) (\<lambda>p. Inr (HelloAck p))
      | HelloAckConfirmCmd \<Rightarrow> and_then (hello_ack_confirm_from_json J seq v) (\<lambda>p. Inr (HelloAckConfirm p))
      | TunnelResultCmd \<Rightarrow> and_then (tunnel_result_from_json J seq v) (\<lambda>p. Inr (TunnelResult p))
      | PingCmd \<Rightarrow> and_then (ping_from_json J seq v) (\<lambda>p. Inr (Ping p))
      | PongCmd \<Rightarrow> and_then (pong_from_json J seq v) (\<lambda>p. Inr (Pong p))
      | ROpenCmd \<Rightarrow> and_then (ropen_from_json J seq v) (\<lambda>p. Inr (ROpen p))
      | ROpenRespCmd \<Rightarrow> and_then (ropen_resp_from_json J seq v) (\<lambda>p. Inr (ROpenResp p))
      | OpenCmd \<Rightarrow> and_then (open_from_json J seq v) (\<lambda>p. Inr (Open p))
      | OpenRespCmd \<Rightarrow> and_then (open_resp_from_json J seq v) (\<lambda>p. Inr (OpenResp p))
      | UnknownProtocol \<Rightarrow> Inl (InvalidData ''Unsupported package type''))"

section \<open>Framing\<close>

definition HEADER_LEN :: nat where "HEADER_LEN = 8"

definition is_hexdigit :: "nat \<Rightarrow> bool" where
  "is_hexdigit c = ((48 \<le> c \<and> c \<le> 57) \<or> (65 \<le> c \<and> c \<le> 70) \<or> (97 \<le> c \<and> c \<le> 102))"

definition read_hello_stream :: "stream \<Rightarrow> (io_error, RTcpTunnelPackage) result \<times> stream" where
  "read_hello_stream s =
     (case read_exact 32 s of
        (Inl e, t) \<Rightarrow> (Inl e, t)
      | (Inr buf, t) \<Rightarrow>
          (case from_utf8 buf of
             None \<Rightarrow> (Inl (InvalidData ''HelloStream stream id is not UTF-8''), t)
           | Some session_key \<Rightarrow>
               if \<not> list_all is_hexdigit (map unat buf)
               then (Inl (InvalidData ''HelloStream stream id must be 32 hexadecimal ASCII bytes''), t)
               else (Inr (HelloStream session_key), t)))"

definition parse_body :: "'j serde \<Rightarrow> nat \<Rightarrow> bytes \<Rightarrow> (io_error, RTcpTunnelPackage) result" where
  "parse_body J len buf =
     (case buf of
        [] \<Rightarrow> Inl (InvalidData ''missing json_pos'')
      | json_pos # _ \<Rightarrow>
          if unat json_pos \<noteq> HEADER_LEN then Inl (InvalidData ''rtcp v4 requires json_pos=8'')
          else if len < unat json_pos then Inl (InvalidData ''json_pos is beyond package length'')
          else if length buf < 2 then Inl (InvalidData ''missing command'')
          else if length buf < 6 then Inl (InvalidData ''missing sequence'')
          else let seq = word_of_nat (from_be (take 4 (drop 2 buf))) in
               if unat json_pos < 2 then Inl (InvalidData ''json_pos is before length field'')
               else if length buf < unat json_pos - 2 then Inl (InvalidData ''JSON offset is beyond package body'')
               else let read_buf = drop (unat json_pos - 2) buf in
                    if read_buf = [] then Inl (InvalidData ''rtcp control package has empty JSON body'')
                    else case from_utf8 read_buf of
                      None \<Rightarrow> Inl (InvalidData ''rtcp JSON body is not UTF-8'')
                    | Some json_str \<Rightarrow>
                        (case from_str J json_str of
                           None \<Rightarrow> Inl (InvalidData ''Parse rtcp package JSON error'')
                         | Some v \<Rightarrow> dispatch_package J (buf ! 1) seq v))"

definition read_package :: "'j serde \<Rightarrow> stream \<Rightarrow> bool \<Rightarrow> (io_error, RTcpTunnelPackage) result \<times> stream" where
  "read_package J s is_first_package =
     (case read_exact 2 s of
        (Inl e, t) \<Rightarrow> (Inl e, t)
      | (Inr buf, t) \<Rightarrow>
          (let len = from_be buf in
           if len = 0 then
             if \<not> is_first_package then (Inl (InvalidData ''first package is not HelloStream''), t)
             else read_hello_stream t
           else if len < HEADER_LEN then (Inl (InvalidData ''rtcp control package length is smaller than 8''), t)
           else (case read_exact (len - 2) t of
                   (Inl e, u) \<Rightarrow> (Inl e, u)
                 | (Inr buf, u) \<Rightarrow> (parse_body J len buf, u))))"

datatype send_error = PackageTooLong nat | InvalidStreamId

text \<open>The senders return the bytes that they hand to \<open>write_all\<close>.\<close>

definition send_package :: "('b \<Rightarrow> str) \<Rightarrow> 'b RTcpTunnelPackageImpl \<Rightarrow> (send_error, bytes) result" where
  "send_package to_string pkg =
     (let body_bytes = as_bytes (to_string (pkg_body pkg));
          json_pos = 2 + 1 + 1 + 4;
          total_len = 2 + 1 + 1 + 4 + length body_bytes
      in if 0xffff < total_len then Inl (PackageTooLong total_len)
         else Inr (be_bytes 2 total_len @ [json_pos] @ [pkg_cmd pkg] @ be_bytes 4 (unat (pkg_seq pkg)) @ body_bytes))"

definition send_hello_stream :: "str \<Rightarrow> (send_error, bytes) result" where
  "send_hello_stream session_key =
     (let key = as_bytes session_key in
      if length key \<noteq> 32 \<or> \<not> list_all is_hexdigit (map unat key) then Inl InvalidStreamId
      else Inr (be_bytes 2 0 @ key))"

text \<open>The packages of one direction of a tunnel, as its two ends exchange them.\<close>

fun send_message :: "'j serde \<Rightarrow> RTcpTunnelPackage \<Rightarrow> (send_error, bytes) result" where
  "send_message J (HelloStream key) = send_hello_stream key"
| "send_message J (Hello p) = send_package (hello_str J) p"
| "send_message J (HelloAck p) = send_package (hello_ack_str J) p"
| "send_message J (HelloAckConfirm p) = send_package (hello_ack_confirm_str J) p"
| "send_message J (TunnelResult p) = send_package (tunnel_result_str J) p"
| "send_message J (Ping p) = send_package (ping_str J) p"
| "send_message J (Pong p) = send_package (pong_str J) p"
| "send_message J (ROpen p) = send_package (ropen_str J) p"
| "send_message J (ROpenResp p) = send_package (ropen_resp_str J) p"
| "send_message J (Open p) = send_package (open_str J) p"
| "send_message J (OpenResp p) = send_package (open_resp_str J) p"


section \<open>Messages survive the wire\<close>

definition body_readable :: "'j serde \<Rightarrow> str \<Rightarrow> ('j \<Rightarrow> 'b option) \<Rightarrow> 'b \<Rightarrow> bool" where
  "body_readable J text dec b =
     (list_all scalar_value text \<and> text \<noteq> [] \<and> (case from_str J text of Some v \<Rightarrow> dec v = Some b | None \<Rightarrow> False))"

text \<open>What a tunnel relies on for a message: \<open>serde_json\<close> reads back the text it has written for the body.\<close>

fun serde_ok :: "'j serde \<Rightarrow> RTcpTunnelPackage \<Rightarrow> bool" where
  "serde_ok J (HelloStream key) = True"
| "serde_ok J (Hello p) = body_readable J (hello_str J (pkg_body p)) (hello_of J) (pkg_body p)"
| "serde_ok J (HelloAck p) = body_readable J (hello_ack_str J (pkg_body p)) (hello_ack_of J) (pkg_body p)"
| "serde_ok J (HelloAckConfirm p) = body_readable J (hello_ack_confirm_str J (pkg_body p)) (hello_ack_confirm_of J) (pkg_body p)"
| "serde_ok J (TunnelResult p) = body_readable J (tunnel_result_str J (pkg_body p)) (tunnel_result_of J) (pkg_body p)"
| "serde_ok J (Ping p) = body_readable J (ping_str J (pkg_body p)) (ping_of J) (pkg_body p)"
| "serde_ok J (Pong p) = body_readable J (pong_str J (pkg_body p)) (pong_of J) (pkg_body p)"
| "serde_ok J (ROpen p) = body_readable J (ropen_str J (pkg_body p)) (ropen_of J) (pkg_body p)"
| "serde_ok J (ROpenResp p) = body_readable J (ropen_resp_str J (pkg_body p)) (ropen_resp_of J) (pkg_body p)"
| "serde_ok J (Open p) = body_readable J (open_str J (pkg_body p)) (open_of J) (pkg_body p)"
| "serde_ok J (OpenResp p) = body_readable J (open_resp_str J (pkg_body p)) (open_resp_of J) (pkg_body p)"

text \<open>A message as the constructors build it.\<close>

fun built_message :: "RTcpTunnelPackage \<Rightarrow> bool" where
  "built_message (HelloStream key) = list_all scalar_value key"
| "built_message (Hello p) = (p = package HelloCmd (pkg_seq p) (pkg_body p))"
| "built_message (HelloAck p) = (p = package HelloAckCmd (pkg_seq p) (pkg_body p))"
| "built_message (HelloAckConfirm p) = (p = package HelloAckConfirmCmd (pkg_seq p) (pkg_body p))"
| "built_message (TunnelResult p) = (p = package TunnelResultCmd (pkg_seq p) (pkg_body p))"
| "built_message (Ping p) = (p = package PingCmd (pkg_seq p) (pkg_body p))"
| "built_message (Pong p) = (p = package PongCmd (pkg_seq p) (pkg_body p))"
| "built_message (ROpen p) = (p = package ROpenCmd (pkg_seq p) (pkg_body p))"
| "built_message (ROpenResp p) = (p = package ROpenRespCmd (pkg_seq p) (pkg_body p))"
| "built_message (Open p) = (p = package OpenCmd (pkg_seq p) (pkg_body p))"
| "built_message (OpenResp p) = (p = package OpenRespCmd (pkg_seq p) (pkg_body p))"

fun is_hello_stream :: "RTcpTunnelPackage \<Rightarrow> bool" where
  "is_hello_stream (HelloStream key) = True"
| "is_hello_stream _ = False"

lemma encode_char_nonempty: "encode_char n \<noteq> []"
  by (simp add: encode_char_def)

lemma as_bytes_nonempty: "s \<noteq> [] \<Longrightarrow> as_bytes s \<noteq> []"
  by (cases s) (simp_all add: as_bytes_def encode_char_nonempty)

lemma parse_body_sent:
  assumes "body_readable J text dec b" "length (as_bytes text) + 8 \<le> 0xffff"
  shows "\<exists>v. dec v = Some b \<and>
     parse_body J (length (as_bytes text) + 8) ([8, cmd] @ be_bytes 4 (unat (seq :: u32)) @ as_bytes text)
       = dispatch_package J cmd seq v"
proof -
  obtain v where v: "from_str J text = Some v" "dec v = Some b"
    using assms(1) by (auto simp: body_readable_def split: option.splits)
  have utf8: "from_utf8 (as_bytes text) = Some text" "as_bytes text \<noteq> []"
    using assms(1) by (simp_all add: body_readable_def from_utf8_as_bytes as_bytes_nonempty)
  have "unat seq < 256 ^ 4"
    using unat_u32_less [of seq] by simp
  then have "from_be (be_bytes 4 (unat seq)) = unat seq" by simp
  then show ?thesis
    using v utf8 by (intro exI [of _ v]) (simp add: parse_body_def HEADER_LEN_def)
qed

lemma read_sent_package:
  assumes "send_package to_string p = Inr bs" "p = package cmd seq b" "body_readable J (to_string b) dec b"
    "arrives s (bs @ rest)"
  shows "\<exists>t v. read_package J s first = (dispatch_package J (cmd_to_u8 cmd) seq v, t) \<and> arrives t rest \<and> dec v = Some b"
proof -
  let ?body = "as_bytes (to_string b)" and ?n = "length (as_bytes (to_string b)) + 8"
  let ?frame = "[8, cmd_to_u8 cmd] @ be_bytes 4 (unat seq) @ ?body"
  have n: "?n \<le> 0xffff" and bs: "bs = be_bytes 2 ?n @ ?frame"
    using assms(1,2) by (auto simp: send_package_def package_def Let_def add.commute split: if_splits)
  obtain t where t: "read_exact 2 s = (Inr (be_bytes 2 ?n), t)" "arrives t (?frame @ rest)"
    by (rule read_exact_append [of s "be_bytes 2 ?n" "?frame @ rest"]) (use assms(4) bs in auto)
  obtain u where u: "read_exact (?n - 2) t = (Inr ?frame, u)" "arrives u rest"
    by (rule read_exact_append [OF t(2), of "?n - 2"]) simp_all
  have "from_be (be_bytes 2 ?n) = ?n" using n by simp
  moreover obtain v where "dec v = Some b" "parse_body J ?n ?frame = dispatch_package J (cmd_to_u8 cmd) seq v"
    using parse_body_sent [OF assms(3) n] by auto
  ultimately show ?thesis
    using t u by (auto simp: read_package_def HEADER_LEN_def Let_def)
qed

lemma read_sent_hello_stream:
  assumes "send_hello_stream key = Inr bs" "list_all scalar_value key" "arrives s (bs @ rest)"
  shows "\<exists>t. read_package J s True = (Inr (HelloStream key), t) \<and> arrives t rest"
proof -
  have bs: "bs = be_bytes 2 0 @ as_bytes key" "length (as_bytes key) = 32"
    "list_all is_hexdigit (map unat (as_bytes key))"
    using assms(1) by (auto simp: send_hello_stream_def Let_def split: if_splits)
  obtain t where t: "read_exact 2 s = (Inr (be_bytes 2 0), t)" "arrives t (as_bytes key @ rest)"
    by (rule read_exact_append [of s "be_bytes 2 0" "as_bytes key @ rest"]) (use assms(3) bs in auto)
  obtain u where u: "read_exact 32 t = (Inr (as_bytes key), u)" "arrives u rest"
    by (rule read_exact_append [OF t(2)]) (use bs in simp)
  show ?thesis
    using t u bs from_utf8_as_bytes [OF assms(2)]
    by (auto simp: read_package_def read_hello_stream_def)
qed

lemmas from_json_defs =
  hello_from_json_def hello_ack_from_json_def hello_ack_confirm_from_json_def tunnel_result_from_json_def ping_from_json_def pong_from_json_def ropen_from_json_def ropen_resp_from_json_def open_from_json_def open_resp_from_json_def

lemma read_sent_message:
  assumes "send_message J m = Inr bs" "built_message m" "serde_ok J m" "first \<or> \<not> is_hello_stream m"
    "arrives s (bs @ rest)"
  shows "\<exists>t. read_package J s first = (Inr m, t) \<and> arrives t rest"
proof (cases m)
  case (HelloStream key)
  then show ?thesis
    using assms read_sent_hello_stream [of key bs s rest J] by simp
qed (use assms in \<open>auto dest!: read_sent_package [where J = J and first = first and s = s and rest = rest]
    simp: dispatch_package_def cmd_from_u8_def from_json_defs\<close>)

interpretation control: framing "send_message J" "\<lambda>s. read_package J s False"
    "\<lambda>m. built_message m \<and> serde_ok J m \<and> \<not> is_hello_stream m" for J :: "'j serde"
  by unfold_locales (auto intro: read_sent_message)

text \<open>C9. The control messages of a tunnel arrive as they were sent: when every message is built by the
constructors, JSON bodies are read back by \<open>serde_json\<close>, and the first message may be the stream id, then a
receiver of the bytes reads the same messages in the same order, however the bytes are cut into pieces.\<close>

theorem control_messages_in_order:
  assumes "send_message J m = Inr bs" "mapM (send_message J) ms = Inr bss"
    "list_all built_message (m # ms)" "list_all (serde_ok J) (m # ms)" "list_all (\<lambda>m. \<not> is_hello_stream m) ms"
    "arrives s (bs @ concat bss @ rest)"
  shows "\<exists>t u. read_package J s True = (Inr m, t) \<and>
     recv_many (\<lambda>s. read_package J s False) (length ms) t = (Inr ms, u) \<and> arrives u rest"
proof -
  obtain t where t: "read_package J s True = (Inr m, t)" "arrives t (concat bss @ rest)"
    using read_sent_message [OF assms(1), where first = True and rest = "concat bss @ rest"] assms by auto
  then show ?thesis
    using control.in_order [OF assms(2) _ t(2)] assms(3-5) by (auto simp: list_all_iff)
qed

section \<open>Datagrams\<close>

definition MAX_RTCP_DATAGRAM_BYTES :: nat where "MAX_RTCP_DATAGRAM_BYTES = 65507"

definition new_with_limit :: "nat \<Rightarrow> nat" where
  "new_with_limit max_datagram_bytes = min max_datagram_bytes MAX_RTCP_DATAGRAM_BYTES"

text \<open>\<open>recv_datagram\<close> with a buffer of \<open>buffer_len\<close> bytes returns the bytes it has put into the buffer;
\<open>send_datagram\<close> returns the bytes of its two \<open>write_all\<close> calls.\<close>

definition recv_datagram :: "nat \<Rightarrow> nat \<Rightarrow> stream \<Rightarrow> (io_error, bytes) result \<times> stream" where
  "recv_datagram max_datagram_bytes buffer_len s =
     (case read_exact 4 s of
        (Inl e, t) \<Rightarrow> (Inl e, t)
      | (Inr len_buffer, t) \<Rightarrow>
          (let datagram_len = from_be len_buffer in
           if max_datagram_bytes < datagram_len then (Inl (InvalidData ''rtcp datagram length exceeds protocol limit''), t)
           else if buffer_len < datagram_len then (Inl (OtherError ''recv datagram error with insufficient buffer''), t)
           else read_exact datagram_len t))"

definition send_datagram :: "nat \<Rightarrow> bytes \<Rightarrow> (io_error, bytes) result" where
  "send_datagram max_datagram_bytes buffer =
     (if max_datagram_bytes < length buffer then Inl (InvalidInput ''rtcp datagram length exceeds protocol limit'')
      else Inr (be_bytes 4 (length buffer mod 2 ^ 32) @ buffer))"

interpretation datagram: framing "send_datagram (new_with_limit n)"
    "recv_datagram (new_with_limit n) k" "\<lambda>d. length d \<le> k" for n k
proof
  fix d bs s rest
  assume send: "send_datagram (new_with_limit n) d = Inr bs" and k: "length d \<le> k" and s: "arrives s (bs @ rest)"
  have len: "length d \<le> new_with_limit n" "length d < 2 ^ 32" and bs: "bs = be_bytes 4 (length d) @ d"
    using send by (auto simp: send_datagram_def new_with_limit_def MAX_RTCP_DATAGRAM_BYTES_def split: if_splits)
  obtain t where t: "read_exact 4 s = (Inr (be_bytes 4 (length d)), t)" "arrives t (d @ rest)"
    by (rule read_exact_append [of s "be_bytes 4 (length d)" "d @ rest"]) (use s bs in auto)
  obtain u where u: "read_exact (length d) t = (Inr d, u)" "arrives u rest"
    by (rule read_exact_append [OF t(2)]) auto
  have "from_be (be_bytes 4 (length d)) = length d" using len by simp
  then show "\<exists>t. recv_datagram (new_with_limit n) k s = (Inr d, t) \<and> arrives t rest"
    using t u len k by (simp add: recv_datagram_def Let_def)
qed

text \<open>C28. Datagrams keep their boundaries over a tunnel stream: a receiver whose buffer is large enough for each
receives the datagrams that were sent, in order.\<close>

theorem datagrams_keep_boundaries:
  assumes "mapM (send_datagram (new_with_limit n)) ds = Inr bss" "\<forall>d \<in> set ds. length d \<le> k"
    "arrives s (concat bss @ rest)"
  shows "\<exists>t. recv_many (recv_datagram (new_with_limit n) k) (length ds) s = (Inr ds, t) \<and> arrives t rest"
  using datagram.in_order [OF assms(1) _ assms(3)] assms(2) by (simp add: list_all_iff)

section \<open>Witnesses\<close>

definition sample_key :: str where "sample_key = replicate 32 97"

definition sample_serde :: "unit serde" where
  "sample_serde =
     \<lparr> from_str = (\<lambda>_. Some ()),
       hello_of = (\<lambda>_. None), hello_str = (\<lambda>_. []),
       hello_ack_of = (\<lambda>_. None), hello_ack_str = (\<lambda>_. []),
       hello_ack_confirm_of = (\<lambda>_. None), hello_ack_confirm_str = (\<lambda>_. []),
       tunnel_result_of = (\<lambda>_. None), tunnel_result_str = (\<lambda>_. []),
       ping_of = (\<lambda>_. Some \<lparr> ping_timestamp = 7 \<rparr>), ping_str = (\<lambda>_. lit ''7''),
       pong_of = (\<lambda>_. None), pong_str = (\<lambda>_. []),
       ropen_of = (\<lambda>_. None), ropen_str = (\<lambda>_. []),
       ropen_resp_of = (\<lambda>_. None), ropen_resp_str = (\<lambda>_. []),
       open_of = (\<lambda>_. None), open_str = (\<lambda>_. []),
       open_resp_of = (\<lambda>_. None), open_resp_str = (\<lambda>_. []) \<rparr>"

definition sample_ping :: bytes where "sample_ping = [0, 9, 8, 3, 0, 0, 0, 5, 55]"

lemma sample_messages_sent:
  "send_message sample_serde (HelloStream sample_key) = Inr ([0, 0] @ replicate 32 97)"
  "send_message sample_serde (Ping (ping_new 5 7)) = Inr sample_ping"
proof -
  have key: "as_bytes sample_key = replicate 32 97"
    by (simp add: sample_key_def as_bytes_def encode_char_def byte_def numeral_eq_Suc)
  show "send_message sample_serde (HelloStream sample_key) = Inr ([0, 0] @ replicate 32 97)"
    by (simp add: send_hello_stream_def key be_bytes_2 byte_def is_hexdigit_def list_all_iff)
  show "send_message sample_serde (Ping (ping_new 5 7)) = Inr sample_ping"
    by (simp add: send_package_def sample_serde_def ping_new_def package_def lit_def of_char_Char as_bytes_def encode_char_def
        be_bytes_2 be_bytes_4 byte_def sample_ping_def)
qed

theorem control_messages_in_order_witness:
  "\<exists>t u. read_package sample_serde [Some ([0, 0, 97] @ replicate 31 97 @ [0]), Some (tl sample_ping)] True
           = (Inr (HelloStream sample_key), t) \<and>
     recv_many (\<lambda>s. read_package sample_serde s False) 1 t = (Inr [Ping (ping_new 5 7)], u) \<and> arrives u []"
proof -
  have "arrives [Some ([0, 0, 97] @ replicate 31 97 @ [0]), Some (tl sample_ping)]
      (([0, 0] @ replicate 32 97) @ concat [sample_ping] @ [])"
    by (simp add: sample_ping_def numeral_eq_Suc)
  moreover have "list_all built_message [HelloStream sample_key, Ping (ping_new 5 7)]"
    by (simp add: sample_key_def scalar_value_def list_all_iff ping_new_def package_def)
  moreover have "list_all (serde_ok sample_serde) [HelloStream sample_key, Ping (ping_new 5 7)]"
    by (simp add: body_readable_def sample_serde_def ping_new_def package_def lit_def of_char_Char scalar_value_def)
  ultimately show ?thesis
    using control_messages_in_order [OF sample_messages_sent(1), of "[Ping (ping_new 5 7)]" "[sample_ping]"]
      sample_messages_sent(2) by simp
qed

theorem datagrams_keep_boundaries_witness:
  "\<exists>t. recv_many (recv_datagram (new_with_limit 9000) 100) 2 [Some [0, 0, 0, 2, 7], Some [8, 0, 0, 0, 0]]
     = (Inr [[7, 8], []], t) \<and> arrives t []"
proof -
  have "mapM (send_datagram (new_with_limit 9000)) [[7, 8], []] = Inr [[0, 0, 0, 2, 7, 8], [0, 0, 0, 0]]"
    by (simp add: send_datagram_def new_with_limit_def MAX_RTCP_DATAGRAM_BYTES_def be_bytes_4 byte_def)
  then show ?thesis
    using datagrams_keep_boundaries [of 9000 "[[7, 8], []]" "[[0, 0, 0, 2, 7, 8], [0, 0, 0, 0]]" 100
        "[Some [0, 0, 0, 2, 7], Some [8, 0, 0, 0, 0]]" "[]"]
    by (simp add: numeral_2_eq_2)
qed

end
