(* ===== verification/Rtcp_Tunnel.thy ===== *)
theory Rtcp_Tunnel
  imports Rtcp_Package
begin

text \<open>The replay protection of RTCP tunnels (\<open>rtcp/rtcp.rs\<close>) and the table of awaited streams
(\<open>rtcp/stream_helper.rs\<close>): the cache of handshake nonces, the admission of stream identifiers for the life of
a tunnel key, and the hand-over of connections to the requests that wait for them.

The code runs many requests on one tunnel at once and releases its locks at every \<open>await\<close>. The model therefore
cuts \<open>admit_inbound_stream_build\<close>, \<open>reserve_outbound_stream_id\<close> and \<open>close\<close> into the pieces that run without
interruption; \<open>tunnel_step\<close> interleaves the pieces of any number of requests. The answer of the rate limiter (which
counts in floating point), random bytes, the iteration order of hash maps and the decoder of hexadecimal
text are arguments.\<close>

section \<open>Nonce cache\<close>

definition TUNNEL_TOKEN_EXP_SECS :: nat where "TUNNEL_TOKEN_EXP_SECS = 60"
definition JWT_LEEWAY_SECS :: nat where "JWT_LEEWAY_SECS = 60"
definition NONCE_CACHE_CAP :: nat where "NONCE_CACHE_CAP = 16 * 1024"

definition saturating_add :: "nat \<Rightarrow> nat \<Rightarrow> nat" where
  "saturating_add a b = min (a + b) (2 ^ 64 - 1)"

datatype token_error = ExpBeforeIat | LifetimeTooLong | IatTooFarInFuture

definition validate_token_times :: "nat \<Rightarrow> nat \<Rightarrow> nat \<Rightarrow> (token_error, unit) result" where
  "validate_token_times now iat exp =
     (if exp < iat then Inl ExpBeforeIat
      else if TUNNEL_TOKEN_EXP_SECS < exp - iat then Inl LifetimeTooLong
      else if saturating_add now JWT_LEEWAY_SECS < iat then Inl IatTooFarInFuture
      else Inr ())"

text \<open>The entries of the hash map; \<open>iter\<close> gives the order in which it is iterated.\<close>

type_synonym nonce_key = "str \<times> str"
type_synonym nonce_cache = "(nonce_key \<times> nat) list"

definition soonest :: "nonce_cache \<Rightarrow> nonce_key option" where
  "soonest es =
     (case es of
        [] \<Rightarrow> None
      | e # es \<Rightarrow> Some (fst (foldl (\<lambda>m x. if snd x < snd m then x else m) e es)))"

definition make_room :: "(nonce_cache \<Rightarrow> nonce_cache) \<Rightarrow> nonce_cache \<Rightarrow> nonce_cache" where
  "make_room iter seen =
     (if NONCE_CACHE_CAP \<le> length seen
      then (case soonest (iter seen) of
              Some k \<Rightarrow> filter (\<lambda>e. fst e \<noteq> k) seen
            | None \<Rightarrow> seen)
      else seen)"

definition insert_if_fresh ::
    "(nonce_cache \<Rightarrow> nonce_cache) \<Rightarrow> nonce_cache \<Rightarrow> str \<Rightarrow> str \<Rightarrow> nat \<Rightarrow> nat \<Rightarrow> bool \<times> nonce_cache" where
  "insert_if_fresh iter seen sender nonce retain_until_ts now_ts =
     (let seen = filter (\<lambda>e. now_ts < snd e) seen; key = (sender, nonce) in
      if key \<in> fst ` set seen then (False, seen)
      else (True, (key, retain_until_ts) # make_room iter seen))"

text \<open>What \<open>on_new_tunnel\<close> does with the nonce of a verified Hello token that expires at \<open>exp\<close>.\<close>

definition retain_until :: "nat \<Rightarrow> nat" where
  "retain_until exp = saturating_add exp JWT_LEEWAY_SECS"

record hello_use =
  use_from :: str
  use_nonce :: str
  use_exp :: nat
  use_now :: nat

definition admit_nonce :: "(nonce_cache \<Rightarrow> nonce_cache) \<Rightarrow> nonce_cache \<Rightarrow> hello_use \<Rightarrow> bool \<times> nonce_cache" where
  "admit_nonce iter seen u =
     insert_if_fresh iter seen (use_from u) (use_nonce u) (retain_until (use_exp u)) (use_now u)"

definition after_uses :: "(nonce_cache \<Rightarrow> nonce_cache) \<Rightarrow> hello_use list \<Rightarrow> nonce_cache \<Rightarrow> nonce_cache" where
  "after_uses iter us seen = fold (\<lambda>u seen. snd (admit_nonce iter seen u)) us seen"

section \<open>Stream identifiers\<close>

definition OPEN_RESULT_QUOTA :: nat where "OPEN_RESULT_QUOTA = 1"
definition OPEN_RESULT_RECONNECT_FAILED :: nat where "OPEN_RESULT_RECONNECT_FAILED = 2"
definition OPEN_RESULT_INVALID_STREAM_ID :: nat where "OPEN_RESULT_INVALID_STREAM_ID = 6"
definition OPEN_RESULT_DUPLICATE_STREAM_ID :: nat where "OPEN_RESULT_DUPLICATE_STREAM_ID = 7"
definition OPEN_RESULT_RATE_LIMITED :: nat where "OPEN_RESULT_RATE_LIMITED = 8"
definition OPEN_RESULT_KEY_EPOCH_EXHAUSTED :: nat where "OPEN_RESULT_KEY_EPOCH_EXHAUSTED = 9"
definition MAX_RTCP_TUNNEL_AGE :: duration where "MAX_RTCP_TUNNEL_AGE = 24 * 60 * 60 * 1000000000"

text \<open>The shared parts of \<open>RTcpTunnel\<close>. The clock is part of the state; \<open>granted\<close> is not in the code: it records the
identifiers that have been given out.\<close>

record tunnel =
  closed :: bool
  build_slots :: nat
  slots_closed :: bool
  used_stream_ids :: "bytes list"
  max_stream_ids_per_tunnel :: nat
  tunnel_created_at :: instant
  tunnel_clock :: instant
  granted :: "bytes list"

definition mark_closed :: "tunnel \<Rightarrow> tunnel" where
  "mark_closed t = (if closed t then t else t\<lparr> closed := True, slots_closed := True \<rparr>)"

definition ensure_accepts_new_streams :: "tunnel \<Rightarrow> bool \<times> tunnel" where
  "ensure_accepts_new_streams t =
     (if closed t then (False, t)
      else if MAX_RTCP_TUNNEL_AGE \<le> tunnel_clock t - tunnel_created_at t then (False, mark_closed t)
      else (True, t))"

definition validate_stream_id :: "(str \<Rightarrow> bytes option) \<Rightarrow> str \<Rightarrow> bytes option" where
  "validate_stream_id hex_decode stream_id =
     (if length (as_bytes stream_id) \<noteq> 32 \<or> \<not> list_all is_hexdigit (map unat (as_bytes stream_id)) then None
      else case hex_decode stream_id of
        None \<Rightarrow> None
      | Some bs \<Rightarrow> if length bs = 16 then Some bs else None)"

definition RTCP_PROTOCOL_VERSION :: u8 where "RTCP_PROTOCOL_VERSION = 4"

definition stream_context :: "bytes \<Rightarrow> StreamPurpose \<Rightarrow> bytes" where
  "stream_context stream_id purpose =
     [RTCP_PROTOCOL_VERSION] @ stream_id @ [case purpose of StreamPurpose \<Rightarrow> 0 | DatagramPurpose \<Rightarrow> 1]"

text \<open>\<open>hkdf key info n\<close> stands for the key derivation of the hkdf library.\<close>

definition derive_stream_secrets ::
    "(bytes \<Rightarrow> bytes \<Rightarrow> nat \<Rightarrow> bytes) \<Rightarrow> (str \<Rightarrow> bytes option) \<Rightarrow> bytes \<Rightarrow> str \<Rightarrow> StreamPurpose \<Rightarrow> (bytes \<times> bytes) option" where
  "derive_stream_secrets hkdf hex_decode aes_key stream_id purpose =
     (case validate_stream_id hex_decode stream_id of
        None \<Rightarrow> None
      | Some sid \<Rightarrow>
          (let context = stream_context sid purpose in
           Some (hkdf aes_key (as_bytes (lit ''buckyos-rtcp stream key|'') @ context) 32,
                 hkdf aes_key (as_bytes (lit ''buckyos-rtcp stream iv|'') @ context) 16)))"

subsection \<open>The pieces of the requests\<close>

text \<open>Where a request on the tunnel stands: \<open>admit_inbound_stream_build\<close> before its first check, before the
lookup, the rate limit, the semaphore and the final insertion; the task that holds the permit;
\<open>reserve_outbound_stream_id\<close> with the number of tries left; \<open>close\<close> before and after marking.\<close>

datatype outcome =
    Granted bytes
  | Refused nat
  | BrokenPipe
  | EpochExhausted
  | NoUniqueId
  | Closed

datatype pc =
    InStart str
  | InLookup bytes
  | InRate bytes
  | InPermit bytes
  | InCommit bytes
  | InBuilding bytes
  | OutStart
  | OutTry nat
  | CloseStart outcome
  | CloseClear outcome
  | Returned outcome

definition release_slot :: "tunnel \<Rightarrow> tunnel" where
  "release_slot t = t\<lparr> build_slots := build_slots t + 1 \<rparr>"

definition grant :: "bytes \<Rightarrow> tunnel \<Rightarrow> tunnel" where
  "grant sid t = t\<lparr> used_stream_ids := sid # used_stream_ids t, granted := sid # granted t \<rparr>"

definition in_commit :: "bytes \<Rightarrow> tunnel \<Rightarrow> tunnel \<times> pc" where
  "in_commit sid t =
     (case ensure_accepts_new_streams t of
        (False, t) \<Rightarrow> (release_slot t, Returned (Refused OPEN_RESULT_RECONNECT_FAILED))
      | (True, t) \<Rightarrow>
          if sid \<in> set (used_stream_ids t) then (release_slot t, Returned (Refused OPEN_RESULT_DUPLICATE_STREAM_ID))
          else if max_stream_ids_per_tunnel t \<le> length (used_stream_ids t)
          then (release_slot t, Returned (Refused OPEN_RESULT_KEY_EPOCH_EXHAUSTED))
          else (grant sid t, InBuilding sid))"

definition out_try :: "bytes \<Rightarrow> nat \<Rightarrow> tunnel \<Rightarrow> tunnel \<times> pc" where
  "out_try random tries t =
     (if tries = 0 then (t, Returned NoUniqueId)
      else case ensure_accepts_new_streams t of
        (False, t) \<Rightarrow> (t, Returned BrokenPipe)
      | (True, t) \<Rightarrow>
          if max_stream_ids_per_tunnel t \<le> length (used_stream_ids t) then (t, CloseStart EpochExhausted)
          else if random \<in> set (used_stream_ids t) then (t, OutTry (tries - 1))
          else (grant random t, Returned (Granted random)))"

fun advance :: "(str \<Rightarrow> bytes option) \<Rightarrow> bool \<Rightarrow> bytes \<Rightarrow> tunnel \<Rightarrow> pc \<Rightarrow> tunnel \<times> pc" where
  "advance hex_decode token random t (InStart stream_id) =
     (case ensure_accepts_new_streams t of
        (False, t) \<Rightarrow> (t, Returned (Refused OPEN_RESULT_RECONNECT_FAILED))
      | (True, t) \<Rightarrow>
          (case validate_stream_id hex_decode stream_id of
             None \<Rightarrow> (t, Returned (Refused OPEN_RESULT_INVALID_STREAM_ID))
           | Some sid \<Rightarrow> (t, InLookup sid)))"
| "advance hex_decode token random t (InLookup sid) =
     (if sid \<in> set (used_stream_ids t) then (t, Returned (Refused OPEN_RESULT_DUPLICATE_STREAM_ID)) else (t, InRate sid))"
| "advance hex_decode token random t (InRate sid) =
     (if token then (t, InPermit sid) else (t, Returned (Refused OPEN_RESULT_RATE_LIMITED)))"
| "advance hex_decode token random t (InPermit sid) =
     (if slots_closed t then (t, Returned (Refused OPEN_RESULT_RECONNECT_FAILED))
      else if build_slots t = 0 then (t, Returned (Refused OPEN_RESULT_QUOTA))
      else (t\<lparr> build_slots := build_slots t - 1 \<rparr>, InCommit sid))"
| "advance hex_decode token random t (InCommit sid) = in_commit sid t"
| "advance hex_decode token random t (InBuilding sid) = (release_slot t, Returned (Granted sid))"
| "advance hex_decode token random t OutStart =
     (case ensure_accepts_new_streams t of
        (False, t) \<Rightarrow> (t, Returned BrokenPipe)
      | (True, t) \<Rightarrow> (t, OutTry 16))"
| "advance hex_decode token random t (OutTry tries) = out_try random tries t"
| "advance hex_decode token random t (CloseStart r) = (mark_closed t, CloseClear r)"
| "advance hex_decode token random t (CloseClear r) = (t\<lparr> used_stream_ids := [] \<rparr>, Returned r)"
| "advance hex_decode token random t (Returned r) = (t, Returned r)"

fun starts :: "pc \<Rightarrow> bool" where
  "starts (InStart _) = True"
| "starts OutStart = True"
| "starts (CloseStart r) = (r = Closed)"
| "starts _ = False"

text \<open>A tunnel with the requests that run on it: a request begins, a request runs its next piece, time passes.\<close>

inductive tunnel_step :: "(str \<Rightarrow> bytes option) \<Rightarrow> tunnel \<times> pc list \<Rightarrow> tunnel \<times> pc list \<Rightarrow> bool" for hex_decode where
  spawn: "starts p \<Longrightarrow> tunnel_step hex_decode (t, ps) (t, ps @ [p])"
| run: "i < length ps \<Longrightarrow> advance hex_decode token random t (ps ! i) = (t', p) \<Longrightarrow> length random = 16 \<Longrightarrow>
    tunnel_step hex_decode (t, ps) (t', ps[i := p])"
| tick: "tunnel_clock t \<le> now \<Longrightarrow> tunnel_step hex_decode (t, ps) (t\<lparr> tunnel_clock := now \<rparr>, ps)"

inductive_cases tunnel_stepE: "tunnel_step hex_decode s s'"

abbreviation tunnel_reaches :: "(str \<Rightarrow> bytes option) \<Rightarrow> tunnel \<times> pc list \<Rightarrow> tunnel \<times> pc list \<Rightarrow> bool" where
  "tunnel_reaches hex_decode \<equiv> (tunnel_step hex_decode)\<^sup>*\<^sup>*"

definition new_tunnel :: "nat \<Rightarrow> nat \<Rightarrow> instant \<Rightarrow> tunnel" where
  "new_tunnel slots max_ids now =
     \<lparr> closed = False, build_slots = slots, slots_closed = False, used_stream_ids = [],
       max_stream_ids_per_tunnel = max_ids, tunnel_created_at = now, tunnel_clock = now, granted = [] \<rparr>"

section \<open>The nonce cache keeps what can be replayed\<close>

definition cached :: "nonce_cache \<Rightarrow> nonce_key \<Rightarrow> nat \<Rightarrow> bool" where
  "cached seen key r = ((key, r) \<in> set seen)"

lemma make_room_subset: "set (make_room iter seen) \<subseteq> set seen" "length (make_room iter seen) \<le> length seen"
  by (auto simp: make_room_def split: option.splits)

lemma insert_if_fresh_length: "length (snd (insert_if_fresh iter seen f n r now)) \<le> Suc (length seen)"
proof -
  have "length (filter (\<lambda>e. now < snd e) seen) \<le> length seen" by simp
  then show ?thesis
    using make_room_subset(2) [of iter "filter (\<lambda>e. now < snd e) seen"]
    by (auto simp: insert_if_fresh_def Let_def simp del: length_filter_le)
qed

lemma insert_if_fresh_keeps:
  assumes "cached seen key r" "now < r" "length seen < NONCE_CACHE_CAP"
  shows "cached (snd (insert_if_fresh iter seen f n r' now)) key r"
proof -
  have "\<not> NONCE_CACHE_CAP \<le> length (filter (\<lambda>e. now < snd e) seen)"
    using assms(3) length_filter_le [of "\<lambda>e. now < snd e" seen] by linarith
  then show ?thesis
    using assms(1,2) by (auto simp: insert_if_fresh_def make_room_def cached_def Let_def)
qed

lemma insert_if_fresh_rejects:
  assumes "cached seen (f, n) r" "now < r"
  shows "fst (insert_if_fresh iter seen f n r' now) = False"
  using assms by (force simp: insert_if_fresh_def cached_def Let_def)

lemma insert_if_fresh_caches:
  assumes "fst (insert_if_fresh iter seen f n r now)"
  shows "cached (snd (insert_if_fresh iter seen f n r now)) (f, n) r"
  using assms by (auto simp: insert_if_fresh_def cached_def Let_def split: if_splits)

lemma after_uses_keeps:
  assumes "cached seen key r" "\<And>u. u \<in> set us \<Longrightarrow> use_now u < r" "length seen + length us \<le> NONCE_CACHE_CAP"
  shows "cached (after_uses iter us seen) key r"
  using assms
proof (induction us arbitrary: seen)
  case (Cons u us)
  have "cached (snd (admit_nonce iter seen u)) key r"
    using Cons.prems insert_if_fresh_keeps [of seen key r "use_now u"] by (simp add: admit_nonce_def)
  moreover have "length (snd (admit_nonce iter seen u)) + length us \<le> NONCE_CACHE_CAP"
    using Cons.prems(3) insert_if_fresh_length [of iter seen "use_from u" "use_nonce u" "retain_until (use_exp u)" "use_now u"]
    by (simp add: admit_nonce_def)
  ultimately show ?case
    using Cons.IH [of "snd (admit_nonce iter seen u)"] Cons.prems(2) by (simp add: after_uses_def)
qed (simp add: after_uses_def)

text \<open>C11. A Hello token is not accepted twice: once it has been admitted, the same sender and nonce are
refused before the end of the retention time, whatever other handshakes happen in between, as long
as the cache does not overflow.\<close>

theorem hello_replay_rejected:
  assumes "fst (admit_nonce iter seen u)"
    and "\<forall>v \<in> set us. use_now v < retain_until (use_exp u)"
    and "length seen + length us < NONCE_CACHE_CAP"
    and "use_from w = use_from u" "use_nonce w = use_nonce u" "use_now w < retain_until (use_exp u)"
  shows "fst (admit_nonce iter (after_uses iter us (snd (admit_nonce iter seen u))) w) = False"
proof -
  have "cached (snd (admit_nonce iter seen u)) (use_from u, use_nonce u) (retain_until (use_exp u))"
    using assms(1) by (simp add: admit_nonce_def insert_if_fresh_caches)
  moreover have "length (snd (admit_nonce iter seen u)) + length us \<le> NONCE_CACHE_CAP"
    using assms(3) insert_if_fresh_length [of iter seen "use_from u" "use_nonce u" "retain_until (use_exp u)" "use_now u"]
    by (simp add: admit_nonce_def)
  ultimately have "cached (after_uses iter us (snd (admit_nonce iter seen u))) (use_from u, use_nonce u) (retain_until (use_exp u))"
    using after_uses_keeps assms(2) by blast
  then show ?thesis
    using assms(4-6) insert_if_fresh_rejects by (simp add: admit_nonce_def)
qed

text \<open>C40. The retention time ends one second too early: a token is valid up to and including the second
\<open>exp + JWT_LEEWAY_SECS\<close>, which is the retention time, but in that second the cache has already dropped its entry, so
the token that was just admitted is admitted again.\<close>

theorem hello_replayed_in_last_second:
  assumes "fst (admit_nonce iter seen u)"
    and "use_from w = use_from u" "use_nonce w = use_nonce u" "use_exp w = use_exp u" "use_now w = retain_until (use_exp u)"
  shows "fst (admit_nonce iter (snd (admit_nonce iter seen u)) w)"
proof -
  let ?live = "filter (\<lambda>e. use_now u < snd e) seen"
  obtain rest where rest: "snd (admit_nonce iter seen u) = ((use_from u, use_nonce u), retain_until (use_exp u)) # rest"
    "set rest \<subseteq> set ?live" "(use_from u, use_nonce u) \<notin> fst ` set ?live"
    using assms(1) make_room_subset(1) [of iter ?live]
    by (auto simp: admit_nonce_def insert_if_fresh_def Let_def simp del: filter_set split: if_splits)
  then have "(use_from u, use_nonce u) \<notin> fst ` set (filter (\<lambda>e. use_now w < snd e) (snd (admit_nonce iter seen u)))"
    using assms(5) by auto
  then show ?thesis
    using assms(2,3) by (simp add: admit_nonce_def insert_if_fresh_def Let_def)
qed


text \<open>The number of entries stays within the cap, whatever the iteration order of the hash map.\<close>

lemma soonest_key:
  assumes "set es = set seen" "seen \<noteq> []"
  obtains k where "soonest es = Some k" "k \<in> fst ` set seen"
proof -
  obtain e xs where es: "es = e # xs" using assms by (cases es) auto
  have "foldl (\<lambda>m x. if snd x < snd m then x else m) e xs \<in> set (e # xs)" for e :: "nonce_key \<times> nat" and xs
  proof (induction xs arbitrary: e)
    case (Cons x xs)
    show ?case
      using Cons.IH [of "if snd x < snd e then x else e"] by (auto split: if_splits)
  qed simp
  then have "foldl (\<lambda>m x. if snd x < snd m then x else m) e xs \<in> set seen"
    unfolding assms(1) [symmetric] es .
  then show thesis
    by (intro that [OF _ imageI]) (simp add: soonest_def es)
qed

lemma insert_if_fresh_bounded:
  assumes "\<And>s. set (iter s) = set s" "length seen \<le> NONCE_CACHE_CAP"
  shows "length (snd (insert_if_fresh iter seen f n r now)) \<le> NONCE_CACHE_CAP"
proof -
  let ?live = "filter (\<lambda>e. now < snd e) seen"
  have len: "length ?live \<le> NONCE_CACHE_CAP" using assms(2) length_filter_le [of "\<lambda>e. now < snd e" seen] by linarith
  have "length (make_room iter ?live) < NONCE_CACHE_CAP"
  proof (cases "NONCE_CACHE_CAP \<le> length ?live")
    case True
    then have "?live \<noteq> []" by (auto simp: NONCE_CACHE_CAP_def)
    then obtain k where k: "soonest (iter ?live) = Some k" "k \<in> fst ` set ?live"
      by (rule soonest_key [OF assms(1)])
    then obtain e where "e \<in> set ?live" "fst e = k" by blast
    then have "length (filter (\<lambda>e. fst e \<noteq> k) ?live) < length ?live"
      by (intro length_filter_less [of e]) simp_all
    then show ?thesis using True k len by (simp add: make_room_def)
  qed (simp add: make_room_def)
  then show ?thesis
    using len by (simp add: insert_if_fresh_def Let_def)
qed

section \<open>Stream identifiers are used once\<close>

definition holds_slot :: "pc \<Rightarrow> nat" where
  "holds_slot p = (case p of InCommit _ \<Rightarrow> 1 | InBuilding _ \<Rightarrow> 1 | _ \<Rightarrow> 0)"

definition slots_held :: "pc list \<Rightarrow> nat" where
  "slots_held ps = sum_list (map holds_slot ps)"

definition outcome_ok :: "tunnel \<Rightarrow> outcome \<Rightarrow> bool" where
  "outcome_ok t r = (case r of Granted sid \<Rightarrow> sid \<in> set (granted t) | _ \<Rightarrow> True)"

lemma outcome_ok_simps [simp]:
  "outcome_ok t (Granted sid) = (sid \<in> set (granted t))" "outcome_ok t (Refused c)" "outcome_ok t BrokenPipe"
  "outcome_ok t EpochExhausted" "outcome_ok t NoUniqueId" "outcome_ok t Closed"
  by (simp_all add: outcome_ok_def)

lemma outcome_ok_mono: "outcome_ok t r \<Longrightarrow> set (granted t) \<subseteq> set (granted t') \<Longrightarrow> outcome_ok t' r"
  by (cases r) auto

fun pc_ok :: "tunnel \<Rightarrow> pc \<Rightarrow> bool" where
  "pc_ok t (InLookup sid) = (length sid = 16)"
| "pc_ok t (InRate sid) = (length sid = 16)"
| "pc_ok t (InPermit sid) = (length sid = 16)"
| "pc_ok t (InCommit sid) = (length sid = 16)"
| "pc_ok t (InBuilding sid) = (length sid = 16 \<and> sid \<in> set (granted t))"
| "pc_ok t (CloseStart r) = outcome_ok t r"
| "pc_ok t (CloseClear r) = (closed t \<and> outcome_ok t r)"
| "pc_ok t (Returned r) = outcome_ok t r"
| "pc_ok t _ = True"

definition tunnel_ok :: "tunnel \<Rightarrow> bool" where
  "tunnel_ok t =
     (distinct (granted t) \<and> (\<forall>sid \<in> set (granted t). length sid = 16) \<and>
      (\<not> closed t \<longrightarrow> used_stream_ids t = granted t) \<and>
      length (granted t) \<le> max_stream_ids_per_tunnel t \<and> length (used_stream_ids t) \<le> max_stream_ids_per_tunnel t \<and>
      slots_closed t = closed t)"

text \<open>What one piece of a request may do to the shared state.\<close>

definition evolves :: "tunnel \<Rightarrow> tunnel \<Rightarrow> bool" where
  "evolves t t' =
     ((closed t \<longrightarrow> closed t' \<and> granted t' = granted t) \<and> set (granted t) \<subseteq> set (granted t') \<and>
      max_stream_ids_per_tunnel t' = max_stream_ids_per_tunnel t)"

lemma pc_ok_evolves: "pc_ok t p \<Longrightarrow> evolves t t' \<Longrightarrow> pc_ok t' p"
  by (cases "(t, p)" rule: pc_ok.cases) (auto simp: evolves_def intro: outcome_ok_mono)

lemma mark_closed_ok: "tunnel_ok t \<Longrightarrow> tunnel_ok (mark_closed t) \<and> evolves t (mark_closed t) \<and> closed (mark_closed t) \<and>
   build_slots (mark_closed t) = build_slots t"
  by (auto simp: mark_closed_def tunnel_ok_def evolves_def)

lemma ensure_accepts_cases:
  obtains (no) t' where "ensure_accepts_new_streams t = (False, t')" "t' = t \<or> t' = mark_closed t"
  | (yes) "ensure_accepts_new_streams t = (True, t)" "\<not> closed t"
  by (cases "closed t"; cases "MAX_RTCP_TUNNEL_AGE \<le> tunnel_clock t - tunnel_created_at t")
     (auto simp: ensure_accepts_new_streams_def)

lemma evolves_refl [simp]: "evolves t t"
  by (simp add: evolves_def)

lemma release_slot_simps [simp]:
  "tunnel_ok (release_slot t) = tunnel_ok t" "evolves t' (release_slot t) = evolves t' t"
  "build_slots (release_slot t) = Suc (build_slots t)" "granted (release_slot t) = granted t"
  by (simp_all add: release_slot_def tunnel_ok_def evolves_def)

lemma grant_ok:
  assumes "tunnel_ok t" "\<not> closed t" "sid \<notin> set (used_stream_ids t)" "length sid = 16"
    "\<not> max_stream_ids_per_tunnel t \<le> length (used_stream_ids t)"
  shows "tunnel_ok (grant sid t) \<and> evolves t (grant sid t) \<and> build_slots (grant sid t) = build_slots t \<and> sid \<in> set (granted (grant sid t))"
  using assms by (auto simp: grant_def tunnel_ok_def evolves_def)

definition good_piece :: "tunnel \<Rightarrow> pc \<Rightarrow> tunnel \<times> pc \<Rightarrow> bool" where
  "good_piece t p r =
     (tunnel_ok (fst r) \<and> pc_ok (fst r) (snd r) \<and> evolves t (fst r) \<and>
      build_slots (fst r) + holds_slot (snd r) = build_slots t + holds_slot p)"

lemma in_commit_good:
  assumes "tunnel_ok t" "length sid = 16"
  shows "good_piece t (InCommit sid) (in_commit sid t)"
  by (cases t rule: ensure_accepts_cases)
     (use assms mark_closed_ok [OF assms(1)] grant_ok [OF assms(1)] in
       \<open>auto simp: in_commit_def good_piece_def holds_slot_def\<close>)

lemma out_try_good:
  assumes "tunnel_ok t" "length random = 16"
  shows "good_piece t (OutTry n) (out_try random n t)"
  by (cases t rule: ensure_accepts_cases)
     (use assms mark_closed_ok [OF assms(1)] grant_ok [OF assms(1)] in
       \<open>auto simp: out_try_def good_piece_def holds_slot_def\<close>)

lemma validate_stream_id_length: "validate_stream_id hex_decode s = Some sid \<Longrightarrow> length sid = 16"
  by (auto simp: validate_stream_id_def split: if_splits option.splits)

lemma advance_good:
  assumes "tunnel_ok t" "pc_ok t p" "length random = 16"
  shows "good_piece t p (advance hex_decode token random t p)"
proof (cases p)
  case (InStart s)
  show ?thesis
    by (cases t rule: ensure_accepts_cases)
       (use assms InStart mark_closed_ok [OF assms(1)] validate_stream_id_length in
         \<open>auto simp: good_piece_def holds_slot_def split: option.splits\<close>)
next
  case OutStart
  show ?thesis
    by (cases t rule: ensure_accepts_cases)
       (use assms OutStart mark_closed_ok [OF assms(1)] in \<open>auto simp: good_piece_def holds_slot_def\<close>)
next
  case (InPermit sid)
  then show ?thesis
    using assms by (auto simp: good_piece_def holds_slot_def tunnel_ok_def evolves_def)
next
  case (CloseClear r)
  then show ?thesis
    using assms by (cases r) (auto simp: good_piece_def holds_slot_def tunnel_ok_def evolves_def)
next
  case (CloseStart r)
  then show ?thesis
    using assms mark_closed_ok [OF assms(1)]
    by (auto simp: good_piece_def holds_slot_def evolves_def intro: outcome_ok_mono)
qed (use assms in_commit_good [OF assms(1)] out_try_good [OF assms(1)] in \<open>auto simp: good_piece_def holds_slot_def\<close>)

definition system_ok :: "nat \<Rightarrow> tunnel \<times> pc list \<Rightarrow> bool" where
  "system_ok slots s = (tunnel_ok (fst s) \<and> list_all (pc_ok (fst s)) (snd s) \<and> build_slots (fst s) + slots_held (snd s) = slots)"

lemma slots_held_update: "i < length ps \<Longrightarrow> slots_held (ps[i := p]) + holds_slot (ps ! i) = slots_held ps + holds_slot p"
  using elem_le_sum_list [of i "map holds_slot ps"] by (simp add: slots_held_def map_update sum_list_update)

lemma tunnel_step_ok:
  assumes "tunnel_step hex_decode s s'" "system_ok slots s"
  shows "system_ok slots s' \<and> evolves (fst s) (fst s')"
  using assms(1)
proof (cases rule: tunnel_step.cases)
  case (spawn p t ps)
  then show ?thesis
    using assms(2) by (cases p) (auto simp: system_ok_def slots_held_def holds_slot_def)
next
  case (run i ps token random t t' p)
  have "pc_ok t (ps ! i)" using assms(2) run by (simp add: system_ok_def list_all_length)
  then have good: "good_piece t (ps ! i) (t', p)"
    using advance_good [of t "ps ! i" random hex_decode token] assms(2) run by (simp add: system_ok_def)
  have "list_all (pc_ok t') (ps[i := p])"
    using good assms(2) run pc_ok_evolves [of t _ t']
    by (auto simp: system_ok_def good_piece_def list_all_length nth_list_update)
  then show ?thesis
    using good assms(2) run slots_held_update [of i ps p] by (auto simp: system_ok_def good_piece_def)
next
  case (tick t now ps)
  then have ev: "evolves t (t\<lparr> tunnel_clock := now \<rparr>)" by (simp add: evolves_def)
  then show ?thesis
    using assms(2) tick pc_ok_evolves [OF _ ev] by (auto simp: system_ok_def tunnel_ok_def list_all_iff)
qed

lemma tunnel_reaches_ok:
  assumes "tunnel_reaches hex_decode s s'" "system_ok slots s"
  shows "system_ok slots s' \<and> evolves (fst s) (fst s')"
  using assms(1)
proof (induction rule: rtranclp_induct)
  case (step s1 s2)
  then show ?case
    using tunnel_step_ok [OF step.hyps(2)] by (auto simp: evolves_def)
qed (simp add: assms(2))

lemma new_tunnel_ok: "system_ok slots (new_tunnel slots max_ids now, [])"
  by (simp add: system_ok_def tunnel_ok_def slots_held_def new_tunnel_def)

lemma stream_context_inj:
  "length a = 16 \<Longrightarrow> length b = 16 \<Longrightarrow> stream_context a p = stream_context b q \<longleftrightarrow> a = b \<and> p = q"
  by (cases p; cases q) (simp_all add: stream_context_def)

text \<open>C10. No stream identifier is given out twice during the life of a tunnel key: in every interleaving of incoming
requests, outgoing requests and closes, all identifiers given out are different, there are at most
\<open>max_stream_ids_per_tunnel\<close> of them, and so the inputs from which the keys of the streams are derived all differ.\<close>

theorem stream_ids_unique:
  assumes "tunnel_reaches hex_decode (new_tunnel slots max_ids now, []) (t, ps)"
  shows "distinct (granted t) \<and> length (granted t) \<le> max_ids \<and>
     distinct (map (\<lambda>sid. stream_context sid (purpose sid)) (granted t)) \<and>
     (\<forall>sid. Returned (Granted sid) \<in> set ps \<or> InBuilding sid \<in> set ps \<longrightarrow> sid \<in> set (granted t))"
proof -
  have ok: "system_ok slots (t, ps)" "evolves (new_tunnel slots max_ids now) t"
    using tunnel_reaches_ok [OF assms new_tunnel_ok] by simp_all
  then have t: "distinct (granted t)" "\<forall>sid \<in> set (granted t). length sid = 16" "length (granted t) \<le> max_ids"
    by (simp_all add: system_ok_def tunnel_ok_def evolves_def new_tunnel_def)
  then have "distinct (map (\<lambda>sid. stream_context sid (purpose sid)) (granted t))"
    using stream_context_inj by (auto simp: distinct_map inj_on_def)
  moreover have "sid \<in> set (granted t)" if "Returned (Granted sid) \<in> set ps \<or> InBuilding sid \<in> set ps" for sid
    using ok(1) that by (auto simp: system_ok_def list_all_iff)
  ultimately show ?thesis using t by blast
qed



section \<open>Awaited streams\<close>

datatype 's WaitStream = Waiting | OK 's

type_synonym 's wait_table = "str \<Rightarrow> 's WaitStream option"

datatype wait_error = WaitKeyExists | WaitTimedOut | WaitEntryRemoved

text \<open>A stream without an entry is shut down; it is the second component of the result.\<close>

definition notify_ropen_stream :: "'s \<Rightarrow> str \<Rightarrow> 's wait_table \<Rightarrow> 's wait_table \<times> 's option" where
  "notify_ropen_stream s key m = (case m key of None \<Rightarrow> (m, Some s) | Some _ \<Rightarrow> (m(key \<mapsto> OK s), None))"

definition new_wait_stream :: "str \<Rightarrow> 's wait_table \<Rightarrow> (wait_error, unit) result \<times> 's wait_table" where
  "new_wait_stream key m = (if m key \<noteq> None then (Inl WaitKeyExists, m) else (Inr (), m(key \<mapsto> Waiting)))"

definition remove_wait_stream :: "str \<Rightarrow> 's wait_table \<Rightarrow> 's wait_table" where
  "remove_wait_stream key m = m(key := None)"

text \<open>What other tasks do to the table while a waiting task is suspended, and the rounds of its loop: whether
the time is up at the check, what happens before it holds the lock, whether the time is up after the lookup, and
what happens until it wakes up.\<close>

datatype 's table_op = Notify 's str | NewWait str | RemoveWait str

fun table_do :: "'s table_op \<Rightarrow> 's wait_table \<Rightarrow> 's wait_table" where
  "table_do (Notify s key) m = fst (notify_ropen_stream s key m)"
| "table_do (NewWait key) m = snd (new_wait_stream key m)"
| "table_do (RemoveWait key) m = remove_wait_stream key m"

record 's round =
  expired :: bool
  before_lock :: "'s table_op list"
  late :: bool
  after_lookup :: "'s table_op list"

fun wait_ropen_stream ::
    "str \<Rightarrow> 's round list \<Rightarrow> 's wait_table \<Rightarrow> (wait_error, 's) result option \<times> 's wait_table" where
  "wait_ropen_stream key [] m = (None, m)"
| "wait_ropen_stream key (r # rs) m =
     (let m = fold table_do (before_lock r) m in
      if expired r then (Some (Inl WaitTimedOut), m(key := None))
      else case m key of
        Some (OK s) \<Rightarrow> (Some (Inr s), m(key := None))
      | None \<Rightarrow> (Some (Inl WaitEntryRemoved), m)
      | Some Waiting \<Rightarrow>
          (let m = fold table_do (after_lookup r) m in
           if late r then (Some (Inl WaitTimedOut), m(key := None))
           else wait_ropen_stream key rs m))"

definition round_ops :: "'s round \<Rightarrow> 's table_op list" where
  "round_ops r = before_lock r @ after_lookup r"

lemma table_do_OK: "table_do p m key = Some (OK s) \<Longrightarrow> m key = Some (OK s) \<or> p = Notify s key"
  by (cases p) (auto simp: notify_ropen_stream_def new_wait_stream_def remove_wait_stream_def split: if_splits option.splits)

lemma fold_table_do_OK:
  "fold table_do ops m key = Some (OK s) \<Longrightarrow> m key = Some (OK s) \<or> Notify s key \<in> set ops"
  by (induction ops arbitrary: m) (auto dest: table_do_OK)

text \<open>C39. A request that waits for a connection returns at the latest when its time is up, and however it returns
it leaves no entry in the table; a connection that it returns was delivered under its own key.\<close>

theorem awaited_stream_handover:
  assumes "\<exists>r \<in> set rs. expired r \<or> late r"
  shows "\<exists>res m'. wait_ropen_stream key rs m = (Some res, m') \<and> m' key = None \<and>
     (\<forall>s. res = Inr s \<longrightarrow> m key = Some (OK s) \<or> (\<exists>r \<in> set rs. Notify s key \<in> set (round_ops r)))"
  using assms
proof (induction rs arbitrary: m)
  case (Cons r rs)
  let ?m = "fold table_do (before_lock r) m"
  let ?m2 = "fold table_do (after_lookup r) ?m"
  have src: "m key = Some (OK s) \<or> Notify s key \<in> set (round_ops r)" if "?m key = Some (OK s) \<or> ?m2 key = Some (OK s)" for s
    using that fold_table_do_OK [of "before_lock r" m key s] fold_table_do_OK [of "after_lookup r" ?m key s]
    by (auto simp: round_ops_def)
  show ?case
  proof (cases "expired r \<or> late r \<or> ?m key \<noteq> Some Waiting")
    case True
    then show ?thesis
      using src by (auto simp: Let_def split: option.splits WaitStream.splits)
  next
    case False
    then have "\<exists>r \<in> set rs. expired r \<or> late r" using Cons.prems by simp
    then obtain res m' where rec: "wait_ropen_stream key rs ?m2 = (Some res, m')" "m' key = None"
      "\<forall>s. res = Inr s \<longrightarrow> ?m2 key = Some (OK s) \<or> (\<exists>r \<in> set rs. Notify s key \<in> set (round_ops r))"
      using Cons.IH by blast
    have "wait_ropen_stream key (r # rs) m = (Some res, m')"
      using False rec(1) by (simp add: Let_def)
    then show ?thesis
      using rec(2,3) src by auto
  qed
qed simp

section \<open>Instances\<close>

definition sample_hello :: "nat \<Rightarrow> hello_use" where
  "sample_hello now = \<lparr> use_from = [100], use_nonce = [7], use_exp = 1000, use_now = now \<rparr>"

lemma sample_admitted: "fst (admit_nonce (\<lambda>s. s) [] (sample_hello 950))"
  by (simp add: admit_nonce_def insert_if_fresh_def)

lemma sample_retained: "retain_until 1000 = 1060"
  by (simp add: retain_until_def saturating_add_def JWT_LEEWAY_SECS_def)

lemma sample_hello_simps [simp]:
  "use_from (sample_hello now) = [100]" "use_nonce (sample_hello now) = [7]" "use_exp (sample_hello now) = 1000"
  "use_now (sample_hello now) = now"
  by (simp_all add: sample_hello_def)

theorem hello_replay_rejected_witness:
  "fst (admit_nonce (\<lambda>s. s) (after_uses (\<lambda>s. s) [sample_hello 990] (snd (admit_nonce (\<lambda>s. s) [] (sample_hello 950)))) (sample_hello 1059)) = False"
  using hello_replay_rejected [OF sample_admitted, of "[sample_hello 990]" "sample_hello 1059"]
  by (simp add: sample_retained NONCE_CACHE_CAP_def)

theorem hello_replayed_in_last_second_witness:
  "fst (admit_nonce (\<lambda>s. s) (snd (admit_nonce (\<lambda>s. s) [] (sample_hello 950))) (sample_hello 1060))"
  using hello_replayed_in_last_second [OF sample_admitted, of "sample_hello 1060"]
  by (simp add: sample_retained)

definition sample_id :: bytes where "sample_id = replicate 16 5"

definition sample_tunnel :: tunnel where
  "sample_tunnel = grant sample_id (new_tunnel 2 8 0)"

lemma sample_reached:
  "tunnel_reaches (\<lambda>_. None) (new_tunnel 2 8 0, []) (sample_tunnel, [Returned (Granted sample_id)])"
proof -
  let ?s = "tunnel_step (\<lambda>_. None)"
  have accepts: "ensure_accepts_new_streams (new_tunnel 2 8 0) = (True, new_tunnel 2 8 0)"
    by (simp add: ensure_accepts_new_streams_def new_tunnel_def MAX_RTCP_TUNNEL_AGE_def)
  have "?s (new_tunnel 2 8 0, []) (new_tunnel 2 8 0, [OutStart])"
    using spawn [of OutStart "\<lambda>_. None" _ "[]"] by simp
  moreover have "?s (new_tunnel 2 8 0, [OutStart]) (new_tunnel 2 8 0, [OutTry 16])"
    using run [of 0 "[OutStart]" "\<lambda>_. None" True sample_id] accepts by (simp add: sample_id_def)
  moreover have "?s (new_tunnel 2 8 0, [OutTry 16]) (sample_tunnel, [Returned (Granted sample_id)])"
    using run [of 0 "[OutTry 16]" "\<lambda>_. None" True sample_id "new_tunnel 2 8 0" sample_tunnel "Returned (Granted sample_id)"] accepts
    by (simp add: out_try_def sample_tunnel_def) (simp add: new_tunnel_def sample_id_def)
  ultimately show ?thesis by (meson converse_rtranclp_into_rtranclp rtranclp.rtrancl_refl)
qed

theorem stream_ids_unique_witness:
  "distinct (granted sample_tunnel) \<and> length (granted sample_tunnel) \<le> 8 \<and> granted sample_tunnel = [sample_id]"
  using stream_ids_unique [OF sample_reached] by (simp add: sample_tunnel_def grant_def new_tunnel_def)

lemma sample_closed:
  "tunnel_reaches (\<lambda>_. None) (new_tunnel 2 8 0, []) (mark_closed sample_tunnel, [Returned (Granted sample_id), CloseClear Closed])"
proof -
  let ?s = "tunnel_step (\<lambda>_. None)" and ?ps = "[Returned (Granted sample_id)]"
  have "?s (sample_tunnel, ?ps) (sample_tunnel, ?ps @ [CloseStart Closed])"
    by (rule spawn) simp
  moreover have "?s (sample_tunnel, ?ps @ [CloseStart Closed]) (mark_closed sample_tunnel, ?ps @ [CloseClear Closed])"
    using run [of 1 "?ps @ [CloseStart Closed]" "\<lambda>_. None" True sample_id] by (simp add: sample_id_def)
  ultimately have "tunnel_reaches (\<lambda>_. None) (new_tunnel 2 8 0, []) (mark_closed sample_tunnel, ?ps @ [CloseClear Closed])"
    using sample_reached by (blast intro: rtranclp.rtrancl_into_rtrancl)
  then show ?thesis by simp
qed


definition sample_rounds :: "nat round list" where
  "sample_rounds =
     [\<lparr> expired = False, before_lock = [], late = False, after_lookup = [Notify 3 [1], Notify 4 [2]] \<rparr>,
      \<lparr> expired = True, before_lock = [], late = False, after_lookup = [] \<rparr>]"

theorem awaited_stream_handover_witness:
  "\<exists>res m'. wait_ropen_stream [1] sample_rounds [[1] \<mapsto> Waiting] = (Some res, m') \<and> m' [1] = None"
  using awaited_stream_handover [of sample_rounds "[1]" "[[1] \<mapsto> Waiting]"] by (auto simp: sample_rounds_def)

end
