(* ===== verification/Aes_Stream.thy ===== *)
theory Aes_Stream
  imports Wire
begin

text \<open>The encrypted record layer of RTCP (\<open>aes_stream.rs\<close>): records of at most 16 KiB of plaintext under
AES-256-GCM, a nonce per record from a counter, budgets on records, bytes and age, and the poll functions of
an asynchronous stream.

The cipher and SHA-256 are third-party; \<open>cipher\<close> holds encryption and decryption under the key of the
connection and the hash is an argument of \<open>derive_nonce_bases\<close>. What the inner stream answers to a poll is
given by lists of events: pieces, not-yet and failures on the reading side (\<open>arrival\<close>), the number of
bytes it is willing to take on the writing side (\<open>room\<close>). The clock is read once per turn of a loop.
The counters are \<open>u64\<close> in the code and \<open>nat\<close> here, with the checked additions written out.\<close>

section \<open>Definitions\<close>

definition TAG_LEN :: nat where "TAG_LEN = 16"
definition LEN_FIELD :: nat where "LEN_FIELD = 2"
definition MAX_PLAINTEXT :: nat where "MAX_PLAINTEXT = 16 * 1024"
definition NONCE_LEN :: nat where "NONCE_LEN = 12"

record AeadUsageBudget =
  max_records_per_direction :: nat
  max_plaintext_bytes_per_direction :: nat
  max_age :: duration

definition from_secs :: "nat \<Rightarrow> duration" where
  "from_secs n = n * 1000000000"

definition CONTROL_BUDGET :: AeadUsageBudget where
  "CONTROL_BUDGET =
     \<lparr> max_records_per_direction = 2 ^ 24, max_plaintext_bytes_per_direction = 4 * 1024 * 1024 * 1024,
       max_age = from_secs (24 * 60 * 60) \<rparr>"

definition STREAM_BUDGET :: AeadUsageBudget where
  "STREAM_BUDGET =
     \<lparr> max_records_per_direction = 2 ^ 20, max_plaintext_bytes_per_direction = 1024 * 1024 * 1024,
       max_age = from_secs (24 * 60 * 60) \<rparr>"

datatype EncryptionRole = Initiator | Responder

datatype ReadPhase = NeedHeader | NeedBody

text \<open>Of the fixed header and body buffers only the part that has been filled is kept. The last field is not in
the code: it records the nonces that have been handed to the cipher for encryption.\<close>

record EncryptedStream =
  write_nonce_base :: bytes
  read_nonce_base :: bytes
  write_seq :: nat
  read_seq :: nat
  write_plaintext_bytes :: nat
  read_plaintext_bytes :: nat
  budget :: AeadUsageBudget
  created_at :: instant
  write_buf :: bytes
  write_pos :: nat
  shutdown_started :: bool
  read_phase :: ReadPhase
  header_buf :: bytes
  body_buf :: bytes
  body_needed :: nat
  plaintext :: bytes
  plaintext_pos :: nat
  read_eof :: bool
  first_record_received :: bool
  sealed_nonces :: "bytes list"

record cipher =
  encrypt :: "bytes \<Rightarrow> bytes \<Rightarrow> bytes option"
  decrypt :: "bytes \<Rightarrow> bytes \<Rightarrow> bytes option"

definition derive_nonce_bases :: "(bytes \<Rightarrow> bytes) \<Rightarrow> bytes \<Rightarrow> bytes \<times> bytes" where
  "derive_nonce_bases sha256 iv =
     (take NONCE_LEN (sha256 (as_bytes (lit ''rtcp-aead-nonce/A'') @ iv)),
      take NONCE_LEN (sha256 (as_bytes (lit ''rtcp-aead-nonce/B'') @ iv)))"

definition make_nonce :: "bytes \<Rightarrow> nat \<Rightarrow> bytes" where
  "make_nonce base seq = take (NONCE_LEN - 8) base @ map2 xor (drop (NONCE_LEN - 8) base) (be_bytes 8 seq)"

definition new_with_budget ::
    "(bytes \<Rightarrow> bytes) \<Rightarrow> bytes \<Rightarrow> EncryptionRole \<Rightarrow> AeadUsageBudget \<Rightarrow> instant \<Rightarrow> EncryptedStream" where
  "new_with_budget sha256 iv role b now =
     (let (nonce_a, nonce_b) = derive_nonce_bases sha256 iv;
          (wb, rb) = (case role of Initiator \<Rightarrow> (nonce_a, nonce_b) | Responder \<Rightarrow> (nonce_b, nonce_a))
      in \<lparr> write_nonce_base = wb, read_nonce_base = rb, write_seq = 0, read_seq = 0,
           write_plaintext_bytes = 0, read_plaintext_bytes = 0, budget = b, created_at = now,
           write_buf = [], write_pos = 0, shutdown_started = False, read_phase = NeedHeader,
           header_buf = [], body_buf = [], body_needed = 0, plaintext = [], plaintext_pos = 0,
           read_eof = False, first_record_received = False, sealed_nonces = [] \<rparr>)"

definition stream_new :: "(bytes \<Rightarrow> bytes) \<Rightarrow> bytes \<Rightarrow> EncryptionRole \<Rightarrow> instant \<Rightarrow> EncryptedStream" where
  "stream_new sha256 iv role now = new_with_budget sha256 iv role STREAM_BUDGET now"

definition new_control :: "(bytes \<Rightarrow> bytes) \<Rightarrow> bytes \<Rightarrow> EncryptionRole \<Rightarrow> instant \<Rightarrow> EncryptedStream" where
  "new_control sha256 iv role now = new_with_budget sha256 iv role CONTROL_BUDGET now"

definition budget_age_exhausted :: "EncryptedStream \<Rightarrow> instant \<Rightarrow> bool" where
  "budget_age_exhausted st now = (max_age (budget st) \<le> now - created_at st)"

datatype AeadBudgetExhausted = KeyAge | ReadRecords | ReadBytes | WriteRecords | WriteBytes

datatype aead_error =
    InnerError
  | EofInHeader
  | ClosedBeforeRecord
  | EofInBody
  | InvalidRecordLength
  | AuthenticationFailed
  | ReadSequenceOverflow
  | WriteSequenceOverflow
  | EncryptFailed
  | AlreadyShutDown
  | WriteZero
  | BudgetExhausted AeadBudgetExhausted

datatype 'a poll = Pending | Ready "(aead_error, 'a) result"

subsection \<open>Reading\<close>

datatype arrival = NotYet | Piece bytes | Broken

fun poll_inner_read :: "nat \<Rightarrow> arrival list \<Rightarrow> bytes poll \<times> arrival list" where
  "poll_inner_read n [] = (Ready (Inr []), [])"
| "poll_inner_read n (NotYet # s) = (Pending, s)"
| "poll_inner_read n (Broken # s) = (Ready (Inl InnerError), s)"
| "poll_inner_read n (Piece p # s) = (Ready (Inr (take n p)), if length p \<le> n then s else Piece (drop n p) # s)"

text \<open>A turn of the loop in \<open>poll_read\<close> that finds a complete header.\<close>

definition header_complete :: "EncryptedStream \<Rightarrow> (aead_error, unit) result \<times> EncryptedStream" where
  "header_complete st =
     (let record_len = from_be (header_buf st) in
      if record_len < TAG_LEN \<or> MAX_PLAINTEXT + TAG_LEN < record_len then (Inl InvalidRecordLength, st)
      else (Inr (), st\<lparr> body_needed := record_len, body_buf := [], read_phase := NeedBody \<rparr>))"

definition body_complete :: "cipher \<Rightarrow> EncryptedStream \<Rightarrow> (aead_error, unit) result \<times> EncryptedStream" where
  "body_complete C st =
     (if max_records_per_direction (budget st) \<le> read_seq st then (Inl (BudgetExhausted ReadRecords), st)
      else let next_bytes = read_plaintext_bytes st + (body_needed st - TAG_LEN) in
           if 2 ^ 64 \<le> next_bytes \<or> max_plaintext_bytes_per_direction (budget st) < next_bytes
           then (Inl (BudgetExhausted ReadBytes), st)
           else let nonce = make_nonce (read_nonce_base st) (read_seq st) in
                if 2 ^ 64 \<le> read_seq st + 1 then (Inl ReadSequenceOverflow, st)
                else let st = st\<lparr> read_seq := read_seq st + 1 \<rparr> in
                     case decrypt C nonce (body_buf st) of
                       None \<Rightarrow> (Inl AuthenticationFailed, st)
                     | Some pt \<Rightarrow>
                         (Inr (), st\<lparr> read_plaintext_bytes := next_bytes, plaintext := pt, plaintext_pos := 0,
                                       first_record_received := True, header_buf := [], body_buf := [],
                                       body_needed := 0, read_phase := NeedHeader \<rparr>))"

definition header_eof :: "EncryptedStream \<Rightarrow> (aead_error, bytes) result \<times> EncryptedStream" where
  "header_eof st =
     (if header_buf st \<noteq> [] then (Inl EofInHeader, st)
      else if \<not> first_record_received st then (Inl ClosedBeforeRecord, st)
      else (Inr [], st\<lparr> read_eof := True \<rparr>))"

definition header_bytes :: "EncryptedStream \<Rightarrow> bytes \<Rightarrow> (aead_error, unit) result \<times> EncryptedStream" where
  "header_bytes st bs =
     (let st = st\<lparr> header_buf := header_buf st @ bs \<rparr>
      in if length (header_buf st) = LEN_FIELD then header_complete st else (Inr (), st))"

definition body_bytes :: "cipher \<Rightarrow> EncryptedStream \<Rightarrow> bytes \<Rightarrow> (aead_error, unit) result \<times> EncryptedStream" where
  "body_bytes C st bs =
     (let st = st\<lparr> body_buf := body_buf st @ bs \<rparr>
      in if length (body_buf st) = body_needed st then body_complete C st else (Inr (), st))"

text \<open>The inner poll of a turn, once there is no pending plaintext: \<open>None\<close> means another turn. The two phases
differ in the room left in their buffer, in what the end of the stream means and in what they do with bytes.\<close>

definition inner_turn ::
    "nat \<Rightarrow> (aead_error, bytes) result \<times> EncryptedStream \<Rightarrow> (bytes \<Rightarrow> (aead_error, unit) result \<times> EncryptedStream) \<Rightarrow>
     EncryptedStream \<Rightarrow> arrival list \<Rightarrow> bytes poll option \<times> EncryptedStream \<times> arrival list" where
  "inner_turn n on_eof on_bytes st s =
     (case poll_inner_read n s of
        (Pending, t) \<Rightarrow> (Some Pending, st, t)
      | (Ready (Inl e), t) \<Rightarrow> (Some (Ready (Inl e)), st, t)
      | (Ready (Inr bs), t) \<Rightarrow>
          if bs = [] then (Some (Ready (fst on_eof)), snd on_eof, t)
          else (case on_bytes bs of
                  (Inl e, st) \<Rightarrow> (Some (Ready (Inl e)), st, t)
                | (Inr _, st) \<Rightarrow> (None, st, t)))"

definition read_turn :: "cipher \<Rightarrow> EncryptedStream \<Rightarrow> arrival list \<Rightarrow> bytes poll option \<times> EncryptedStream \<times> arrival list" where
  "read_turn C st s =
     (case read_phase st of
        NeedHeader \<Rightarrow> inner_turn (LEN_FIELD - length (header_buf st)) (header_eof st) (header_bytes st) st s
      | NeedBody \<Rightarrow> inner_turn (body_needed st - length (body_buf st)) (Inl EofInBody, st) (body_bytes C st) st s)"

fun arrival_size :: "arrival \<Rightarrow> nat" where
  "arrival_size (Piece p) = Suc (length p)"
| "arrival_size _ = 1"

definition arrivals_size :: "arrival list \<Rightarrow> nat" where
  "arrivals_size s = sum_list (map arrival_size s)"

lemma poll_inner_read_size:
  "poll_inner_read n s = (Ready (Inr bs), t) \<Longrightarrow> bs \<noteq> [] \<Longrightarrow> arrivals_size t < arrivals_size s"
  by (cases "(n, s)" rule: poll_inner_read.cases) (auto simp: arrivals_size_def split: if_splits)

lemma inner_turn_None:
  assumes "inner_turn n on_eof on_bytes st s = (None, st', t)"
  obtains bs where "poll_inner_read n s = (Ready (Inr bs), t)" "bs \<noteq> []" "on_bytes bs = (Inr (), st')"
proof -
  obtain p u where u: "poll_inner_read n s = (p, u)" by (cases "poll_inner_read n s")
  obtain bs where p: "p = Ready (Inr bs)"
  proof (cases p)
    case (Ready r)
    then show thesis using assms u that by (cases r) (simp_all add: inner_turn_def)
  qed (use assms u in \<open>simp add: inner_turn_def\<close>)
  have bs: "bs \<noteq> []" using u p assms by (cases "bs = []") (simp_all add: inner_turn_def)
  obtain r st1 where r: "on_bytes bs = (r, st1)" by (cases "on_bytes bs")
  show thesis
  proof (cases r)
    case (Inr x)
    then show thesis using u p assms bs r that [of bs] by (simp add: inner_turn_def)
  qed (use u p assms bs r in \<open>simp add: inner_turn_def\<close>)
qed

lemma read_turn_size: "read_turn C st s = (None, st', t) \<Longrightarrow> arrivals_size t < arrivals_size s"
  by (cases "read_phase st"; simp add: read_turn_def; elim inner_turn_None; rule poll_inner_read_size)

function poll_read ::
    "cipher \<Rightarrow> (nat \<Rightarrow> instant) \<Rightarrow> nat \<Rightarrow> nat \<Rightarrow> EncryptedStream \<Rightarrow> arrival list \<Rightarrow> bytes poll \<times> EncryptedStream \<times> arrival list" where
  "poll_read C now i remaining st s =
     (if plaintext_pos st < length (plaintext st) then
        if remaining = 0 then (Ready (Inr []), st, s)
        else let rest = drop (plaintext_pos st) (plaintext st);
                 n = min (length rest) remaining
             in (Ready (Inr (take n rest)), st\<lparr> plaintext_pos := plaintext_pos st + n \<rparr>, s)
      else if read_eof st then (Ready (Inr []), st, s)
      else if budget_age_exhausted st (now i) then (Ready (Inl (BudgetExhausted KeyAge)), st, s)
      else case read_turn C st s of
        (Some r, st, t) \<Rightarrow> (r, st, t)
      | (None, st, t) \<Rightarrow> poll_read C now (Suc i) remaining st t)"
  by pat_completeness auto
termination
  by (relation "measure (\<lambda>(_, _, _, _, _, s). arrivals_size s)") (auto dest: read_turn_size sym)

declare poll_read.simps [simp del]

subsection \<open>Writing\<close>

datatype room = Full | Room nat | Closed

text \<open>\<open>drain_pending\<close>; the last component of the result is what the inner stream has accepted.\<close>

fun drain_pending :: "EncryptedStream \<Rightarrow> room list \<Rightarrow> unit poll \<times> EncryptedStream \<times> room list \<times> bytes" where
  "drain_pending st rs =
     (if write_pos st < length (write_buf st) then
        (case rs of
           [] \<Rightarrow> (Pending, st, [], [])
         | Full # rs \<Rightarrow> (Pending, st, rs, [])
         | Closed # rs \<Rightarrow> (Ready (Inl InnerError), st, rs, [])
         | Room n # rs \<Rightarrow>
             (let slice = drop (write_pos st) (write_buf st); n = min n (length slice) in
              if n = 0 then (Ready (Inl WriteZero), st, rs, [])
              else let (r, st, rs, out) = drain_pending (st\<lparr> write_pos := write_pos st + n \<rparr>) rs
                   in (r, st, rs, take n slice @ out)))
      else (Ready (Inr ()), st\<lparr> write_buf := [], write_pos := 0 \<rparr>, rs, []))"

declare drain_pending.simps [simp del]

text \<open>The record that \<open>poll_write\<close> builds from the bytes it accepts.\<close>

definition build_record :: "cipher \<Rightarrow> EncryptedStream \<Rightarrow> bytes \<Rightarrow> (aead_error, unit) result \<times> EncryptedStream" where
  "build_record C st chunk =
     (if max_records_per_direction (budget st) \<le> write_seq st then (Inl (BudgetExhausted WriteRecords), st)
      else let next_bytes = write_plaintext_bytes st + length chunk in
           if 2 ^ 64 \<le> next_bytes \<or> max_plaintext_bytes_per_direction (budget st) < next_bytes
           then (Inl (BudgetExhausted WriteBytes), st)
           else let nonce = make_nonce (write_nonce_base st) (write_seq st) in
                if 2 ^ 64 \<le> write_seq st + 1 then (Inl WriteSequenceOverflow, st)
                else let st = st\<lparr> write_seq := write_seq st + 1, sealed_nonces := sealed_nonces st @ [nonce] \<rparr> in
                     case encrypt C nonce chunk of
                       None \<Rightarrow> (Inl EncryptFailed, st)
                     | Some ct \<Rightarrow>
                         (Inr (), st\<lparr> write_buf := be_bytes 2 (length ct mod 2 ^ 16) @ ct, write_pos := 0,
                                       write_plaintext_bytes := next_bytes \<rparr>))"

definition poll_write ::
    "cipher \<Rightarrow> instant \<Rightarrow> EncryptedStream \<Rightarrow> bytes \<Rightarrow> room list \<Rightarrow> nat poll \<times> EncryptedStream \<times> room list \<times> bytes" where
  "poll_write C now st buf rs =
     (if shutdown_started st then (Ready (Inl AlreadyShutDown), st, rs, [])
      else if budget_age_exhausted st now then (Ready (Inl (BudgetExhausted KeyAge)), st, rs, [])
      else case drain_pending st rs of
        (Pending, st, rs, out) \<Rightarrow> (Pending, st, rs, out)
      | (Ready (Inl e), st, rs, out) \<Rightarrow> (Ready (Inl e), st, rs, out)
      | (Ready (Inr _), st, rs, out) \<Rightarrow>
          if buf = [] then (Ready (Inr 0), st, rs, out)
          else let accept = min (length buf) MAX_PLAINTEXT in
               case build_record C st (take accept buf) of
                 (Inl e, st) \<Rightarrow> (Ready (Inl e), st, rs, out)
               | (Inr _, st) \<Rightarrow>
                   (case drain_pending st rs of
                      (Ready (Inl e), st, rs, out') \<Rightarrow> (Ready (Inl e), st, rs, out @ out')
                    | (_, st, rs, out') \<Rightarrow> (Ready (Inr accept), st, rs, out @ out')))"

text \<open>\<open>poll_flush\<close> and \<open>poll_shutdown\<close>; the argument \<open>inner\<close> is what the inner stream answers.\<close>

definition poll_flush ::
    "EncryptedStream \<Rightarrow> room list \<Rightarrow> unit poll \<Rightarrow> unit poll \<times> EncryptedStream \<times> room list \<times> bytes" where
  "poll_flush st rs inner =
     (case drain_pending st rs of
        (Ready (Inr _), st, rs, out) \<Rightarrow> (inner, st, rs, out)
      | other \<Rightarrow> other)"

definition poll_shutdown ::
    "EncryptedStream \<Rightarrow> room list \<Rightarrow> unit poll \<Rightarrow> unit poll \<times> EncryptedStream \<times> room list \<times> bytes" where
  "poll_shutdown st rs inner =
     (case drain_pending st rs of
        (Ready (Inr _), st, rs, out) \<Rightarrow> (inner, st\<lparr> shutdown_started := True \<rparr>, rs, out)
      | other \<Rightarrow> other)"

section \<open>Nonces\<close>

lemma xor_cancel_left: "xor a b = xor a c \<longleftrightarrow> b = (c :: u8)"
  by (metis xor.left_neutral xor.assoc xor_self_eq)

lemma map2_xor_inj:
  "length bs = length base \<Longrightarrow> length cs = length base \<Longrightarrow> map2 xor base bs = map2 xor base (cs :: u8 list) \<longleftrightarrow> bs = cs"
proof (induction base arbitrary: bs cs)
  case (Cons b base)
  then show ?case
    by (cases bs; cases cs) (auto simp: xor_cancel_left)
qed simp

lemma make_nonce_inj:
  assumes "length base = NONCE_LEN" "m < 2 ^ 64" "n < 2 ^ 64" "make_nonce base m = make_nonce base n"
  shows "m = n"
proof -
  have "be_bytes 8 m = be_bytes 8 n"
    using assms(1,4) map2_xor_inj [of "be_bytes 8 m" "drop (NONCE_LEN - 8) base" "be_bytes 8 n"]
    by (simp add: make_nonce_def NONCE_LEN_def)
  then show ?thesis
    using assms(2,3) be_bytes_inj [of 8 m n] by simp
qed

section \<open>Writing\<close>

definition unsent :: "EncryptedStream \<Rightarrow> bytes" where
  "unsent st = drop (write_pos st) (write_buf st)"

definition same_but_buffer :: "EncryptedStream \<Rightarrow> EncryptedStream \<Rightarrow> bool" where
  "same_but_buffer st st' = (st' = st\<lparr> write_buf := write_buf st', write_pos := write_pos st' \<rparr>)"

lemma same_but_buffer_refl [simp]: "same_but_buffer st st"
  by (simp add: same_but_buffer_def)

lemma same_but_bufferD:
  assumes "same_but_buffer st st'"
  shows "write_seq st' = write_seq st" "write_nonce_base st' = write_nonce_base st" "budget st' = budget st"
    "write_plaintext_bytes st' = write_plaintext_bytes st" "created_at st' = created_at st"
    "shutdown_started st' = shutdown_started st" "sealed_nonces st' = sealed_nonces st"
  using arg_cong [OF assms [unfolded same_but_buffer_def], of write_seq]
    arg_cong [OF assms [unfolded same_but_buffer_def], of write_nonce_base]
    arg_cong [OF assms [unfolded same_but_buffer_def], of budget]
    arg_cong [OF assms [unfolded same_but_buffer_def], of write_plaintext_bytes]
    arg_cong [OF assms [unfolded same_but_buffer_def], of created_at]
    arg_cong [OF assms [unfolded same_but_buffer_def], of shutdown_started]
    arg_cong [OF assms [unfolded same_but_buffer_def], of sealed_nonces]
  by simp_all

lemma drain_pending_Room:
  assumes "write_pos st < length (write_buf st)" "min n (length (unsent st)) \<noteq> 0"
  shows "drain_pending st (Room n # rs) =
    (let (r, st1, rs1, out) = drain_pending (st\<lparr> write_pos := write_pos st + min n (length (unsent st)) \<rparr>) rs
     in (r, st1, rs1, take (min n (length (unsent st))) (unsent st) @ out))"
proof -
  obtain k where k: "min n (length (unsent st)) = k" "k \<noteq> 0" using assms(2) by blast
  then show ?thesis
    using assms(1) by (subst drain_pending.simps) (simp add: Let_def flip: unsent_def)
qed

lemma drain_pending_spec:
  assumes "drain_pending st rs = (r, st', rs', out)"
  shows "out @ unsent st' = unsent st \<and> same_but_buffer st st' \<and> (r = Ready (Inr ()) \<longrightarrow> unsent st' = [])"
  using assms
proof (induction rs arbitrary: st r st' rs' out)
  case Nil
  then show ?case
    by (subst (asm) drain_pending.simps)
       (auto simp: unsent_def same_but_buffer_def split: if_splits)
next
  case (Cons x rs)
  show ?case
  proof (cases "write_pos st < length (write_buf st)")
    case False
    then show ?thesis
      using Cons.prems by (subst (asm) drain_pending.simps) (auto simp: unsent_def same_but_buffer_def)
  next
    case True
    show ?thesis
    proof (cases x)
      case (Room n)
      let ?k = "min n (length (unsent st))" and ?st = "st\<lparr> write_pos := write_pos st + min n (length (unsent st)) \<rparr>"
      show ?thesis
      proof (cases "?k = 0")
        case k: True
        have "(r, st', rs', out) = (Ready (Inl WriteZero), st, rs, [])"
          using Cons.prems True Room k by (subst (asm) drain_pending.simps) (simp add: unsent_def)
        then show ?thesis by (simp add: same_but_buffer_def)
      next
        case False
        obtain r1 st1 rs1 out1 where rec: "drain_pending ?st rs = (r1, st1, rs1, out1)"
          by (cases "drain_pending ?st rs")
        then have res: "r = r1" "st' = st1" "out = take ?k (unsent st) @ out1"
          using Cons.prems drain_pending_Room [OF True False, of rs] Room by simp_all
        have "unsent ?st = drop ?k (unsent st)"
          by (simp add: unsent_def add.commute)
        moreover have "same_but_buffer st st1" if "same_but_buffer ?st st1"
          using that by (simp add: same_but_buffer_def)
        ultimately show ?thesis
          using Cons.IH [OF rec] res by simp
      qed
    next
      case Full
      then have "drain_pending st (x # rs) = (Pending, st, rs, [])"
        using True by (subst drain_pending.simps) simp
      then show ?thesis using Cons.prems by simp
    next
      case Closed
      then have "drain_pending st (x # rs) = (Ready (Inl InnerError), st, rs, [])"
        using True by (subst drain_pending.simps) simp
      then show ?thesis using Cons.prems by simp
    qed
  qed
qed

text \<open>What the stream relies on: GCM appends a tag of 16 bytes and decryption inverts encryption.\<close>

definition cipher_ok :: "cipher \<Rightarrow> bool" where
  "cipher_ok C = (\<forall>nonce p. length p \<le> MAX_PLAINTEXT \<longrightarrow>
     (\<exists>ct. encrypt C nonce p = Some ct \<and> length ct = length p + TAG_LEN \<and> decrypt C nonce ct = Some p))"

definition chunk_ok :: "bytes \<Rightarrow> bool" where
  "chunk_ok c = (c \<noteq> [] \<and> length c \<le> MAX_PLAINTEXT)"

text \<open>The wire format: the record of a chunk, and the records of a sequence of chunks from a counter on.\<close>

definition sealed :: "cipher \<Rightarrow> bytes \<Rightarrow> nat \<Rightarrow> bytes \<Rightarrow> bytes" where
  "sealed C base n c = (let ct = the (encrypt C (make_nonce base n) c) in be_bytes 2 (length ct) @ ct)"

fun sealed_all :: "cipher \<Rightarrow> bytes \<Rightarrow> nat \<Rightarrow> bytes list \<Rightarrow> bytes" where
  "sealed_all C base n [] = []"
| "sealed_all C base n (c # cs) = sealed C base n c @ sealed_all C base (Suc n) cs"

lemma sealed_all_append:
  "sealed_all C base n (cs @ ds) = sealed_all C base n cs @ sealed_all C base (n + length cs) ds"
  by (induction cs arbitrary: n) auto

lemma cipher_okE:
  assumes "cipher_ok C" "length p \<le> MAX_PLAINTEXT"
  obtains ct where "encrypt C nonce p = Some ct" "length ct = length p + TAG_LEN" "decrypt C nonce ct = Some p"
  using assms unfolding cipher_ok_def by blast

lemma take_chunk: "take (min (length buf) MAX_PLAINTEXT) buf = take MAX_PLAINTEXT buf"
  by (simp add: min_def)

lemma build_record_seq:
  assumes "build_record C st chunk = (r, st')"
  shows "write_nonce_base st' = write_nonce_base st \<and> budget st' = budget st \<and> created_at st' = created_at st \<and>
     (write_seq st' = write_seq st \<and> sealed_nonces st' = sealed_nonces st \<or>
      write_seq st' = Suc (write_seq st) \<and> write_seq st < max_records_per_direction (budget st) \<and> Suc (write_seq st) < 2 ^ 64 \<and>
      sealed_nonces st' = sealed_nonces st @ [make_nonce (write_nonce_base st) (write_seq st)])"
  using assms
  by (auto simp: build_record_def Let_def split: if_splits option.splits)

lemma build_record_ok:
  assumes "cipher_ok C" "length chunk \<le> MAX_PLAINTEXT" "build_record C st chunk = (Inr u, st')"
  shows "write_seq st' = Suc (write_seq st)" "unsent st' = sealed C (write_nonce_base st) (write_seq st) chunk"
    "write_plaintext_bytes st' = write_plaintext_bytes st + length chunk"
    "write_plaintext_bytes st' \<le> max_plaintext_bytes_per_direction (budget st)"
proof -
  obtain ct where ct: "encrypt C (make_nonce (write_nonce_base st) (write_seq st)) chunk = Some ct"
    "length ct = length chunk + TAG_LEN"
    by (rule cipher_okE [OF assms(1,2)])
  then have len: "length ct < 2 ^ 16"
    using assms(2) by (simp add: MAX_PLAINTEXT_def TAG_LEN_def)
  show "write_seq st' = Suc (write_seq st)" "unsent st' = sealed C (write_nonce_base st) (write_seq st) chunk"
    "write_plaintext_bytes st' = write_plaintext_bytes st + length chunk"
    "write_plaintext_bytes st' \<le> max_plaintext_bytes_per_direction (budget st)"
    using assms(3) ct len
    by (auto simp: build_record_def Let_def unsent_def sealed_def split: if_splits)
qed

lemma build_record_error:
  assumes "cipher_ok C" "length chunk \<le> MAX_PLAINTEXT" "build_record C st chunk = (Inl e, st')"
  shows "st' = st"
proof -
  obtain ct where "encrypt C (make_nonce (write_nonce_base st) (write_seq st)) chunk = Some ct"
    by (rule cipher_okE [OF assms(1,2)])
  then show ?thesis
    using assms(3) by (auto simp: build_record_def Let_def split: if_splits)
qed

text \<open>The bytes that the caller of \<open>poll_write\<close> is told have been accepted, and that the call failed.\<close>

definition accepted :: "nat poll \<Rightarrow> bytes \<Rightarrow> bytes" where
  "accepted r buf = (case r of Ready (Inr n) \<Rightarrow> take n buf | _ \<Rightarrow> [])"

definition failed :: "'a poll \<Rightarrow> bool" where
  "failed r = (case r of Ready (Inl e) \<Rightarrow> True | _ \<Rightarrow> False)"

text \<open>A write either leaves the counter alone and only moves bytes to the inner stream, or seals one chunk.\<close>

lemma poll_write_cases:
  assumes "poll_write C now st buf rs = (r, st', rs', out)"
  obtains (still) "same_but_buffer st st'" "out @ unsent st' = unsent st" "accepted r buf = []"
  | (fail) st1 rs1 out1 e where "drain_pending st rs = (Ready (Inr ()), st1, rs1, out1)"
      "buf \<noteq> []" "build_record C st1 (take MAX_PLAINTEXT buf) = (Inl e, st')" "out = out1" "failed r"
  | (seal) st1 rs1 out1 st2 p rs2 out2 where "drain_pending st rs = (Ready (Inr ()), st1, rs1, out1)"
      "buf \<noteq> []" "build_record C st1 (take MAX_PLAINTEXT buf) = (Inr (), st2)"
      "drain_pending st2 rs1 = (p, st', rs2, out2)" "out = out1 @ out2" "failed r \<or> accepted r buf = take MAX_PLAINTEXT buf"
proof -
  obtain p st1 rs1 out1 where d: "drain_pending st rs = (p, st1, rs1, out1)"
    by (cases "drain_pending st rs")
  have spec: "out1 @ unsent st1 = unsent st \<and> same_but_buffer st st1"
    using drain_pending_spec [OF d] by blast
  show thesis
  proof (cases "shutdown_started st \<or> budget_age_exhausted st now \<or> p \<noteq> Ready (Inr ()) \<or> buf = []")
    case True
    then have "((st' = st \<and> out = []) \<or> (st' = st1 \<and> out = out1)) \<and> accepted r buf = []"
      using assms d by (auto simp: poll_write_def accepted_def split: if_splits poll.splits sum.splits)
    then show thesis using still spec by auto
  next
    case False
    obtain b st2 where b: "build_record C st1 (take MAX_PLAINTEXT buf) = (b, st2)"
      by (cases "build_record C st1 (take MAX_PLAINTEXT buf)")
    obtain q st3 rs3 out3 where d2: "drain_pending st2 rs1 = (q, st3, rs3, out3)"
      by (cases "drain_pending st2 rs1")
    show thesis
    proof (cases b)
      case (Inl e)
      then show thesis
        using fail [of st1 rs1 out1 e] assms d b False by (auto simp: poll_write_def take_chunk failed_def)
    next
      case (Inr u)
      then have "st' = st3 \<and> out = out1 @ out3 \<and> (failed r \<or> accepted r buf = take MAX_PLAINTEXT buf)"
        using assms d b d2 False take_chunk [of buf]
        by (cases q) (auto simp: poll_write_def Let_def accepted_def failed_def split: sum.splits)
      then show thesis
        using seal [of st1 rs1 out1 st2 q rs3 out3] d b d2 False Inr by simp
    qed
  qed
qed

section \<open>No nonce is used twice\<close>

text \<open>A client of the stream may call its poll functions in any order; a call carries what the environment
answers to it.\<close>

datatype call =
    CallWrite instant bytes "room list"
  | CallFlush "room list" "unit poll"
  | CallShutdown "room list" "unit poll"
  | CallRead "nat \<Rightarrow> instant" nat "arrival list"

fun after_call :: "cipher \<Rightarrow> call \<Rightarrow> EncryptedStream \<Rightarrow> EncryptedStream" where
  "after_call C (CallWrite now buf rs) st = fst (snd (poll_write C now st buf rs))"
| "after_call C (CallFlush rs inner) st = fst (snd (poll_flush st rs inner))"
| "after_call C (CallShutdown rs inner) st = fst (snd (poll_shutdown st rs inner))"
| "after_call C (CallRead now n s) st = fst (snd (poll_read C now 0 n st s))"

definition after_calls :: "cipher \<Rightarrow> call list \<Rightarrow> EncryptedStream \<Rightarrow> EncryptedStream" where
  "after_calls C cs st = fold (after_call C) cs st"

text \<open>The parts of the state that decide about nonces.\<close>

definition write_side :: "EncryptedStream \<Rightarrow> bytes \<times> nat \<times> AeadUsageBudget \<times> bytes list" where
  "write_side st = (write_nonce_base st, write_seq st, budget st, sealed_nonces st)"

lemma write_side_same_but_buffer: "same_but_buffer st st' \<Longrightarrow> write_side st' = write_side st"
  using same_but_bufferD [of st st'] by (simp add: write_side_def)

lemma header_bytes_write_side: "header_bytes st bs = (r, st') \<Longrightarrow> write_side st' = write_side st"
  by (auto simp: header_bytes_def header_complete_def write_side_def Let_def split: if_splits)

lemma body_bytes_write_side: "body_bytes C st bs = (r, st') \<Longrightarrow> write_side st' = write_side st"
  by (auto simp: body_bytes_def body_complete_def write_side_def Let_def split: if_splits option.splits)

lemma inner_turn_write_side:
  assumes "inner_turn n on_eof on_bytes st s = (x, st', t)" "write_side (snd on_eof) = write_side st"
    "\<And>bs r st1. on_bytes bs = (r, st1) \<Longrightarrow> write_side st1 = write_side st"
  shows "write_side st' = write_side st"
  using assms(1,2)
  by (auto simp: inner_turn_def split: prod.splits poll.splits sum.splits if_splits dest: assms(3))

lemma read_turn_write_side:
  assumes "read_turn C st s = (x, st', t)"
  shows "write_side st' = write_side st"
proof (cases "read_phase st")
  case NeedHeader
  have "write_side (snd (header_eof st)) = write_side st" by (simp add: header_eof_def write_side_def)
  then show ?thesis
    using inner_turn_write_side [of _ "header_eof st" "header_bytes st"] assms NeedHeader header_bytes_write_side
    by (simp add: read_turn_def)
next
  case NeedBody
  then show ?thesis
    using inner_turn_write_side [of _ "(Inl EofInBody, st)" "body_bytes C st"] assms body_bytes_write_side
    by (simp add: read_turn_def)
qed

lemma poll_read_write_side: "write_side (fst (snd (poll_read C now i n st s))) = write_side st"
proof (induction C now i n st s rule: poll_read.induct)
  case (1 C now i n st s)
  obtain x st1 t where t: "read_turn C st s = (x, st1, t)" by (cases "read_turn C st s")
  show ?case
  proof (cases "plaintext_pos st < length (plaintext st) \<or> read_eof st \<or> budget_age_exhausted st (now i)")
    case True
    then show ?thesis by (subst poll_read.simps) (auto simp: write_side_def Let_def)
  next
    case False
    then have "poll_read C now i n st s = (case x of Some r \<Rightarrow> (r, st1, t) | None \<Rightarrow> poll_read C now (Suc i) n st1 t)"
      using t by (subst poll_read.simps) (simp split: option.splits)
    moreover have "write_side (fst (snd (poll_read C now (Suc i) n st1 t))) = write_side st1" if "x = None"
      using 1 False t that by simp
    ultimately show ?thesis
      using read_turn_write_side [OF t] by (cases x) simp_all
  qed
qed

text \<open>The nonces used so far are those of the counter values below the current one.\<close>

definition nonces_counted :: "EncryptedStream \<Rightarrow> bool" where
  "nonces_counted st =
     (sealed_nonces st = map (make_nonce (write_nonce_base st)) [0..<write_seq st] \<and>
      (write_seq st = 0 \<or> write_seq st \<le> max_records_per_direction (budget st) \<and> write_seq st < 2 ^ 64))"

lemma nonces_counted_cong: "write_side st' = write_side st \<Longrightarrow> nonces_counted st' = nonces_counted st"
  by (simp add: nonces_counted_def write_side_def)

lemma poll_write_seq:
  assumes "poll_write C now st buf rs = (r, st', rs', out)"
  shows "write_nonce_base st' = write_nonce_base st \<and> budget st' = budget st \<and>
     (write_seq st' = write_seq st \<and> sealed_nonces st' = sealed_nonces st \<or>
      write_seq st' = Suc (write_seq st) \<and> write_seq st < max_records_per_direction (budget st) \<and> Suc (write_seq st) < 2 ^ 64 \<and>
      sealed_nonces st' = sealed_nonces st @ [make_nonce (write_nonce_base st) (write_seq st)])"
  using assms
proof (cases rule: poll_write_cases)
  case still
  then show ?thesis using same_but_bufferD [OF still(1)] by simp
next
  case (fail st1 rs1 out1 e)
  then show ?thesis
    using same_but_bufferD [of st st1] drain_pending_spec [OF fail(1)] build_record_seq [OF fail(3)] by simp
next
  case (seal st1 rs1 out1 st2 p rs2 out2)
  then show ?thesis
    using same_but_bufferD [of st st1] drain_pending_spec [OF seal(1)] build_record_seq [OF seal(3)]
      same_but_bufferD [of st2 st'] drain_pending_spec [OF seal(4)] by simp
qed

lemma drain_pending_write_side: "drain_pending st rs = (r, st', rs', out) \<Longrightarrow> write_side st' = write_side st"
  using drain_pending_spec [of st rs r st' rs' out] write_side_same_but_buffer by blast

lemma poll_flush_write_side: "write_side (fst (snd (poll_flush st rs inner))) = write_side st"
  by (cases "drain_pending st rs") (auto simp: poll_flush_def drain_pending_write_side split: poll.splits sum.splits)

lemma poll_shutdown_write_side: "write_side (fst (snd (poll_shutdown st rs inner))) = write_side st"
proof -
  obtain r st1 rs1 out where d: "drain_pending st rs = (r, st1, rs1, out)" by (cases "drain_pending st rs")
  then have "write_side (fst (snd (poll_shutdown st rs inner))) = write_side st1"
    by (auto simp: poll_shutdown_def write_side_def split: poll.splits sum.splits)
  then show ?thesis using drain_pending_write_side [OF d] by simp
qed

lemma poll_write_nonces_counted:
  assumes "nonces_counted st" "poll_write C now st buf rs = (r, st', rs', out)"
  shows "nonces_counted st'"
  using poll_write_seq [OF assms(2)] assms(1) unfolding nonces_counted_def
  by (elim conjE disjE) simp_all

lemma write_side_nonces_counted:
  assumes "nonces_counted st" "write_side st' = write_side st"
  shows "nonces_counted st' \<and> write_nonce_base st' = write_nonce_base st \<and> budget st' = budget st"
  using assms nonces_counted_cong [OF assms(2)] by (simp add: write_side_def)

lemma after_call_nonces_counted:
  assumes "nonces_counted st"
  shows "nonces_counted (after_call C c st) \<and> write_nonce_base (after_call C c st) = write_nonce_base st \<and>
     budget (after_call C c st) = budget st"
proof (cases c)
  case (CallWrite now buf rs)
  obtain r st1 rs1 out where w: "poll_write C now st buf rs = (r, st1, rs1, out)"
    by (cases "poll_write C now st buf rs")
  have "after_call C c st = st1" using CallWrite w by simp
  then show ?thesis
    using conjunct1 [OF poll_write_seq [OF w]] conjunct1 [OF conjunct2 [OF poll_write_seq [OF w]]]
      poll_write_nonces_counted [OF assms w] by simp
qed (use write_side_nonces_counted [OF assms poll_flush_write_side] write_side_nonces_counted [OF assms poll_shutdown_write_side]
    write_side_nonces_counted [OF assms poll_read_write_side] in \<open>simp_all only: after_call.simps simp_thms\<close>)

lemma after_calls_nonces_counted:
  assumes "nonces_counted st"
  shows "nonces_counted (after_calls C cs st) \<and> write_nonce_base (after_calls C cs st) = write_nonce_base st \<and>
     budget (after_calls C cs st) = budget st"
  using assms
proof (induction cs arbitrary: st)
  case (Cons c cs)
  then show ?case using after_call_nonces_counted [of st C c] by (simp add: after_calls_def)
qed (simp add: after_calls_def)

lemma nonces_distinct:
  assumes "length base = NONCE_LEN" "n \<le> 2 ^ 64"
  shows "distinct (map (make_nonce base) [0..<n])"
  using assms by (auto simp: distinct_map inj_on_def intro: make_nonce_inj)

lemma new_with_budget_nonces:
  "nonces_counted (new_with_budget sha256 iv role b now)"
  "budget (new_with_budget sha256 iv role b now) = b"
  "write_nonce_base (new_with_budget sha256 iv Initiator b now) = fst (derive_nonce_bases sha256 iv)"
  "write_nonce_base (new_with_budget sha256 iv Responder b now) = snd (derive_nonce_bases sha256 iv)"
  "read_nonce_base (new_with_budget sha256 iv Initiator b now) = snd (derive_nonce_bases sha256 iv)"
  "read_nonce_base (new_with_budget sha256 iv Responder b now) = fst (derive_nonce_bases sha256 iv)"
  by (simp_all add: new_with_budget_def nonces_counted_def derive_nonce_bases_def split: EncryptionRole.splits)

lemma derive_nonce_bases_length:
  assumes "\<And>x. length (sha256 x) = 32"
  shows "length (fst (derive_nonce_bases sha256 iv)) = NONCE_LEN" "length (snd (derive_nonce_bases sha256 iv)) = NONCE_LEN"
  using assms by (simp_all add: derive_nonce_bases_def NONCE_LEN_def)

lemma make_nonce_prefix: "length base = NONCE_LEN \<Longrightarrow> take 4 (make_nonce base n) = take 4 base"
  by (simp add: make_nonce_def NONCE_LEN_def)

text \<open>C5. The two ends of a connection use the same key. Whatever either end does with its stream, writes of any size, reads,
flushes and shutdowns in any order, with any answers of the inner stream and failures in between, it never
encrypts two records under the same nonce and stays within the record budget. The two ends do not use a
nonce of each other either, provided that the first four bytes of the two derived nonce bases differ.\<close>

theorem nonces_never_repeat:
  assumes "\<And>x. length (sha256 x) = 32"
    and "a = after_calls C cs (new_with_budget sha256 iv Initiator b t)"
    and "z = after_calls C ds (new_with_budget sha256 iv Responder b u)"
  shows "distinct (sealed_nonces a) \<and> distinct (sealed_nonces z) \<and>
     length (sealed_nonces a) \<le> max_records_per_direction b \<and> length (sealed_nonces z) \<le> max_records_per_direction b \<and>
     (take 4 (fst (derive_nonce_bases sha256 iv)) \<noteq> take 4 (snd (derive_nonce_bases sha256 iv)) \<longrightarrow>
        distinct (sealed_nonces a @ sealed_nonces z))"
proof -
  note len = derive_nonce_bases_length [of sha256, OF assms(1), of iv]
  have a: "nonces_counted a" "write_nonce_base a = fst (derive_nonce_bases sha256 iv)" "budget a = b"
    using after_calls_nonces_counted [OF new_with_budget_nonces(1) [of sha256 iv Initiator b t], of C cs] assms(2)
    by (simp_all add: new_with_budget_nonces(2,3))
  have z: "nonces_counted z" "write_nonce_base z = snd (derive_nonce_bases sha256 iv)" "budget z = b"
    using after_calls_nonces_counted [OF new_with_budget_nonces(1) [of sha256 iv Responder b u], of C ds] assms(3)
    by (simp_all add: new_with_budget_nonces(2,4))
  have one: "distinct (sealed_nonces x) \<and> length (sealed_nonces x) \<le> max_records_per_direction b \<and>
      (\<forall>y \<in> set (sealed_nonces x). take 4 y = take 4 (write_nonce_base x))"
    if "nonces_counted x" "length (write_nonce_base x) = NONCE_LEN" "budget x = b" for x
    using that nonces_distinct [of "write_nonce_base x" "write_seq x"]
    by (auto simp: nonces_counted_def make_nonce_prefix)
  show ?thesis
    using one [OF a(1) _ a(3)] one [OF z(1) _ z(3)] a(2) z(2) len by auto
qed

section \<open>What is written\<close>

text \<open>A sequence of writes: the state, the bytes that reached the inner stream, the bytes that the
caller was told have been accepted, and whether a write failed.\<close>

type_synonym write_call = "instant \<times> bytes \<times> room list"

fun poll_writes :: "cipher \<Rightarrow> write_call list \<Rightarrow> EncryptedStream \<Rightarrow> EncryptedStream \<times> bytes \<times> bytes \<times> bool" where
  "poll_writes C [] st = (st, [], [], False)"
| "poll_writes C ((now, buf, rs) # ws) st =
     (let (r, st1, rs1, out1) = poll_write C now st buf rs;
          (st2, out2, taken, bad) = poll_writes C ws st1
      in (st2, out1 @ out2, accepted r buf @ taken, failed r \<or> bad))"

text \<open>What a stretch of writing from \<open>st\<close> to \<open>st'\<close> has done when it sealed the chunks \<open>cs\<close>.\<close>

definition wrote :: "cipher \<Rightarrow> EncryptedStream \<Rightarrow> EncryptedStream \<Rightarrow> bytes \<Rightarrow> bytes list \<Rightarrow> bool" where
  "wrote C st st' out cs =
     (out @ unsent st' = unsent st @ sealed_all C (write_nonce_base st) (write_seq st) cs \<and>
      write_nonce_base st' = write_nonce_base st \<and> budget st' = budget st \<and>
      write_seq st' = write_seq st + length cs \<and> list_all chunk_ok cs \<and>
      write_plaintext_bytes st' = write_plaintext_bytes st + length (concat cs) \<and>
      (cs \<noteq> [] \<longrightarrow> write_seq st' \<le> max_records_per_direction (budget st) \<and>
        write_plaintext_bytes st' \<le> max_plaintext_bytes_per_direction (budget st)))"

lemma wrote_trans:
  assumes "wrote C st st1 out1 cs1" "wrote C st1 st2 out2 cs2"
  shows "wrote C st st2 (out1 @ out2) (cs1 @ cs2)"
proof -
  have "(out1 @ out2) @ unsent st2 = unsent st @ sealed_all C (write_nonce_base st) (write_seq st) (cs1 @ cs2)"
    using assms unfolding wrote_def by (metis append_assoc sealed_all_append)
  then show ?thesis
    using assms by (cases cs2) (auto simp: wrote_def)
qed

lemma poll_write_wrote:
  assumes "cipher_ok C" "poll_write C now st buf rs = (r, st', rs', out)"
  shows "\<exists>cs. wrote C st st' out cs \<and> (failed r \<or> concat cs = accepted r buf)"
proof -
  have len: "length (take MAX_PLAINTEXT buf) \<le> MAX_PLAINTEXT" by simp
  show ?thesis
    using assms(2)
  proof (cases rule: poll_write_cases)
    case still
    then have "wrote C st st' out []" using same_but_bufferD [OF still(1)] by (simp add: wrote_def)
    then show ?thesis using still(3) by (auto intro!: exI [of _ "[]"])
  next
    case (fail st1 rs1 out1 e)
    then have "st' = st1" using build_record_error [OF assms(1) len] by blast
    then have "wrote C st st' out []"
      using same_but_bufferD [of st st1] drain_pending_spec [OF fail(1)] fail by (auto simp: wrote_def)
    then show ?thesis using fail(5) by blast
  next
    case (seal st1 rs1 out1 st2 p rs2 out2)
    note b = build_record_ok [OF assms(1) len seal(3)] and s = build_record_seq [OF seal(3)]
    note d1 = drain_pending_spec [OF seal(1)] and d2 = drain_pending_spec [OF seal(4)]
    note f1 = same_but_bufferD [of st st1] and f2 = same_but_bufferD [of st2 st']
    have "take MAX_PLAINTEXT buf \<noteq> []" using seal(2) by (simp add: MAX_PLAINTEXT_def)
    then have "wrote C st st' out [take MAX_PLAINTEXT buf]"
      using b s d1 d2 f1 f2 seal(5) by (auto simp: wrote_def chunk_ok_def)
    then show ?thesis using seal(6) by (auto intro!: exI [of _ "[take MAX_PLAINTEXT buf]"])
  qed
qed

lemma poll_writes_wrote:
  assumes "cipher_ok C" "poll_writes C ws st = (st', out, taken, bad)"
  shows "\<exists>cs. wrote C st st' out cs \<and> (bad \<or> concat cs = taken)"
  using assms(2)
proof (induction ws arbitrary: st st' out taken bad)
  case Nil
  then have "wrote C st st' out []" by (simp add: wrote_def)
  then show ?case using Nil by (auto intro!: exI [of _ "[]"])
next
  case (Cons c ws)
  obtain now buf rs where c: "c = (now, buf, rs)" by (cases c)
  obtain r st1 rs1 out1 where w: "poll_write C now st buf rs = (r, st1, rs1, out1)"
    by (cases "poll_write C now st buf rs")
  obtain st2 out2 taken2 bad2 where ws: "poll_writes C ws st1 = (st2, out2, taken2, bad2)"
    by (cases "poll_writes C ws st1")
  have eq: "st' = st2" "out = out1 @ out2" "taken = accepted r buf @ taken2" "bad = (failed r \<or> bad2)"
    using Cons.prems c w ws by simp_all
  obtain cs1 where cs1: "wrote C st st1 out1 cs1" "failed r \<or> concat cs1 = accepted r buf"
    using poll_write_wrote [OF assms(1) w] by blast
  obtain cs2 where cs2: "wrote C st1 st2 out2 cs2" "bad2 \<or> concat cs2 = taken2"
    using Cons.IH [OF ws] by blast
  show ?case
    using wrote_trans [OF cs1(1) cs2(1)] cs1(2) cs2(2) eq by (intro exI [of _ "cs1 @ cs2"]) auto
qed

section \<open>Reading\<close>

text \<open>What the inner stream delivers, how often it says not-yet, and that it does not fail.\<close>

fun content :: "arrival list \<Rightarrow> bytes" where
  "content [] = []"
| "content (Piece p # s) = p @ content s"
| "content (_ # s) = content s"

fun waits :: "arrival list \<Rightarrow> nat" where
  "waits [] = 0"
| "waits (NotYet # s) = Suc (waits s)"
| "waits (_ # s) = waits s"

fun healthy :: "arrival list \<Rightarrow> bool" where
  "healthy [] = True"
| "healthy (Piece p # s) = (p \<noteq> [] \<and> healthy s)"
| "healthy (NotYet # s) = healthy s"
| "healthy (Broken # s) = False"

definition pending :: "EncryptedStream \<Rightarrow> bytes" where
  "pending st = drop (plaintext_pos st) (plaintext st)"

text \<open>The part of the current record that has been read, and that it is only a part.\<close>

definition frame_part :: "EncryptedStream \<Rightarrow> bytes" where
  "frame_part st = (case read_phase st of NeedHeader \<Rightarrow> header_buf st | NeedBody \<Rightarrow> be_bytes 2 (body_needed st) @ body_buf st)"

definition phase_ok :: "EncryptedStream \<Rightarrow> bool" where
  "phase_ok st =
     (case read_phase st of
        NeedHeader \<Rightarrow> length (header_buf st) < 2
      | NeedBody \<Rightarrow> length (body_buf st) < body_needed st \<and> body_needed st < 65536)"

definition room_in_budget :: "EncryptedStream \<Rightarrow> bytes list \<Rightarrow> bool" where
  "room_in_budget st chunks =
     (read_seq st + length chunks \<le> max_records_per_direction (budget st) \<and>
      max_records_per_direction (budget st) < 2 ^ 64 \<and>
      read_plaintext_bytes st + length (concat chunks) \<le> max_plaintext_bytes_per_direction (budget st) \<and>
      max_plaintext_bytes_per_direction (budget st) < 2 ^ 64)"

text \<open>The reader will find exactly the records of \<open>chunks\<close>.\<close>

definition reading :: "cipher \<Rightarrow> EncryptedStream \<Rightarrow> bytes \<Rightarrow> bytes list \<Rightarrow> bool" where
  "reading C st bs chunks =
     (list_all chunk_ok chunks \<and> frame_part st @ bs = sealed_all C (read_nonce_base st) (read_seq st) chunks \<and>
      phase_ok st \<and> \<not> read_eof st \<and> (first_record_received st \<or> chunks \<noteq> []) \<and> room_in_budget st chunks)"

lemma sealed_shape:
  assumes "cipher_ok C" "chunk_ok c"
  obtains ct where "sealed C base n c = be_bytes 2 (length c + 16) @ ct" "length ct = length c + 16"
    "length c + 16 < 65536" "16 \<le> length c + 16" "length c + 16 \<le> MAX_PLAINTEXT + TAG_LEN"
    "decrypt C (make_nonce base n) ct = Some c"
proof -
  have len: "length c \<le> MAX_PLAINTEXT" using assms(2) by (simp add: chunk_ok_def)
  obtain ct where ct: "encrypt C (make_nonce base n) c = Some ct" "length ct = length c + TAG_LEN"
    "decrypt C (make_nonce base n) ct = Some c"
    by (rule cipher_okE [OF assms(1) len])
  show thesis
    by (rule that [of ct]) (use ct len in \<open>simp_all add: sealed_def TAG_LEN_def MAX_PLAINTEXT_def\<close>)
qed

lemma header_bytes_reading:
  assumes C: "cipher_ok C" and ph: "read_phase st = NeedHeader" and r: "reading C st (p @ bs) chunks"
    and p: "p \<noteq> []" "length (header_buf st) + length p \<le> 2"
  shows "\<exists>st'. header_bytes st p = (Inr (), st') \<and> reading C st' bs chunks \<and> pending st' = pending st \<and>
     budget st' = budget st \<and> created_at st' = created_at st"
proof -
  have eq: "header_buf st @ p @ bs = sealed_all C (read_nonce_base st) (read_seq st) chunks"
    using r ph by (simp add: reading_def frame_part_def)
  then obtain c cs where chunks: "chunks = c # cs" using p by (cases chunks) auto
  then have c: "chunk_ok c" using r by (simp add: reading_def)
  obtain ct where ct: "sealed C (read_nonce_base st) (read_seq st) c = be_bytes 2 (length c + 16) @ ct"
    "length c + 16 < 65536" "16 \<le> length c + 16" "length c + 16 \<le> MAX_PLAINTEXT + TAG_LEN"
    by (rule sealed_shape [OF C c])
  show ?thesis
  proof (cases "length (header_buf st @ p) = 2")
    case False
    then show ?thesis
      using r ph p eq
      by (auto simp: header_bytes_def LEN_FIELD_def reading_def frame_part_def phase_ok_def pending_def room_in_budget_def)
  next
    case True
    then have "take 2 (header_buf st @ p @ bs) = header_buf st @ p" by simp
    then have "header_buf st @ p = be_bytes 2 (length c + 16)"
      unfolding eq by (simp add: chunks ct(1))
    moreover from this have "from_be (header_buf st @ p) = length c + 16"
      "be_bytes 2 (length c + 16) @ bs = sealed_all C (read_nonce_base st) (read_seq st) chunks"
      using ct(2) eq by (simp, metis append_assoc)
    ultimately show ?thesis
      using r ph True ct
      by (auto simp: header_bytes_def header_complete_def LEN_FIELD_def TAG_LEN_def reading_def frame_part_def
          phase_ok_def pending_def room_in_budget_def Let_def)
  qed
qed

lemma body_frame:
  assumes C: "cipher_ok C" and ph: "read_phase st = NeedBody" and r: "reading C st bs chunks"
  obtains c cs ct where "chunks = c # cs" "chunk_ok c" "body_needed st = length ct"
    "body_buf st @ bs = ct @ sealed_all C (read_nonce_base st) (Suc (read_seq st)) cs" "length ct = length c + 16"
    "decrypt C (make_nonce (read_nonce_base st) (read_seq st)) ct = Some c"
proof -
  have eq: "be_bytes 2 (body_needed st) @ body_buf st @ bs = sealed_all C (read_nonce_base st) (read_seq st) chunks"
    and need: "body_needed st < 65536"
    using r ph by (simp_all add: reading_def frame_part_def phase_ok_def)
  obtain c cs where chunks: "chunks = c # cs"
    using eq by (cases chunks) (auto simp: be_bytes_2)
  then have c: "chunk_ok c" using r by (simp add: reading_def)
  obtain ct where ct: "sealed C (read_nonce_base st) (read_seq st) c = be_bytes 2 (length c + 16) @ ct" "length ct = length c + 16"
    "length c + 16 < 65536" "decrypt C (make_nonce (read_nonce_base st) (read_seq st)) ct = Some c"
    by (rule sealed_shape [OF C c])
  have "be_bytes 2 (body_needed st) = be_bytes 2 (length c + 16)"
    and rest: "body_buf st @ bs = ct @ sealed_all C (read_nonce_base st) (Suc (read_seq st)) cs"
    using eq chunks ct(1) by simp_all
  then have "body_needed st = length c + 16"
    using need ct(3) be_bytes_inj [of 2] by simp
  then show thesis using that [OF chunks c] ct rest by simp
qed

lemma body_bytes_reading:
  assumes C: "cipher_ok C" and ph: "read_phase st = NeedBody" and r: "reading C st (p @ bs) chunks"
    and p: "p \<noteq> []" "length (body_buf st) + length p \<le> body_needed st" and none: "pending st = []"
  shows "\<exists>st' chunks'. body_bytes C st p = (Inr (), st') \<and> reading C st' bs chunks' \<and>
     pending st' @ concat chunks' = concat chunks \<and> budget st' = budget st \<and> created_at st' = created_at st"
proof -
  obtain c cs ct where f: "chunks = c # cs" "chunk_ok c" "body_needed st = length ct"
    "body_buf st @ p @ bs = ct @ sealed_all C (read_nonce_base st) (Suc (read_seq st)) cs" "length ct = length c + 16"
    "decrypt C (make_nonce (read_nonce_base st) (read_seq st)) ct = Some c"
    by (rule body_frame [OF C ph r])
  show ?thesis
  proof (cases "length (body_buf st @ p) = body_needed st")
    case False
    then have "body_bytes C st p = (Inr (), st\<lparr> body_buf := body_buf st @ p \<rparr>)"
      by (simp add: body_bytes_def)
    moreover have "reading C (st\<lparr> body_buf := body_buf st @ p \<rparr>) bs chunks"
      using r ph p False by (simp add: reading_def frame_part_def phase_ok_def room_in_budget_def)
    ultimately show ?thesis using none by (auto simp: pending_def)
  next
    case True
    then have body: "body_buf st @ p = ct" "bs = sealed_all C (read_nonce_base st) (Suc (read_seq st)) cs"
      using f(3,4) append_eq_append_conv [of "body_buf st @ p" ct bs "sealed_all C (read_nonce_base st) (Suc (read_seq st)) cs"]
      by simp_all
    have room: "read_seq st < max_records_per_direction (budget st)" "max_records_per_direction (budget st) < 2 ^ 64"
      "read_plaintext_bytes st + length c \<le> max_plaintext_bytes_per_direction (budget st)"
      "max_plaintext_bytes_per_direction (budget st) < 2 ^ 64"
      using r f(1) by (simp_all add: reading_def room_in_budget_def)
    let ?st = "st\<lparr> read_seq := read_seq st + 1, read_plaintext_bytes := read_plaintext_bytes st + length c,
      plaintext := c, plaintext_pos := 0, first_record_received := True, header_buf := [], body_buf := [],
      body_needed := 0, read_phase := NeedHeader \<rparr>"
    have "body_bytes C st p = (Inr (), ?st)"
      using room f(3,5,6) body(1) True by (simp add: body_bytes_def body_complete_def Let_def TAG_LEN_def)
    moreover have "reading C ?st bs cs"
      using r f(1) body(2) by (simp add: reading_def frame_part_def phase_ok_def room_in_budget_def)
    moreover have "pending ?st = c" by (simp add: pending_def)
    ultimately show ?thesis using f(1) by auto
  qed
qed


lemma reading_eof:
  assumes C: "cipher_ok C" and r: "reading C st [] chunks"
  shows "chunks = [] \<and> read_phase st = NeedHeader \<and> header_buf st = [] \<and> first_record_received st"
proof (cases "read_phase st")
  case NeedHeader
  have "chunks = []"
  proof (cases chunks)
    case (Cons c cs)
    then have c: "chunk_ok c" using r by (simp add: reading_def)
    obtain ct where "sealed C (read_nonce_base st) (read_seq st) c = be_bytes 2 (length c + 16) @ ct"
      by (rule sealed_shape [OF C c])
    then have "2 \<le> length (sealed_all C (read_nonce_base st) (read_seq st) chunks)"
      using Cons by simp
    moreover have "length (sealed_all C (read_nonce_base st) (read_seq st) chunks) < 2"
      using r NeedHeader by (auto simp: reading_def frame_part_def phase_ok_def)
    ultimately show ?thesis by simp
  qed
  then show ?thesis
    using r NeedHeader by (simp add: reading_def frame_part_def)
next
  case NeedBody
  obtain c cs ct where "body_needed st = length ct"
    "body_buf st @ [] = ct @ sealed_all C (read_nonce_base st) (Suc (read_seq st)) cs"
    by (rule body_frame [OF C NeedBody r])
  then show ?thesis
    using r NeedBody by (simp add: reading_def phase_ok_def)
qed

lemma inner_turn_Piece:
  assumes "0 < n" "p \<noteq> []" "on_bytes (take n p) = (Inr (), st')"
  shows "inner_turn n on_eof on_bytes st (Piece p # s) = (None, st', if length p \<le> n then s else Piece (drop n p) # s)"
  using assms by (simp add: inner_turn_def)

lemma read_turn_Piece:
  assumes C: "cipher_ok C" and r: "reading C st (p @ bs) chunks" and none: "pending st = []" and p: "p \<noteq> []"
  obtains st' n chunks' where
    "read_turn C st (Piece p # s) = (None, st', if length p \<le> n then s else Piece (drop n p) # s)"
    "reading C st' (drop n p @ bs) chunks'" "pending st' @ concat chunks' = concat chunks"
    "budget st' = budget st" "created_at st' = created_at st"
proof (cases "read_phase st")
  case NeedHeader
  let ?n = "2 - length (header_buf st)"
  have n: "0 < ?n" using r NeedHeader by (simp add: reading_def phase_ok_def)
  have "take ?n p \<noteq> []" "length (header_buf st) + length (take ?n p) \<le> 2" using n p by auto
  moreover have "reading C st (take ?n p @ drop ?n p @ bs) chunks"
    using r by (metis append_assoc append_take_drop_id)
  ultimately obtain st' where st': "header_bytes st (take ?n p) = (Inr (), st')" "reading C st' (drop ?n p @ bs) chunks"
    "pending st' = pending st" "budget st' = budget st" "created_at st' = created_at st"
    using header_bytes_reading [OF C NeedHeader, of "take ?n p" "drop ?n p @ bs" chunks] by blast
  show thesis
    by (rule that [OF _ st'(2)])
       (use inner_turn_Piece [OF n p, of "header_bytes st", OF st'(1)] st' none NeedHeader in \<open>simp_all add: read_turn_def LEN_FIELD_def\<close>)
next
  case NeedBody
  let ?n = "body_needed st - length (body_buf st)"
  have n: "0 < ?n" using r NeedBody by (simp add: reading_def phase_ok_def)
  have "take ?n p \<noteq> []" "length (body_buf st) + length (take ?n p) \<le> body_needed st" using n p by auto
  moreover have "reading C st (take ?n p @ drop ?n p @ bs) chunks"
    using r by (metis append_assoc append_take_drop_id)
  ultimately obtain st' chunks' where st': "body_bytes C st (take ?n p) = (Inr (), st')" "reading C st' (drop ?n p @ bs) chunks'"
    "pending st' @ concat chunks' = concat chunks" "budget st' = budget st" "created_at st' = created_at st"
    using body_bytes_reading [OF C NeedBody, of "take ?n p" "drop ?n p @ bs" chunks] none by blast
  show thesis
    by (rule that [OF _ st'(2)])
       (use inner_turn_Piece [OF n p, of "body_bytes C st", OF st'(1)] st' NeedBody in \<open>simp_all add: read_turn_def\<close>)
qed

lemma healthy_cases:
  assumes "healthy s"
  obtains (eof) "s = []" | (wait) t where "s = NotYet # t" "healthy t" | (piece) p t where "s = Piece p # t" "p \<noteq> []" "healthy t"
  using assms by (cases s rule: healthy.cases) auto

text \<open>One poll of a reader: it waits, or it delivers a part of what is to come, or everything has come.\<close>

lemma poll_read_progress:
  assumes C: "cipher_ok C" and rem: "0 < n"
    and "reading C st (content s) chunks" "healthy s" "\<And>i. \<not> budget_age_exhausted st (now i)"
  shows "(\<exists>st' t chunks'. poll_read C now i n st s = (Pending, st', t) \<and> waits t < waits s \<and>
            reading C st' (content t) chunks' \<and> healthy t \<and> pending st' @ concat chunks' = pending st @ concat chunks \<and>
            budget st' = budget st \<and> created_at st' = created_at st)
       \<or> (\<exists>bs st' t chunks'. poll_read C now i n st s = (Ready (Inr bs), st', t) \<and> bs \<noteq> [] \<and> waits t \<le> waits s \<and>
            reading C st' (content t) chunks' \<and> healthy t \<and> bs @ pending st' @ concat chunks' = pending st @ concat chunks \<and>
            budget st' = budget st \<and> created_at st' = created_at st)
       \<or> (\<exists>st' t. poll_read C now i n st s = (Ready (Inr []), st', t) \<and> read_eof st' \<and> pending st' = [] \<and>
            pending st @ concat chunks = [])"
  using assms(3-)
proof (induction "arrivals_size s" arbitrary: i st s chunks rule: less_induct)
  case less
  note r = less.prems(1)
  show ?case
  proof (cases "pending st = []")
    case False
    then have lt: "plaintext_pos st < length (plaintext st)" by (auto simp: pending_def)
    let ?k = "min (length (pending st)) n"
    let ?st = "st\<lparr> plaintext_pos := plaintext_pos st + ?k \<rparr>"
    have eq: "poll_read C now i n st s = (Ready (Inr (take ?k (pending st))), ?st, s)"
      using lt rem by (subst poll_read.simps) (simp add: pending_def Let_def)
    have "take ?k (pending st) \<noteq> []" using False rem by simp
    moreover have "pending ?st = drop ?k (pending st)" by (simp add: pending_def add.commute)
    moreover have "reading C ?st (content s) chunks"
      using r by (cases "read_phase st") (simp_all add: reading_def frame_part_def phase_ok_def room_in_budget_def)
    ultimately show ?thesis
      using eq less.prems(2)
      by (intro disjI2 disjI1 exI [of _ "take ?k (pending st)"] exI [of _ ?st] exI [of _ s] exI [of _ chunks]) simp
  next
    case True
    then have ge: "\<not> plaintext_pos st < length (plaintext st)" by (simp add: pending_def)
    have not_eof: "\<not> read_eof st" using r by (simp add: reading_def)
    have step: "poll_read C now i n st s =
        (case read_turn C st s of (Some x, st, t) \<Rightarrow> (x, st, t) | (None, st, t) \<Rightarrow> poll_read C now (Suc i) n st t)"
      using ge not_eof less.prems(3) by (subst poll_read.simps) simp
    show ?thesis
      using less.prems(2)
    proof (cases rule: healthy_cases)
      case eof
      then have e: "chunks = []" "read_phase st = NeedHeader" "header_buf st = []" "first_record_received st"
        using reading_eof [OF C, of st chunks] r by auto
      have "read_turn C st s = (Some (Ready (Inr [])), st\<lparr> read_eof := True \<rparr>, [])"
        using eof e by (simp add: read_turn_def inner_turn_def header_eof_def)
      then have "poll_read C now i n st s = (Ready (Inr []), st\<lparr> read_eof := True \<rparr>, [])"
        using step by simp
      then show ?thesis
        using e(1) True by (simp add: pending_def)
    next
      case (wait t)
      have "read_turn C st s = (Some Pending, st, t)"
        using wait by (cases "read_phase st") (simp_all add: read_turn_def inner_turn_def)
      then show ?thesis
        using step wait r by auto
    next
      case (piece p t)
      then have "reading C st (p @ content t) chunks" using r by simp
      then obtain st' k chunks' where st':
        "read_turn C st (Piece p # t) = (None, st', if length p \<le> k then t else Piece (drop k p) # t)"
        "reading C st' (drop k p @ content t) chunks'" "pending st' @ concat chunks' = concat chunks"
        "budget st' = budget st" "created_at st' = created_at st"
        using read_turn_Piece [OF C _ True piece(2)] by blast
      let ?t = "if length p \<le> k then t else Piece (drop k p) # t"
      have t: "content ?t = drop k p @ content t" "healthy ?t" "waits ?t = waits s"
        using piece by auto
      have "poll_read C now i n st s = poll_read C now (Suc i) n st' ?t"
        using step st'(1) piece(1) by simp
      moreover have "arrivals_size ?t < arrivals_size s"
        using read_turn_size [OF st'(1)] piece(1) by simp
      moreover have "\<not> budget_age_exhausted st' (now j)" for j
        using less.prems(3) [of j] st'(4,5) by (simp add: budget_age_exhausted_def)
      moreover have "reading C st' (content ?t) chunks'"
        using st'(2) t(1) by simp
      ultimately show ?thesis
        using less.hyps [of ?t st' chunks' "Suc i"] t(2,3) st'(3-5) True by simp
    qed
  qed
qed


section \<open>Delivery\<close>

text \<open>A reader polls again and again, each time with a buffer of some capacity and its own clock readings, until
the end of the stream or an error.\<close>

fun poll_reads ::
    "cipher \<Rightarrow> ((nat \<Rightarrow> instant) \<times> nat) list \<Rightarrow> EncryptedStream \<Rightarrow> arrival list \<Rightarrow> bytes \<times> EncryptedStream \<times> arrival list" where
  "poll_reads C [] st s = ([], st, s)"
| "poll_reads C ((now, n) # ps) st s =
     (case poll_read C now 0 n st s of
        (Pending, st, s) \<Rightarrow> poll_reads C ps st s
      | (Ready (Inl e), st, s) \<Rightarrow> ([], st, s)
      | (Ready (Inr bs), st, s) \<Rightarrow> (let (out, st, s) = poll_reads C ps st s in (bs @ out, st, s)))"

definition young :: "EncryptedStream \<Rightarrow> (nat \<Rightarrow> instant) \<times> nat \<Rightarrow> bool" where
  "young st p = (0 < snd p \<and> (\<forall>i. \<not> budget_age_exhausted st (fst p i)))"

lemma young_cong: "budget st' = budget st \<Longrightarrow> created_at st' = created_at st \<Longrightarrow> young st' = young st"
  by (simp add: young_def budget_age_exhausted_def fun_eq_iff)

lemma poll_reads_eof:
  assumes "read_eof st" "pending st = []"
  shows "poll_reads C ps st s = ([], st, s)"
proof (induction ps)
  case (Cons p ps)
  have "poll_read C now 0 n st s = (Ready (Inr []), st, s)" for now n
    using assms by (subst poll_read.simps) (simp add: pending_def)
  then show ?case using Cons by (cases p) simp
qed simp

lemma poll_reads_deliver:
  assumes C: "cipher_ok C"
    and "reading C st (content s) chunks" "healthy s" "list_all (young st) ps"
    and "waits s + length (pending st @ concat chunks) < length ps"
  shows "\<exists>st' t. poll_reads C ps st s = (pending st @ concat chunks, st', t) \<and> read_eof st'"
  using assms(2-)
proof (induction ps arbitrary: st s chunks)
  case (Cons p ps)
  obtain now n where p: "p = (now, n)" by (cases p)
  have n: "0 < n" and age: "\<And>i. \<not> budget_age_exhausted st (now i)"
    using Cons.prems(3) p by (simp_all add: young_def)
  consider
    (wait) st' t chunks' where "poll_read C now 0 n st s = (Pending, st', t)" "waits t < waits s"
      "reading C st' (content t) chunks'" "healthy t" "pending st' @ concat chunks' = pending st @ concat chunks"
      "budget st' = budget st" "created_at st' = created_at st"
  | (some) bs st' t chunks' where "poll_read C now 0 n st s = (Ready (Inr bs), st', t)" "bs \<noteq> []" "waits t \<le> waits s"
      "reading C st' (content t) chunks'" "healthy t" "bs @ pending st' @ concat chunks' = pending st @ concat chunks"
      "budget st' = budget st" "created_at st' = created_at st"
  | (eof) st' t where "poll_read C now 0 n st s = (Ready (Inr []), st', t)" "read_eof st'" "pending st' = []"
      "pending st @ concat chunks = []"
    using poll_read_progress [OF C n Cons.prems(1,2), of now 0] age by blast
  then show ?case
  proof cases
    case wait
    have "list_all (young st') ps" using Cons.prems(3) young_cong [OF wait(6,7)] by simp
    moreover have "waits t + length (pending st' @ concat chunks') < length ps"
      using Cons.prems(4) wait(2) unfolding wait(5) by simp
    ultimately show ?thesis
      using Cons.IH [OF wait(3,4)] wait(5) wait(1) p by simp
  next
    case some
    have young: "list_all (young st') ps" using Cons.prems(3) young_cong [OF some(7,8)] by simp
    have "length (pending st @ concat chunks) = length bs + length (pending st' @ concat chunks')"
      using arg_cong [OF some(6), of length] by simp
    then have "waits t + length (pending st' @ concat chunks') < length ps"
      using Cons.prems(4) some(2,3) by (cases bs) simp_all
    then obtain st2 u where "poll_reads C ps st' t = (pending st' @ concat chunks', st2, u)" "read_eof st2"
      using Cons.IH [OF some(4,5) young] by blast
    then show ?thesis
      using some(1,6) p by simp
  next
    case eof
    then show ?thesis
      using poll_reads_eof [OF eof(2,3), of C ps t] p by simp
  qed
qed simp

lemma new_reader_reading:
  assumes "wrote C (new_with_budget sha256 iv Initiator b t) w out cs" "unsent w = []" "cs \<noteq> []"
    and "max_records_per_direction b < 2 ^ 64" "max_plaintext_bytes_per_direction b < 2 ^ 64"
  shows "reading C (new_with_budget sha256 iv Responder b u) out cs"
proof -
  let ?w = "new_with_budget sha256 iv Initiator b t" and ?r = "new_with_budget sha256 iv Responder b u"
  have w0: "write_nonce_base ?w = read_nonce_base ?r" "write_seq ?w = 0" "write_plaintext_bytes ?w = 0" "unsent ?w = []" "budget ?w = b"
    by (simp_all add: new_with_budget_nonces) (simp_all add: new_with_budget_def unsent_def split: prod.splits)
  have r0: "read_phase ?r = NeedHeader" "header_buf ?r = []" "read_seq ?r = 0" "read_plaintext_bytes ?r = 0" "\<not> read_eof ?r" "budget ?r = b"
    by (simp_all add: new_with_budget_def split: prod.splits)
  show ?thesis
    using assms w0 r0
    by (auto simp: wrote_def reading_def frame_part_def phase_ok_def room_in_budget_def)
qed

text \<open>C6. The encrypted stream delivers. One end writes with any sequence of calls, in pieces of any size and
with any room in the inner stream, no call fails and everything has left its buffer; the inner stream cuts the bytes
into any pieces with any number of not-yet answers. Then the other end, polling with any buffers that are not empty,
receives exactly the bytes that were accepted and the end of the stream, within as many polls as there are
bytes and not-yet answers, plus one, unless the age limit of the key interferes.\<close>

theorem encrypted_stream_delivers:
  assumes "cipher_ok C"
    and "poll_writes C ws (new_with_budget sha256 iv Initiator b t) = (w, out, taken, False)" "unsent w = []" "taken \<noteq> []"
    and "max_records_per_direction b < 2 ^ 64" "max_plaintext_bytes_per_direction b < 2 ^ 64"
    and "content s = out" "healthy s"
    and "list_all (young (new_with_budget sha256 iv Responder b u)) ps" "waits s + length taken < length ps"
  shows "\<exists>st rest. poll_reads C ps (new_with_budget sha256 iv Responder b u) s = (taken, st, rest) \<and> read_eof st"
proof -
  obtain cs where cs: "wrote C (new_with_budget sha256 iv Initiator b t) w out cs" "concat cs = taken"
    using poll_writes_wrote [OF assms(1,2)] by blast
  moreover have "cs \<noteq> []" using cs(2) assms(4) by auto
  ultimately have "reading C (new_with_budget sha256 iv Responder b u) (content s) cs"
    using new_reader_reading [OF cs(1) assms(3) _ assms(5,6)] assms(7) by simp
  moreover have "pending (new_with_budget sha256 iv Responder b u) = []"
    by (simp add: new_with_budget_def pending_def split: prod.splits)
  ultimately show ?thesis
    using poll_reads_deliver [OF assms(1), of "new_with_budget sha256 iv Responder b u" s cs ps] assms(8-10) cs(2) by auto
qed

section \<open>An instance\<close>

text \<open>A cipher that only appends a tag and a hash that only cuts and pads its input satisfy what the
stream relies on.\<close>

definition sample_cipher :: cipher where
  "sample_cipher = \<lparr> encrypt = (\<lambda>_ p. Some (p @ replicate 16 0)), decrypt = (\<lambda>_ c. Some (take (length c - 16) c)) \<rparr>"

definition sample_hash :: "bytes \<Rightarrow> bytes" where
  "sample_hash x = take 32 (drop 16 x @ replicate 32 0)"

lemma sample_cipher_ok: "cipher_ok sample_cipher"
  by (simp add: cipher_ok_def sample_cipher_def TAG_LEN_def)

lemma sample_hash_length: "length (sample_hash x) = 32"
  by (simp add: sample_hash_def)

definition sample_budget :: AeadUsageBudget where
  "sample_budget = \<lparr> max_records_per_direction = 4, max_plaintext_bytes_per_direction = 100, max_age = 50 \<rparr>"

definition sample_end :: "EncryptionRole \<Rightarrow> EncryptedStream" where
  "sample_end role = new_with_budget sample_hash [1, 2] role sample_budget 0"

definition sample_calls :: "call list" where
  "sample_calls = [CallWrite 5 [7, 8] [Room 3, Full], CallFlush [Room 100] Pending, CallWrite 6 [9] []]"

lemma sample_bases:
  "take 4 (fst (derive_nonce_bases sample_hash [1, 2])) \<noteq> take 4 (snd (derive_nonce_bases sample_hash [1, 2]))"
  by code_simp

lemmas stream_eval =
  sample_end_def sample_calls_def sample_budget_def new_with_budget_def derive_nonce_bases_def budget_age_exhausted_def
  after_calls_def poll_write_def poll_flush_def drain_pending.simps build_record_def MAX_PLAINTEXT_def sample_cipher_def
  unsent_def accepted_def failed_def

lemma sample_calls_seal: "length (sealed_nonces (after_calls sample_cipher sample_calls (sample_end Initiator))) = 2"
  by (simp add: stream_eval split_beta)

theorem nonces_never_repeat_witness:
  "length (sealed_nonces (after_calls sample_cipher sample_calls (sample_end Initiator))) = 2 \<and>
   distinct (sealed_nonces (after_calls sample_cipher sample_calls (sample_end Initiator)) @
     sealed_nonces (after_calls sample_cipher sample_calls (sample_end Responder)))"
  using nonces_never_repeat [where C = sample_cipher and cs = sample_calls and ds = sample_calls and iv = "[1, 2]"
      and b = sample_budget and t = 0 and u = 0, OF sample_hash_length refl refl] sample_bases sample_calls_seal
  by (simp add: sample_end_def)

definition sample_writes :: "write_call list" where
  "sample_writes = [(5, [7, 8], [Room 3, Full]), (6, [9], [Room 100, Room 100])]"

definition sample_arrivals :: "arrival list" where
  "sample_arrivals = [Piece [0], NotYet, Piece ([18, 7, 8] @ replicate 16 0 @ [0]), NotYet, Piece (17 # 9 # replicate 16 0)]"

lemma sample_sent:
  "snd (poll_writes sample_cipher sample_writes (sample_end Initiator)) = (content sample_arrivals, [7, 8, 9], False) \<and>
   unsent (fst (poll_writes sample_cipher sample_writes (sample_end Initiator))) = []"
  by (simp add: stream_eval split_beta sample_writes_def sample_arrivals_def be_bytes_2 byte_def)

lemma sample_written:
  "poll_writes sample_cipher sample_writes (sample_end Initiator) =
     (fst (poll_writes sample_cipher sample_writes (sample_end Initiator)), content sample_arrivals, [7, 8, 9], False)"
  using sample_sent by (metis prod.collapse)

lemma sample_reader:
  "list_all (young (sample_end Responder)) (replicate 6 (\<lambda>_. 9, 2))"
  "healthy sample_arrivals" "waits sample_arrivals + length [7 :: u8, 8, 9] < length (replicate 6 (\<lambda>_ :: nat. 9 :: instant, 2 :: nat))"
  "max_records_per_direction sample_budget < 2 ^ 64" "max_plaintext_bytes_per_direction sample_budget < 2 ^ 64"
  by (simp_all add: list_all_iff young_def stream_eval sample_arrivals_def)

theorem encrypted_stream_delivers_witness:
  "\<exists>st rest. poll_reads sample_cipher (replicate 6 (\<lambda>_. 9, 2)) (sample_end Responder) sample_arrivals = ([7, 8, 9], st, rest) \<and> read_eof st"
  using encrypted_stream_delivers [OF sample_cipher_ok sample_written [unfolded sample_end_def] sample_sent [THEN conjunct2, unfolded sample_end_def]
      _ sample_reader(4,5) refl sample_reader(2) sample_reader(1) [unfolded sample_end_def] sample_reader(3)]
  by (simp only: sample_end_def) simp

end
