(* ===== verification/Spec2Isabelle.thy ===== *)
theory Spec2Isabelle
  imports Fwd_Wrr Fwd_Exec Commands Sni_Probe Rtcp_Tunnel Aes_Stream
begin

text \<open>Verification of cyfs-gateway, a network gateway written in Rust. Requests arrive at stacks and
servers; each runs a user-written script, a \<^emph>\<open>process chain\<close>, whose result says what to do with the
request; the most frequent answer is to forward it to one of several upstream servers. The development
has three parts: the process-chain interpreter (\<open>src/src/components/cyfs-process-chain\<close>), the
byte formats and source addresses of the streams that reach it, and the forward group (\<open>forward/\<close>, \<open>cmds/forward.rs\<close> and the executors in \<open>stack/mod.rs\<close> and
\<open>server/http_server.rs\<close> of \<open>src/src/components/cyfs-gateway-lib\<close>).

\<^bold>\<open>Prelude.\<close> Types of fixed width, the result combinators \<open>and_then\<close>, \<open>mapM\<close> and \<open>mapOpt\<close> for the \<open>?\<close>
operator, and the string functions of the Rust standard library that the sources call.

\<^bold>\<open>Forward group.\<close>
\<^item> \<open>Fwd_Plan\<close> (\<open>forward/plan.rs\<close>): the plan with its balance method, retry policy, targets and provider servers;
  parsing, validation, transport encoding, failure-state key. Lemmas: validation is exactly the stated
  conditions, a plan survives encoding and decoding, decoding yields only valid plans.
\<^item> \<open>Fwd_Failure\<close> (\<open>forward/failure_state.rs\<close>): the registry of consecutive failures. The clock is an argument.
  Lemmas: a candidate is ejected exactly at \<open>max_fails\<close> consecutive failures and comes back after \<open>fail_timeout\<close>.
\<^item> \<open>Fwd_Select\<close> (\<open>forward/selector.rs\<close>, \<open>forward/least_time.rs\<close>): the attempt order. Lemmas: the order is a
  permutation of the candidates, tier by tier; round robin gives every candidate its weight in turns;
  consistent hashing moves only the keys of a removed candidate; the RTT order is a stable sort.
\<^item> \<open>Fwd_Wrr\<close> (\<open>cmds/forward.rs\<close>): the smooth weighted round robin. Lemma: in every period each upstream is
  chosen its normalised weight many times.
\<^item> \<open>Fwd_Exec\<close> (\<open>stack/mod.rs\<close>, \<open>server/http_server.rs\<close>): the candidate loops. The outcome of every connection
  attempt and every clock reading is an observation consumed by the loop. Lemmas: the first candidate that
  opens is used, attempts are bounded by \<open>tries\<close>, the failure registry is told every outcome, and a request
  that is not idempotent is sent at most once unless the policy allows more.

\<^bold>\<open>Process chains.\<close>
\<^item> \<open>Coll\<close> (\<open>collection/coll.rs\<close>, \<open>collection/mem.rs\<close>): values and collections. Collections are shared and
  mutable in the code (\<open>Arc\<close>), so they are cells of an explicit heap; each cell has its traversal counter.
  Lemmas: well-formedness of the heap, frozen collections during a traversal.
\<^item> \<open>Env\<close> (\<open>chain/env.rs\<close>, \<open>chain/env_manager.rs\<close>, \<open>chain/external.rs\<close>): the global, chain and block environments
  with the tracker of the level a variable was created at, variable paths. Lemmas: the tracked environments
  refine three maps, paths survive printing and parsing, the fast path of simple keys is the general one.
\<^item> \<open>Block_Types\<close>, \<open>Eval\<close>, \<open>Block_Exec\<close> (\<open>block/block.rs\<close>, \<open>block/linker.rs\<close>, \<open>block/exec.rs\<close>): syntax, linking,
  evaluation of arguments, execution of lines, expressions and the statements \<open>if\<close>, \<open>case\<close>, \<open>for\<close>,
  \<open>match-result\<close>. The dispatch of a single command is an argument of these definitions.
\<^item> \<open>Process_Chain\<close> (\<open>chain/chain.rs\<close>, \<open>chain/manager.rs\<close>, \<open>chain/stack.rs\<close>): chains, libraries, the manager, the stack of
  execution pointers and the lookup of targets.
\<^item> \<open>Commands\<close> (\<open>chain/exec.rs\<close>, \<open>cmd/exec.rs\<close>, \<open>cmd/control.rs\<close>, \<open>cmd/var.rs\<close>, \<open>cmd/action.rs\<close>, \<open>cmd/external.rs\<close>): execution
  of blocks, chains and libraries, and the commands that call them. Here the recursion of the interpreter is
  closed: \<open>run_command\<close> interprets a command with fuel, and \<open>exec_command\<close> supplies
  \<open>command_fuel = (64 - depth of the stack) * (d + 2) + size of the command\<close>, where \<open>d\<close> bounds the size of the code a
  call can enter. \<open>MAX_STACK_DEPTH = 64\<close> bounds the depth of calls, so this fuel is always enough:
  the termination property shows that \<open>OutOfFuel\<close> is never the result, and more fuel gives the same result.

\<^bold>\<open>Streams and sources.\<close> The byte formats the gateway speaks and the addresses it believes.
\<^item> \<open>Wire\<close>, \<open>Net_Addr\<close>: what the sources use of the Rust library: big-endian integers, UTF-8, \<open>read\<close> and \<open>read_exact\<close> on a
  stream that arrives in pieces, the parser and printer of IP and socket addresses. The locale \<open>framing\<close> states
  when a receiver gets messages back one by one from a stream; control packages and datagrams interpret it.
\<^item> \<open>Trusted_Source\<close> (\<open>server/http_server.rs\<close>, \<open>server/server.rs\<close>): trusted upstreams, forwarded headers, the source variables of
  a request. Lemmas: a CIDR pattern matches exactly its prefix, clients cannot forge their address behind a
  trusted hop, headers of untrusted hops are ignored.
\<^item> \<open>Proxy_Protocol\<close> (\<open>stack/proxy_protocol.rs\<close>, \<open>cmds/proxy_protocol_probe.rs\<close>): PROXY headers. Lemmas: the probe does not depend on
  fragmentation, it reads back what the encoder writes, the two parsers of the code base agree.
\<^item> \<open>Sni_Probe\<close> (\<open>tcp/sni.rs\<close> of the process chains): the server name of a TLS ClientHello. Every index and slice access is a fallible operation.
  Lemmas: no access is out of range, the name of a well-formed hello is found, the stream is left as it was.
\<^item> \<open>Rtcp_Package\<close> (\<open>rtcp/package.rs\<close>, \<open>rtcp/datagram.rs\<close>): control packages and datagrams. JSON is an argument. Lemma: what is sent is
  received, in order and with its boundaries, for every fragmentation.
\<^item> \<open>Rtcp_Tunnel\<close> (\<open>rtcp/rtcp.rs\<close>, \<open>rtcp/stream_helper.rs\<close>): the nonce cache of the handshake, stream identifiers, awaited streams. Requests
  interleave at every await (\<open>tunnel_step\<close>). Lemmas: a token is not admitted twice before its retention time, no
  identifier is granted twice or after closing, a waiting request returns and leaves no entry.
\<^item> \<open>Aes_Stream\<close> (\<open>aes_stream.rs\<close>): the encrypted record layer. Lemmas: no nonce is used twice under any interleaving of calls, and
  a reader that keeps polling receives every accepted byte and the end of the stream.

\<^bold>\<open>Conventions.\<close> Fallible functions return \<open>'e + 'a\<close> with \<open>Inl\<close> the error; a Rust panic is a value of the error type.
State is passed explicitly and returned, errors included. Strings are lists of characters of one byte.
\<open>DefaultHasher\<close>, JSON and base64 texts, the printing of floats, clap's argument parser, external commands and
environments, and everything that the network or the clock answers are arguments of the definitions.

\<^bold>\<open>Not modelled.\<close> The stacks and servers themselves (TCP, UDP, TLS, QUIC, TUN, HTTP serving, and of RTCP the handshake and the transport), since they are
asynchronous I/O around third-party protocol libraries; name resolution, certificates and key handling
(\<open>cyfs-dns\<close>, \<open>cyfs-acme\<close>, \<open>cyfs-sn\<close>), the name service (\<open>bns-*\<close>), the JavaScript bridge (\<open>js/\<close>), logging, metrics
and configuration loading. Of the process chains the text parser (\<open>block/parser.rs\<close>) and the string, match, uri
and collection commands are left out; a command of a block that is not modelled can only enter as an
\<open>ExternalCommand\<close>, whose behaviour is the argument \<open>m_external\<close> of the machine.\<close>

end
